(* ===== verification/Atlas_Prelude.thy ===== *)
theory Atlas_Prelude
  imports Main "HOL-Library.Word"
begin

text \<open>
  Shared vocabulary of the development: the machine integers of the Rust sources, the ways a
  Rust computation can end abnormally, Rust's integer arithmetic in its two build profiles,
  and the generic lemmas on lists, sums and words that the component theories use.
\<close>

named_theorems exec_simps \<open>evaluation of fallible computations\<close>

section \<open>Machine integers\<close>

type_synonym u8 = "8 word"
type_synonym u32 = "32 word"
type_synonym u64 = "64 word"
type_synonym usize = "64 word"

text \<open>Signed integers are kept as their bit pattern and read with \<^const>\<open>sint\<close>.\<close>

type_synonym i32 = "32 word"
type_synonym i64 = "64 word"

abbreviation as_u32 :: "'w::len word \<Rightarrow> u32" where
  "as_u32 \<equiv> ucast"

abbreviation as_u64 :: "'w::len word \<Rightarrow> u64" where
  "as_u64 \<equiv> ucast"

text \<open>\<open>i32 as i64\<close> sign-extends; \<open>i64 as i32\<close> truncates.\<close>

abbreviation i32_as_i64 :: "i32 \<Rightarrow> i64" where
  "i32_as_i64 \<equiv> scast"

abbreviation i64_as_i32 :: "i64 \<Rightarrow> i32" where
  "i64_as_i32 \<equiv> ucast"

abbreviation negative :: "'w::len word \<Rightarrow> bool" where
  "negative w \<equiv> sint w < 0"

text \<open>Error numbers of \<open>libc\<close> that the sources name (identical on Linux and macOS).\<close>

definition EIO :: i32 where "EIO = 5"
definition EBADF :: i32 where "EBADF = 9"
definition EINVAL :: i32 where "EINVAL = 22"

text \<open>The flags of \<open>open\<close> that the tests use; the protocol carries them as 32 bits.\<close>

definition O_RDONLY :: u32 where "O_RDONLY = 0"
definition O_WRONLY :: u32 where "O_WRONLY = 1"
definition O_RDWR :: u32 where "O_RDWR = 2"
definition O_CREAT :: u32 where "O_CREAT = 64"
definition O_TRUNC :: u32 where "O_TRUNC = 512"

section \<open>Fallible computations\<close>

text \<open>
  The abnormal ends of a Rust computation: an arithmetic overflow (a panic of the debug
  profile), a failed \<open>assert!\<close>/\<open>expect\<close>/\<open>panic!\<close>, an index out of range, an access outside a
  mapped segment (undefined behaviour of the unsafe code), and a loop that spins for ever
  because its peer has stopped.
\<close>

datatype fault = Overflow | Assertion | Index_Range | Bad_Memory | Spin

type_synonym 'a exec = "fault + 'a"

definition and_then :: "'e + 'a \<Rightarrow> ('a \<Rightarrow> 'e + 'b) \<Rightarrow> 'e + 'b" where
  "and_then m f = (case m of Inl e \<Rightarrow> Inl e | Inr x \<Rightarrow> f x)"

lemma and_then_simps [simp, exec_simps]:
  "and_then (Inl e) f = Inl e"
  "and_then (Inr x) f = f x"
  by (simp_all add: and_then_def)

lemma and_then_Inr_iff:
  "and_then m f = Inr y \<longleftrightarrow> (\<exists>x. m = Inr x \<and> f x = Inr y)"
  by (cases m) auto

lemma and_then_InrE:
  assumes "and_then m f = Inr y"
  obtains x where "m = Inr x" "f x = Inr y"
  using assms by (auto simp: and_then_Inr_iff)

lemma and_then_cong [fundef_cong]:
  "m = m' \<Longrightarrow> (\<And>x. m' = Inr x \<Longrightarrow> f x = f' x) \<Longrightarrow> and_then m f = and_then m' f'"
  by (cases m') auto

lemma and_then_assoc: "and_then (and_then m f) g = and_then m (\<lambda>x. and_then (f x) g)"
  by (cases m) simp_all

lemma and_then_Inr [simp]: "and_then m Inr = m"
  by (cases m) simp_all

text \<open>A \<open>for\<close> loop over a list whose body may fail.\<close>

primrec fold_exec :: "('s \<Rightarrow> 'a \<Rightarrow> 's exec) \<Rightarrow> 's \<Rightarrow> 'a list \<Rightarrow> 's exec" where
  "fold_exec f s [] = Inr s"
| "fold_exec f s (x # xs) = and_then (f s x) (\<lambda>s'. fold_exec f s' xs)"

lemma fold_exec_append:
  "fold_exec f s (xs @ ys) = and_then (fold_exec f s xs) (\<lambda>s'. fold_exec f s' ys)"
proof (induction xs arbitrary: s)
  case (Cons x xs)
  then show ?case by (cases "f s x") simp_all
qed simp

lemma fold_exec_invariant:
  assumes "fold_exec f s xs = Inr s'" and "P s"
    and "\<And>s x t. x \<in> set xs \<Longrightarrow> P s \<Longrightarrow> f s x = Inr t \<Longrightarrow> P t"
  shows "P s'"
  using assms
proof (induction xs arbitrary: s)
  case (Cons x xs)
  from Cons.prems(1) obtain t where t: "f s x = Inr t" and rest: "fold_exec f t xs = Inr s'"
    by (auto elim: and_then_InrE)
  have "P t" using Cons.prems(3) [of x s t] Cons.prems(2) t by simp
  with rest show ?case
    by (rule Cons.IH) (use Cons.prems(3) in auto)
qed simp

lemma fold_exec_total:
  assumes "P s" "\<And>x s. x \<in> set xs \<Longrightarrow> P s \<Longrightarrow> \<exists>t. f s x = Inr t \<and> P t"
  shows "\<exists>t. fold_exec f s xs = Inr t \<and> P t"
  using assms
proof (induction xs arbitrary: s)
  case (Cons x xs)
  then obtain t where "f s x = Inr t" "P t" by (metis list.set_intros(1))
  with Cons.IH [of t] Cons.prems(2) show ?case by auto
qed auto

text \<open>\<open>assert!\<close>, and \<open>unwrap\<close> of a \<open>Result\<close>.\<close>

definition assert_that :: "bool \<Rightarrow> unit exec" where
  "assert_that b = (if b then Inr () else Inl Assertion)"

definition unwrap :: "'e + 'a \<Rightarrow> 'a exec" where
  "unwrap r = (case r of Inl _ \<Rightarrow> Inl Assertion | Inr x \<Rightarrow> Inr x)"

lemma assert_that_simps [simp]:
  "assert_that True = Inr ()" "assert_that False = Inl Assertion" "assert_that b = Inr u \<longleftrightarrow> b"
  by (simp_all add: assert_that_def)

lemma unwrap_simps [simp]: "unwrap (Inr x) = Inr x" "unwrap (Inl e) = Inl Assertion"
  by (simp_all add: unwrap_def)

section \<open>Integer arithmetic in the two build profiles\<close>

text \<open>
  Rust's \<open>+\<close> and \<open>-\<close> on unsigned integers panic on overflow when overflow checks are on (the
  \<open>dev\<close> and \<open>test\<close> profiles of cargo) and wrap when they are off (\<open>release\<close>). The manifests of the
  repository override neither, so every function that uses them takes the profile.
\<close>

datatype profile = Debug | Release

definition uadd :: "profile \<Rightarrow> 'w::len word \<Rightarrow> 'w word \<Rightarrow> 'w word exec" where
  "uadd p a b =
     (if p = Debug \<and> 2 ^ LENGTH('w) \<le> unat a + unat b then Inl Overflow else Inr (a + b))"

definition usub :: "profile \<Rightarrow> 'w::len word \<Rightarrow> 'w word \<Rightarrow> 'w word exec" where
  "usub p a b = (if p = Debug \<and> a < b then Inl Overflow else Inr (a - b))"

lemma uadd_no_overflow:
  fixes a b :: "'w::len word"
  shows "unat a + unat b < 2 ^ LENGTH('w) \<Longrightarrow> uadd p a b = Inr (a + b)"
  by (simp add: uadd_def)

lemma uadd_InrD: "uadd p a b = Inr c \<Longrightarrow> c = a + b"
  by (simp add: uadd_def split: if_splits)

lemma uadd_Release [simp]: "uadd Release a b = Inr (a + b)"
  by (simp add: uadd_def)

lemma usub_no_underflow [simp]: "b \<le> a \<Longrightarrow> usub p a b = Inr (a - b)"
  by (auto simp: usub_def)

lemma usub_InrD: "usub p a b = Inr c \<Longrightarrow> c = a - b"
  by (simp add: usub_def split: if_splits)

lemma usub_Release [simp]: "usub Release a b = Inr (a - b)"
  by (simp add: usub_def)

lemma uadd_Debug_Inr:
  fixes a b :: "'w::len word"
  shows "uadd Debug a b = Inr c \<longleftrightarrow> unat a + unat b < 2 ^ LENGTH('w) \<and> c = a + b"
  by (auto simp: uadd_def)

section \<open>Words\<close>

lemma unat_add_no_overflow:
  fixes a b :: "'w::len word"
  shows "unat a + unat b < 2 ^ LENGTH('w) \<Longrightarrow> unat (a + b) = unat a + unat b"
  by (simp add: unat_word_ariths)

lemma unat_as_u64_u32 [simp]: "unat (as_u64 (w :: u32)) = unat w"
proof -
  have "unat w < 2 ^ 64" using unsigned_less [of w, where ?'a = nat] by simp
  then show ?thesis by (simp add: unsigned_ucast_eq take_bit_nat_eq_self)
qed

lemma unat_as_u32_u64: "unat (as_u32 (w :: u64)) = unat w mod 2 ^ 32"
  by (simp add: unsigned_ucast_eq take_bit_eq_mod)

lemma ucast_eq_of_nat: "(ucast (w :: 'a::len word) :: 'b::len word) = of_nat (unat w)"
  by (simp add: word_eq_iff_unsigned [where ?'a = nat] unsigned_ucast_eq unsigned_of_nat
      take_bit_of_nat)

lemma unat_as_u32_small: "unat (w :: u64) < 2 ^ 32 \<Longrightarrow> unat (as_u32 w) = unat w"
  by (simp add: unat_as_u32_u64)

lemma unat_u32_less [simp]: "unat (w :: u32) < 4294967296"
  using unsigned_less [of w, where ?'a = nat] by simp

lemma unat_u64_less [simp]: "unat (w :: u64) < 18446744073709551616"
  using unsigned_less [of w, where ?'a = nat] by simp

lemma sint_u64_small:
  fixes w :: u64
  assumes "unat w < 2 ^ 63"
  shows "sint w = int (unat w)"
proof -
  have "uint w = int (unat w)" by simp
  then have "uint w < 2 ^ 63" using assms by (simp only: of_nat_less_numeral_power_cancel_iff)
  moreover have "- (2 ^ 63) \<le> uint w" by (rule order_trans [OF _ uint_ge_0]) simp
  ultimately have "signed_take_bit 63 (uint w) = uint w"
    by (intro signed_take_bit_int_eq_self) simp_all
  then show ?thesis by (simp add: sint_uint)
qed

lemma sint_as_u64_u32: "sint (as_u64 (w :: u32)) = int (unat w)"
proof -
  have "unat (as_u64 w) < 2 ^ 63" using unat_u32_less [of w] by (simp del: unat_u32_less)
  then show ?thesis by (simp add: sint_u64_small)
qed

text \<open>Narrowing a widened and negated error number gives its negation.\<close>

lemma take_bit_minus_signed: "take_bit 32 (- signed_take_bit 31 (e :: int)) = take_bit 32 (- e)"
proof -
  have "take_bit 32 (- signed_take_bit 31 e) = take_bit 32 (- take_bit 32 (signed_take_bit 31 e))"
    by (rule take_bit_minus [symmetric])
  also have "\<dots> = take_bit 32 (- take_bit 32 e)" by (simp add: take_bit_signed_take_bit)
  finally show ?thesis by (simp add: take_bit_minus)
qed

lemma narrow_errno: "i64_as_i32 (- i32_as_i64 e) = - e"
proof -
  have "uint (i64_as_i32 (- i32_as_i64 e)) = uint (- e)"
    by transfer (simp add: take_bit_minus take_bit_minus_signed)
  then show ?thesis by (simp only: word_uint_eq_iff)
qed

text \<open>Widening a signed 32-bit number.\<close>

lemma sint_i32_as_i64: "sint (i32_as_i64 fd) = sint fd"
proof -
  have "- (2 ^ 63) \<le> sint fd" "sint fd < 2 ^ 63"
    using sint_greater_eq [of fd] sint_less [of fd] by simp_all
  then show ?thesis by (simp add: signed_scast_eq signed_take_bit_int_eq_self del: of_int_sint)
qed

lemma i32_as_i64_back: "i64_as_i32 (i32_as_i64 fd) = fd"
  by (rule bit_word_eqI) (auto simp: bit_signed_iff bit_unsigned_iff)

section \<open>Lists\<close>

text \<open>\<open>Iterator::position\<close>: the index of the first element that satisfies the predicate.\<close>

fun position :: "('a \<Rightarrow> bool) \<Rightarrow> 'a list \<Rightarrow> nat option" where
  "position P [] = None"
| "position P (x # xs) = (if P x then Some 0 else map_option Suc (position P xs))"

lemma position_None_iff: "position P xs = None \<longleftrightarrow> (\<forall>x \<in> set xs. \<not> P x)"
  by (induction xs) auto

lemma take_position:
  "take (case position P xs of None \<Rightarrow> length xs | Some i \<Rightarrow> i) xs = takeWhile (\<lambda>x. \<not> P x) xs"
  by (induction xs) (auto split: option.splits)

lemma takeWhile_append_stop:
  "\<not> P z \<Longrightarrow> takeWhile P (xs @ z # ys) = takeWhile P xs"
  by (induction xs) auto

lemma map_nth_upt: "n \<le> length xs \<Longrightarrow> map (\<lambda>i. xs ! i) [0..<n] = take n xs"
  by (auto intro!: nth_equalityI)

end
