(* ===== verification/Protocol.thy ===== *)
theory Protocol
  imports Atlas_Prelude
begin

text \<open>
  The crate \<open>atlas-protocol\<close>, file \<open>lib.rs\<close>: the operation and priority codes, the request and
  response structs, the path field, and the names of the shared-memory segments.
\<close>

section \<open>Constants\<close>

definition RING_CAPACITY :: usize where "RING_CAPACITY = 4096"
definition DATA_REGION_SIZE :: usize where "DATA_REGION_SIZE = 64 * 1024 * 1024"
definition MAX_PATH_LEN :: nat where "MAX_PATH_LEN = 256"
definition SHM_PREFIX :: string where "SHM_PREFIX = ''atlas''"

section \<open>Operation and priority codes\<close>

datatype IoOp = Open | Read | Write | Sync | Close

fun op_as_u8 :: "IoOp \<Rightarrow> u8" where
  "op_as_u8 Open = 0"
| "op_as_u8 Read = 1"
| "op_as_u8 Write = 2"
| "op_as_u8 Sync = 3"
| "op_as_u8 Close = 4"

definition op_from_u8 :: "u8 \<Rightarrow> IoOp option" where
  "op_from_u8 v =
     (if v = 0 then Some Open
      else if v = 1 then Some Read
      else if v = 2 then Some Write
      else if v = 3 then Some Sync
      else if v = 4 then Some Close
      else None)"

datatype IoPriority = Low | High | Critical

fun priority_as_u8 :: "IoPriority \<Rightarrow> u8" where
  "priority_as_u8 Low = 0"
| "priority_as_u8 High = 1"
| "priority_as_u8 Critical = 2"

definition priority_from_u8 :: "u8 \<Rightarrow> IoPriority option" where
  "priority_from_u8 v =
     (if v = 0 then Some Low
      else if v = 1 then Some High
      else if v = 2 then Some Critical
      else None)"

text \<open>\<open>derive(PartialOrd, Ord)\<close> on a field-less enum compares the discriminants.\<close>

definition priority_le :: "IoPriority \<Rightarrow> IoPriority \<Rightarrow> bool" where
  "priority_le a b \<longleftrightarrow> priority_as_u8 a \<le> priority_as_u8 b"

instantiation IoPriority :: linorder
begin

definition less_eq_IoPriority :: "IoPriority \<Rightarrow> IoPriority \<Rightarrow> bool" where
  "less_eq_IoPriority a b \<longleftrightarrow> priority_le a b"

definition less_IoPriority :: "IoPriority \<Rightarrow> IoPriority \<Rightarrow> bool" where
  "less_IoPriority a b \<longleftrightarrow> priority_as_u8 a < priority_as_u8 b"

instance
proof
  fix a b :: IoPriority
  show "a \<le> b \<Longrightarrow> b \<le> a \<Longrightarrow> a = b"
    by (cases a; cases b) (simp_all add: less_eq_IoPriority_def priority_le_def word_le_nat_alt)
qed (auto simp: less_eq_IoPriority_def priority_le_def less_IoPriority_def)

end

lemma op_from_as_u8 [simp]: "op_from_u8 (op_as_u8 x) = Some x"
  by (cases x) (simp_all add: op_from_u8_def)

lemma op_from_u8_Some_iff: "op_from_u8 v = Some x \<longleftrightarrow> v = op_as_u8 x"
  by (cases x) (auto simp: op_from_u8_def)

lemma priority_from_as_u8 [simp]: "priority_from_u8 (priority_as_u8 x) = Some x"
  by (cases x) (simp_all add: priority_from_u8_def)

lemma priority_from_u8_Some_iff: "priority_from_u8 v = Some x \<longleftrightarrow> v = priority_as_u8 x"
  by (cases x) (auto simp: priority_from_u8_def)

section \<open>Requests and responses\<close>

record IoRequest =
  rq_id :: u64
  rq_op :: u8
  rq_priority :: u8
  rq_pad :: "u8 list"
  rq_fd :: u64
  rq_offset :: u64
  rq_len :: u32
  rq_data_offset :: u32
  rq_path :: "u8 list"

record IoResponse =
  rs_id :: u64
  rs_status :: i32
  rs_pad :: "u8 list"
  rs_fd :: u64
  rs_data_offset :: u32
  rs_data_len :: u32

text \<open>The array fields have the lengths their Rust types fix.\<close>

definition request_shape :: "IoRequest \<Rightarrow> bool" where
  "request_shape r \<longleftrightarrow> length (rq_pad r) = 6 \<and> length (rq_path r) = MAX_PATH_LEN"

definition IoRequest_new :: "u64 \<Rightarrow> IoOp \<Rightarrow> IoPriority \<Rightarrow> IoRequest" where
  "IoRequest_new i op priority =
     \<lparr>rq_id = i, rq_op = op_as_u8 op, rq_priority = priority_as_u8 priority,
      rq_pad = replicate 6 0, rq_fd = 0, rq_offset = 0, rq_len = 0, rq_data_offset = 0,
      rq_path = replicate MAX_PATH_LEN 0\<rparr>"

definition io_op :: "IoRequest \<Rightarrow> IoOp option" where
  "io_op r = op_from_u8 (rq_op r)"

definition io_priority :: "IoRequest \<Rightarrow> IoPriority option" where
  "io_priority r = priority_from_u8 (rq_priority r)"

definition IoResponse_ok :: "u64 \<Rightarrow> IoResponse" where
  "IoResponse_ok i =
     \<lparr>rs_id = i, rs_status = 0, rs_pad = replicate 4 0, rs_fd = 0,
      rs_data_offset = 0, rs_data_len = 0\<rparr>"

definition IoResponse_err :: "u64 \<Rightarrow> i32 \<Rightarrow> IoResponse" where
  "IoResponse_err i st =
     \<lparr>rs_id = i, rs_status = st, rs_pad = replicate 4 0, rs_fd = 0,
      rs_data_offset = 0, rs_data_len = 0\<rparr>"

lemma request_shape_new [simp]: "request_shape (IoRequest_new i op pr)"
  by (simp add: request_shape_def IoRequest_new_def)

lemma IoRequest_new_simps [simp]:
  "rq_id (IoRequest_new i op pr) = i" "rq_op (IoRequest_new i op pr) = op_as_u8 op"
  "rq_priority (IoRequest_new i op pr) = priority_as_u8 pr" "rq_fd (IoRequest_new i op pr) = 0"
  "rq_offset (IoRequest_new i op pr) = 0" "rq_len (IoRequest_new i op pr) = 0"
  "rq_data_offset (IoRequest_new i op pr) = 0"
  by (simp_all add: IoRequest_new_def)

lemma IoResponse_ok_simps [simp]:
  "rs_id (IoResponse_ok i) = i" "rs_status (IoResponse_ok i) = 0" "rs_fd (IoResponse_ok i) = 0"
  "rs_data_offset (IoResponse_ok i) = 0" "rs_data_len (IoResponse_ok i) = 0"
  by (simp_all add: IoResponse_ok_def)

lemma IoResponse_err_simps [simp]:
  "rs_id (IoResponse_err i st) = i" "rs_status (IoResponse_err i st) = st"
  "rs_fd (IoResponse_err i st) = 0" "rs_data_offset (IoResponse_err i st) = 0"
  "rs_data_len (IoResponse_err i st) = 0"
  by (simp_all add: IoResponse_err_def)

section \<open>UTF-8\<close>

text \<open>
  \<open>core::str::from_utf8\<close>: the well-formed byte sequences of the Unicode standard (no overlong
  forms, no surrogates, nothing above U+10FFFF).
\<close>

definition utf8_cont :: "u8 \<Rightarrow> bool" where
  "utf8_cont b \<longleftrightarrow> 0x80 \<le> b \<and> b \<le> 0xBF"

definition utf8_second3 :: "u8 \<Rightarrow> u8 \<Rightarrow> bool" where
  "utf8_second3 b c \<longleftrightarrow>
     (if b = 0xE0 then 0xA0 \<le> c \<and> c \<le> 0xBF
      else if b = 0xED then 0x80 \<le> c \<and> c \<le> 0x9F
      else utf8_cont c)"

definition utf8_second4 :: "u8 \<Rightarrow> u8 \<Rightarrow> bool" where
  "utf8_second4 b c \<longleftrightarrow>
     (if b = 0xF0 then 0x90 \<le> c \<and> c \<le> 0xBF
      else if b = 0xF4 then 0x80 \<le> c \<and> c \<le> 0x8F
      else utf8_cont c)"

fun utf8_valid :: "u8 list \<Rightarrow> bool" where
  "utf8_valid [] = True"
| "utf8_valid (b # bs) =
     (if b < 0x80 then utf8_valid bs
      else if 0xC2 \<le> b \<and> b \<le> 0xDF then
        (case bs of c1 # rest \<Rightarrow> utf8_cont c1 \<and> utf8_valid rest | _ \<Rightarrow> False)
      else if 0xE0 \<le> b \<and> b \<le> 0xEF then
        (case bs of c1 # c2 # rest \<Rightarrow> utf8_second3 b c1 \<and> utf8_cont c2 \<and> utf8_valid rest
         | _ \<Rightarrow> False)
      else if 0xF0 \<le> b \<and> b \<le> 0xF4 then
        (case bs of c1 # c2 # c3 # rest \<Rightarrow>
           utf8_second4 b c1 \<and> utf8_cont c2 \<and> utf8_cont c3 \<and> utf8_valid rest
         | _ \<Rightarrow> False)
      else False)"

declare utf8_valid.simps(2) [simp del]

lemma utf8_nonzero:
  "\<not> utf8_cont 0" "\<not> utf8_second3 b 0" "\<not> utf8_second4 b 0"
  by (auto simp: utf8_cont_def utf8_second3_def utf8_second4_def split: if_splits)

text \<open>A NUL byte is a character of its own, so cutting before the first one keeps the text valid.\<close>

lemma utf8_valid_takeWhile:
  "utf8_valid bs \<Longrightarrow> utf8_valid (takeWhile (\<lambda>b. b \<noteq> 0) bs)"
proof (induction bs rule: utf8_valid.induct)
  case (2 b bs)
  then show ?case
    by (auto simp: utf8_valid.simps(2) [of b] utf8_nonzero split: if_splits list.splits)
qed simp

section \<open>The path field\<close>

text \<open>A Rust \<open>&str\<close> is its UTF-8 bytes.\<close>

definition set_path :: "IoRequest \<Rightarrow> u8 list \<Rightarrow> IoRequest" where
  "set_path r p =
     (let n = min (length p) (MAX_PATH_LEN - 1);
          copied = take n p @ drop n (rq_path r)
      in r\<lparr>rq_path := copied[n := 0]\<rparr>)"

definition path_str :: "IoRequest \<Rightarrow> u8 list" where
  "path_str r =
     (let e = (case position (\<lambda>b. b = 0) (rq_path r) of None \<Rightarrow> MAX_PATH_LEN | Some i \<Rightarrow> i);
          s = take e (rq_path r)
      in if utf8_valid s then s else [])"

lemma path_str_eq:
  assumes "request_shape r"
  shows "path_str r =
    (let s = takeWhile (\<lambda>b. b \<noteq> 0) (rq_path r) in if utf8_valid s then s else [])"
proof -
  have len: "length (rq_path r) = MAX_PATH_LEN" using assms by (simp add: request_shape_def)
  show ?thesis
    unfolding path_str_def Let_def
      take_position [where P = "\<lambda>b. b = 0" and xs = "rq_path r", unfolded len] ..
qed

lemma set_path_rq_path:
  assumes "request_shape r"
  shows "\<exists>rest. rq_path (set_path r p) = take (MAX_PATH_LEN - 1) p @ 0 # rest"
proof -
  let ?n = "min (length p) (MAX_PATH_LEN - 1)"
  let ?old = "drop ?n (rq_path r)"
  have len: "length (rq_path r) = 256" and n: "?n < 256"
    using assms by (simp_all add: request_shape_def MAX_PATH_LEN_def)
  then obtain y ys where old: "?old = y # ys" by (cases ?old) auto
  have tk: "take ?n p = take (MAX_PATH_LEN - 1) p" and l: "length (take ?n p) = ?n"
    by (auto simp: min_def)
  have "rq_path (set_path r p) = (take ?n p @ y # ys)[length (take ?n p) := 0]"
    using old l by (simp only: set_path_def Let_def) simp
  also have "\<dots> = take ?n p @ 0 # ys" by (rule list_update_length)
  finally show ?thesis using tk by auto
qed

lemma set_path_simps [simp]:
  "rq_id (set_path r p) = rq_id r" "rq_op (set_path r p) = rq_op r" "rq_fd (set_path r p) = rq_fd r"
  "rq_priority (set_path r p) = rq_priority r" "rq_offset (set_path r p) = rq_offset r"
  "rq_len (set_path r p) = rq_len r" "rq_data_offset (set_path r p) = rq_data_offset r"
  by (simp_all add: set_path_def Let_def)

lemma request_shape_set_path [simp]: "request_shape r \<Longrightarrow> request_shape (set_path r p)"
  by (auto simp: request_shape_def set_path_def Let_def MAX_PATH_LEN_def)

lemma path_str_no_nul: "request_shape r \<Longrightarrow> 0 \<notin> set (path_str r)"
  by (auto simp: path_str_eq Let_def dest: set_takeWhileD)

lemma path_after_set_path:
  assumes "request_shape r"
  shows "takeWhile (\<lambda>b. b \<noteq> 0) (rq_path (set_path r p)) =
    takeWhile (\<lambda>b. b \<noteq> 0) (take (MAX_PATH_LEN - 1) p)"
  using set_path_rq_path [OF assms, of p] by (auto simp: takeWhile_append_stop)

lemma path_str_kept:
  assumes "request_shape r" and "utf8_valid p" and "0 \<notin> set p" and "length p \<le> 255"
  shows "path_str (set_path r p) = p"
proof -
  have "takeWhile (\<lambda>b. b \<noteq> 0) p = p" using assms(3) by (auto simp: takeWhile_eq_all_conv)
  then have "takeWhile (\<lambda>b. b \<noteq> 0) (rq_path (set_path r p)) = p"
    using path_after_set_path [OF assms(1), of p] assms(4) by (simp add: MAX_PATH_LEN_def)
  then show ?thesis
    using assms(1,2) by (simp add: path_str_eq Let_def)
qed

section \<open>Properties\<close>

text \<open>Whatever the path field held before, \<open>path_str\<close> after \<open>set_path\<close> yields the first 255
  bytes of the argument cut before the first NUL byte, provided these bytes are well-formed UTF-8,
  and the empty string otherwise.\<close>

theorem path_str_set_path:
  assumes "request_shape r"
  shows "path_str (set_path r p) =
    (let q = takeWhile (\<lambda>b. b \<noteq> 0) (take 255 p) in if utf8_valid q then q else [])"
  using path_after_set_path [OF assms, of p] assms
  by (simp add: path_str_eq MAX_PATH_LEN_def)

theorem path_str_set_path_witness:
  "path_str (set_path (set_path (IoRequest_new 1 Open High) [0x2F, 0x62, 0x62]) [0x2F, 0x61]) =
     [0x2F, 0x61]"
proof -
  have "request_shape (set_path (IoRequest_new 1 Open High) [0x2F, 0x62, 0x62])" by simp
  from path_str_set_path [OF this, of "[0x2F, 0x61]"] show ?thesis
    by (simp add: utf8_valid.simps(2))
qed

text \<open>C28. A path that is valid UTF-8, has no NUL byte and fits the field is read back unchanged.\<close>

theorem path_roundtrip:
  assumes "request_shape r" and "utf8_valid p" and "0 \<notin> set p" and "length p \<le> 255"
  shows "path_str (set_path r p) = p"
  by (rule path_str_kept [OF assms])

theorem path_roundtrip_witness:
  "path_str (set_path (IoRequest_new 1 Open High) [0x2F, 0xC3, 0xA9]) = [0x2F, 0xC3, 0xA9]"
  by (rule path_roundtrip) (simp_all add: utf8_valid.simps(2) utf8_cont_def)

text \<open>A valid path that does not fit is cut in the middle of a character when the 255-byte limit
  falls there, and the whole path is then read back as the empty string: 254 letters followed by
  one two-byte character.\<close>

theorem long_path_is_lost:
  "let p = replicate 254 0x61 @ [0xC3, 0xA9]; r = IoRequest_new 1 Open High
   in utf8_valid p \<and> 0 \<notin> set p \<and> path_str (set_path r p) = []"
  by code_simp

text \<open>A request built by \<open>IoRequest::new\<close> decodes to the operation and priority it was built
  with; a byte decodes to an operation (a priority) only if it is that one's code; and the codes
  order the priorities as the scheduler assumes.\<close>

theorem codes_roundtrip:
  "io_op (IoRequest_new i op pr) = Some op \<and> io_priority (IoRequest_new i op pr) = Some pr \<and>
   (op_from_u8 b = Some op \<longleftrightarrow> b = op_as_u8 op) \<and>
   (priority_from_u8 b = Some pr \<longleftrightarrow> b = priority_as_u8 pr) \<and>
   Low < High \<and> High < Critical"
  by (simp add: io_op_def io_priority_def IoRequest_new_def op_from_u8_Some_iff
      priority_from_u8_Some_iff less_IoPriority_def word_less_nat_alt)

end
