(* ===== verification/Batch_Engine.thy ===== *)
theory Batch_Engine
  imports Protocol "HOL-Library.Multiset" "HOL-Library.Product_Lexorder"
begin

text \<open>
  \<open>atlas-service/src/batch.rs\<close>: the engine that collects the requests of one service round and
  merges adjacent reads and adjacent writes. A channel index is a position in the service's
  vector of channels, on which the code does no arithmetic; it is a natural number here.
\<close>

section \<open>Data\<close>

record TaggedRequest =
  tr_req :: IoRequest
  tr_channel :: nat

record MergedOp =
  mo_req :: IoRequest
  mo_channel :: nat
  mo_sources :: "(u64 \<times> u32 \<times> u32) list"

record BatchEngine =
  pending :: "TaggedRequest list"

definition BatchEngine_new :: BatchEngine where
  "BatchEngine_new = \<lparr>pending = []\<rparr>"

definition batch_add :: "BatchEngine \<Rightarrow> IoRequest \<Rightarrow> nat \<Rightarrow> BatchEngine" where
  "batch_add b req ch = b\<lparr>pending := pending b @ [\<lparr>tr_req = req, tr_channel = ch\<rparr>]\<rparr>"

definition batch_is_empty :: "BatchEngine \<Rightarrow> bool" where
  "batch_is_empty b \<longleftrightarrow> pending b = []"

abbreviation t_offset :: "TaggedRequest \<Rightarrow> u64" where "t_offset t \<equiv> rq_offset (tr_req t)"
abbreviation t_len :: "TaggedRequest \<Rightarrow> u32" where "t_len t \<equiv> rq_len (tr_req t)"
abbreviation t_fd :: "TaggedRequest \<Rightarrow> u64" where "t_fd t \<equiv> rq_fd (tr_req t)"
abbreviation t_id :: "TaggedRequest \<Rightarrow> u64" where "t_id t \<equiv> rq_id (tr_req t)"
abbreviation t_op :: "TaggedRequest \<Rightarrow> IoOp option" where "t_op t \<equiv> op_from_u8 (rq_op (tr_req t))"

section \<open>Merging\<close>

definition sort_position :: "TaggedRequest \<Rightarrow> nat \<times> u64 \<times> u64" where
  "sort_position t = (tr_channel t, t_fd t, t_offset t)"

text \<open>The test of the inner loop: same channel and descriptor, adjacent or overlapping.\<close>

definition joins :: "nat \<Rightarrow> IoRequest \<Rightarrow> u64 \<Rightarrow> TaggedRequest \<Rightarrow> bool" where
  "joins ch m e next \<longleftrightarrow> tr_channel next = ch \<and> t_fd next = rq_fd m \<and> t_offset next \<le> e"

text \<open>The inner \<open>while j < ops.len()\<close> loop: absorb what joins, return the rest.\<close>

fun absorb ::
  "profile \<Rightarrow> nat \<Rightarrow> IoRequest \<Rightarrow> u64 \<Rightarrow> (u64 \<times> u32 \<times> u32) list \<Rightarrow> TaggedRequest list \<Rightarrow>
   (u64 \<times> (u64 \<times> u32 \<times> u32) list \<times> TaggedRequest list) exec" where
  "absorb p ch m e src [] = Inr (e, src, [])"
| "absorb p ch m e src (next # ops) =
     (if joins ch m e next then
        and_then (usub p (t_offset next) (rq_offset m)) (\<lambda>d.
        and_then (uadd p (t_offset next) (as_u64 (t_len next))) (\<lambda>next_end.
          absorb p ch m (if next_end > e then next_end else e)
            (src @ [(t_id next, as_u32 d, t_len next)]) ops))
      else Inr (e, src, next # ops))"

lemma absorb_rest_length:
  "absorb p ch m e src ops = Inr (e', src', rest) \<Longrightarrow> length rest \<le> length ops"
  by (induction p ch m e src ops rule: absorb.induct)
    (fastforce split: if_splits elim!: and_then_InrE)+

text \<open>The outer \<open>while i < ops.len()\<close> loop.\<close>

function merge_runs :: "profile \<Rightarrow> TaggedRequest list \<Rightarrow> MergedOp list \<Rightarrow> MergedOp list exec" where
  "merge_runs p [] result = Inr result"
| "merge_runs p (first # ops) result =
     and_then (uadd p (t_offset first) (as_u64 (t_len first))) (\<lambda>e0.
     and_then (absorb p (tr_channel first) (tr_req first) e0 [(t_id first, 0, t_len first)] ops)
       (\<lambda>res. case res of (e, src, rest) \<Rightarrow>
         and_then (usub p e (t_offset first)) (\<lambda>span.
           merge_runs p rest
             (result @ [\<lparr>mo_req = (tr_req first)\<lparr>rq_len := as_u32 span\<rparr>,
                         mo_channel = tr_channel first, mo_sources = src\<rparr>]))))"
  by pat_completeness auto
termination
  by (relation "measure (\<lambda>(p, ops, result). length ops)")
    (auto simp: less_Suc_eq_le dest: absorb_rest_length)

definition merge_adjacent :: "profile \<Rightarrow> TaggedRequest list \<Rightarrow> MergedOp list \<Rightarrow> MergedOp list exec" where
  "merge_adjacent p ops result =
     (if ops = [] then Inr result else merge_runs p (sort_key sort_position ops) result)"

text \<open>Separate the mergeable operations from the others, keeping the order of each kind.\<close>

fun split_pending ::
  "TaggedRequest list \<Rightarrow> TaggedRequest list \<times> TaggedRequest list \<times> TaggedRequest list" where
  "split_pending [] = ([], [], [])"
| "split_pending (t # ts) =
     (case split_pending ts of (reads, writes, others) \<Rightarrow>
        (case t_op t of
           Some Read \<Rightarrow> (t # reads, writes, others)
         | Some Write \<Rightarrow> (reads, t # writes, others)
         | _ \<Rightarrow> (reads, writes, t # others)))"

text \<open>An operation that is passed through: a single source.\<close>

definition pass_op :: "TaggedRequest \<Rightarrow> MergedOp" where
  "pass_op t =
     \<lparr>mo_req = tr_req t, mo_channel = tr_channel t, mo_sources = [(t_id t, 0, t_len t)]\<rparr>"

definition drain_merged :: "profile \<Rightarrow> BatchEngine \<Rightarrow> (MergedOp list \<times> BatchEngine) exec" where
  "drain_merged p b =
     (if pending b = [] then Inr ([], b)
      else case split_pending (pending b) of (reads, writes, others) \<Rightarrow>
        and_then (merge_adjacent p reads (map pass_op others)) (\<lambda>result.
        and_then (merge_adjacent p writes result) (\<lambda>result'.
          Inr (result', b\<lparr>pending := []\<rparr>))))"

section \<open>What a run of requests merges to\<close>

text \<open>The specification of one merged operation, as a function of the run it absorbs.\<close>

definition t_end :: "TaggedRequest \<Rightarrow> u64" where
  "t_end t = t_offset t + as_u64 (t_len t)"

definition run_end :: "u64 \<Rightarrow> TaggedRequest list \<Rightarrow> u64" where
  "run_end e ts = foldl (\<lambda>e t. if t_end t > e then t_end t else e) e ts"

lemma run_end_simps [simp]:
  "run_end e [] = e"
  "run_end e (t # ts) = run_end (if t_end t > e then t_end t else e) ts"
  by (simp_all add: run_end_def)

definition source_of :: "IoRequest \<Rightarrow> TaggedRequest \<Rightarrow> u64 \<times> u32 \<times> u32" where
  "source_of m t = (t_id t, as_u32 (t_offset t - rq_offset m), t_len t)"

definition merged_of :: "TaggedRequest list \<Rightarrow> MergedOp" where
  "merged_of g =
     (let f = hd g in
      \<lparr>mo_req = (tr_req f)\<lparr>rq_len := as_u32 (run_end (t_end f) (tl g) - t_offset f)\<rparr>,
       mo_channel = tr_channel f, mo_sources = map (source_of (tr_req f)) g\<rparr>)"

primrec joined :: "nat \<Rightarrow> IoRequest \<Rightarrow> u64 \<Rightarrow> TaggedRequest list \<Rightarrow> bool" where
  "joined ch m e [] = True"
| "joined ch m e (t # ts) =
     (joins ch m e t \<and> joined ch m (if t_end t > e then t_end t else e) ts)"

definition run_ok :: "TaggedRequest list \<Rightarrow> bool" where
  "run_ok g \<longleftrightarrow> g \<noteq> [] \<and> joined (tr_channel (hd g)) (tr_req (hd g)) (t_end (hd g)) (tl g)"

definition breaks :: "TaggedRequest list \<Rightarrow> TaggedRequest \<Rightarrow> bool" where
  "breaks g t \<longleftrightarrow> \<not> joins (tr_channel (hd g)) (tr_req (hd g)) (run_end (t_end (hd g)) (tl g)) t"

fun runs_ok :: "TaggedRequest list list \<Rightarrow> bool" where
  "runs_ok [] = True"
| "runs_ok [g] = run_ok g"
| "runs_ok (g # g' # gs) = (run_ok g \<and> breaks g (hd g') \<and> runs_ok (g' # gs))"

lemma absorb_spec:
  assumes "absorb p ch m e src ops = Inr (e', src', rest)"
  shows "\<exists>g. ops = g @ rest \<and> joined ch m e g \<and> e' = run_end e g \<and>
    src' = src @ map (source_of m) g \<and> (rest = [] \<or> \<not> joins ch m e' (hd rest))"
  using assms
proof (induction p ch m e src ops rule: absorb.induct)
  case (2 p ch m e src t ops)
  show ?case
  proof (cases "joins ch m e t")
    case True
    with 2(2) obtain d ne where d: "usub p (t_offset t) (rq_offset m) = Inr d"
      and ne: "uadd p (t_offset t) (as_u64 (t_len t)) = Inr ne"
      and rec: "absorb p ch m (if ne > e then ne else e) (src @ [(t_id t, as_u32 d, t_len t)]) ops
        = Inr (e', src', rest)"
      by (auto elim!: and_then_InrE)
    have eqs: "d = t_offset t - rq_offset m" "ne = t_end t"
      using d ne by (auto dest: usub_InrD uadd_InrD simp: t_end_def)
    from 2(1) [OF True d ne rec] obtain g where g: "ops = g @ rest"
      "joined ch m (if ne > e then ne else e) g" "e' = run_end (if ne > e then ne else e) g"
      "src' = (src @ [(t_id t, as_u32 d, t_len t)]) @ map (source_of m) g"
      "rest = [] \<or> \<not> joins ch m e' (hd rest)" by blast
    then show ?thesis
      using True unfolding eqs by (intro exI [of _ "t # g"]) (simp add: source_of_def)
  qed (use 2(2) in auto)
qed auto

lemma merge_runs_spec:
  assumes "merge_runs p ops result = Inr out"
  shows "\<exists>gs. concat gs = ops \<and> runs_ok gs \<and> out = result @ map merged_of gs"
  using assms
proof (induction p ops result rule: merge_runs.induct)
  case (1 p result)
  then show ?case by (intro exI [of _ "[]"]) simp
next
  case (2 p f ops result)
  from 2(2) obtain e0 e src rest span where e0: "uadd p (t_offset f) (as_u64 (t_len f)) = Inr e0"
    and ab: "absorb p (tr_channel f) (tr_req f) e0 [(t_id f, 0, t_len f)] ops = Inr (e, src, rest)"
    and sp: "usub p e (t_offset f) = Inr span"
    and rec: "merge_runs p rest (result @ [\<lparr>mo_req = (tr_req f)\<lparr>rq_len := as_u32 span\<rparr>,
                mo_channel = tr_channel f, mo_sources = src\<rparr>]) = Inr out"
    by (auto elim!: and_then_InrE split: prod.splits)
  have e0': "e0 = t_end f" and span: "span = e - t_offset f"
    using e0 sp by (auto dest: uadd_InrD usub_InrD simp: t_end_def)
  from absorb_spec [OF ab] obtain g where g: "ops = g @ rest"
    "joined (tr_channel f) (tr_req f) e0 g" "e = run_end e0 g"
    "src = (t_id f, 0, t_len f) # map (source_of (tr_req f)) g"
    "rest = [] \<or> \<not> joins (tr_channel f) (tr_req f) e (hd rest)" by auto
  from 2(1) [OF e0 ab refl refl sp rec] obtain gs where gs: "concat gs = rest" "runs_ok gs"
    "out = (result @ [\<lparr>mo_req = (tr_req f)\<lparr>rq_len := as_u32 span\<rparr>,
       mo_channel = tr_channel f, mo_sources = src\<rparr>]) @ map merged_of gs" by blast
  have "runs_ok ((f # g) # gs)"
  proof (cases gs)
    case (Cons h hs)
    then have "h \<noteq> []" using gs(2) by (cases hs) (auto simp: run_ok_def)
    then have "hd rest = hd h" "rest \<noteq> []" using gs(1) Cons by auto
    then show ?thesis using gs(2) g Cons e0' by (auto simp: run_ok_def breaks_def)
  qed (use g e0' in \<open>simp add: run_ok_def\<close>)
  moreover have "merged_of (f # g) = \<lparr>mo_req = (tr_req f)\<lparr>rq_len := as_u32 span\<rparr>,
       mo_channel = tr_channel f, mo_sources = src\<rparr>"
    using g e0' span by (simp add: merged_of_def source_of_def)
  ultimately show ?case using gs g(1) by (intro exI [of _ "(f # g) # gs"]) simp
qed

text \<open>The runs of a list of requests of one kind: what \<open>merge_adjacent\<close> appends.\<close>

lemma merge_adjacent_spec:
  assumes "merge_adjacent p ops result = Inr out"
  shows "\<exists>gs. concat gs = sort_key sort_position ops \<and> runs_ok gs \<and> out = result @ map merged_of gs"
  using assms merge_runs_spec [of p "sort_key sort_position ops" result out]
  by (auto simp: merge_adjacent_def split: if_splits intro!: exI [of _ "[]"])

section \<open>Conservation\<close>

text \<open>What identifies a request in the output: channel, operation code, descriptor, id, length.\<close>

definition request_of :: "TaggedRequest \<Rightarrow> nat \<times> u8 \<times> u64 \<times> u64 \<times> u32" where
  "request_of t = (tr_channel t, rq_op (tr_req t), t_fd t, t_id t, t_len t)"

definition op_requests :: "MergedOp \<Rightarrow> (nat \<times> u8 \<times> u64 \<times> u64 \<times> u32) list" where
  "op_requests m =
     map (\<lambda>(i, _, l). (mo_channel m, rq_op (mo_req m), rq_fd (mo_req m), i, l)) (mo_sources m)"

lemma joined_same:
  "joined ch m e ts \<Longrightarrow> t \<in> set ts \<Longrightarrow> tr_channel t = ch \<and> t_fd t = rq_fd m"
  by (induction ts arbitrary: e) (auto simp: joins_def)

lemma run_ok_same:
  "run_ok g \<Longrightarrow> t \<in> set g \<Longrightarrow> tr_channel t = tr_channel (hd g) \<and> t_fd t = t_fd (hd g)"
  by (cases g) (auto simp: run_ok_def dest: joined_same)

lemma runs_ok_run_ok: "runs_ok gs \<Longrightarrow> g \<in> set gs \<Longrightarrow> run_ok g"
  by (induction gs rule: runs_ok.induct) auto

lemma op_requests_merged_of:
  assumes "run_ok g" "\<And>t. t \<in> set g \<Longrightarrow> rq_op (tr_req t) = c"
  shows "op_requests (merged_of g) = map request_of g"
proof -
  have "hd g \<in> set g" using assms(1) by (simp add: run_ok_def)
  then have op: "rq_op (tr_req (hd g)) = c" by (rule assms(2))
  have "request_of t = (tr_channel (hd g), c, t_fd (hd g), t_id t, t_len t)" if "t \<in> set g" for t
    using run_ok_same [OF assms(1) that] assms(2) [OF that] by (simp add: request_of_def)
  then show ?thesis
    by (simp add: op_requests_def merged_of_def source_of_def Let_def op)
qed

lemma op_requests_pass_op [simp]: "op_requests (pass_op t) = [request_of t]"
  by (simp add: op_requests_def pass_op_def request_of_def)

lemma merge_adjacent_requests:
  assumes "merge_adjacent p ops result = Inr out"
    and "\<And>t. t \<in> set ops \<Longrightarrow> rq_op (tr_req t) = c"
  shows "mset (concat (map op_requests out)) =
    mset (concat (map op_requests result)) + mset (map request_of ops)"
proof -
  from merge_adjacent_spec [OF assms(1)] obtain gs where
    gs: "concat gs = sort_key sort_position ops" "runs_ok gs" "out = result @ map merged_of gs"
    by blast
  have "op_requests (merged_of g) = map request_of g" if "g \<in> set gs" for g
  proof (rule op_requests_merged_of)
    show "run_ok g" using gs(2) that by (rule runs_ok_run_ok)
    fix t assume "t \<in> set g"
    then have "t \<in> set (concat gs)" using that by auto
    then show "rq_op (tr_req t) = c" using assms(2) gs(1) by simp
  qed
  then have "map op_requests (map merged_of gs) = map (map request_of) gs" by simp
  then have "concat (map op_requests (map merged_of gs)) = concat (map (map request_of) gs)"
    by (rule arg_cong)
  also have "\<dots> = map request_of (concat gs)" by (simp add: map_concat)
  finally have eq: "concat (map op_requests (map merged_of gs)) = map request_of (concat gs)" .
  have "mset (concat (map op_requests out)) =
      mset (concat (map op_requests result)) + mset (concat (map op_requests (map merged_of gs)))"
    by (simp add: gs(3))
  also have "\<dots> = mset (concat (map op_requests result)) + mset (map request_of ops)"
    unfolding eq gs(1) by simp
  finally show ?thesis .
qed

lemma split_pending_filter:
  "split_pending ts =
     (filter (\<lambda>t. t_op t = Some Read) ts, filter (\<lambda>t. t_op t = Some Write) ts,
      filter (\<lambda>t. t_op t \<noteq> Some Read \<and> t_op t \<noteq> Some Write) ts)"
  by (induction ts) (auto split: option.splits IoOp.splits)

lemma mset_filter3:
  "(\<And>x. P x \<Longrightarrow> \<not> Q x) \<Longrightarrow>
   mset xs = mset (filter P xs) + mset (filter Q xs) + mset (filter (\<lambda>x. \<not> P x \<and> \<not> Q x) xs)"
  by (induction xs) auto

lemma split_pending_mset:
  assumes "split_pending ts = (reads, writes, others)"
  shows "mset ts = mset reads + mset writes + mset others"
proof -
  have "reads = filter (\<lambda>t. t_op t = Some Read) ts" "writes = filter (\<lambda>t. t_op t = Some Write) ts"
    "others = filter (\<lambda>t. t_op t \<noteq> Some Read \<and> t_op t \<noteq> Some Write) ts"
    using assms by (simp_all only: split_pending_filter prod.inject)
  then show ?thesis
    by (simp only:) (rule mset_filter3, simp)
qed

lemma drain_mergedE:
  assumes "drain_merged p b = Inr (ops, b')"
  obtains reads writes others out where
    "split_pending (pending b) = (reads, writes, others)"
    "merge_adjacent p reads (map pass_op others) = Inr out"
    "merge_adjacent p writes out = Inr ops" "b' = b\<lparr>pending := []\<rparr>"
proof (cases "pending b = []")
  case True
  with assms have "ops = []" "b' = b" by (simp_all add: drain_merged_def)
  moreover have "b = b\<lparr>pending := []\<rparr>" using True by (cases b) simp
  ultimately show thesis
    using True by (intro that [of "[]" "[]" "[]" "[]"]) (simp_all add: merge_adjacent_def)
next
  case False
  obtain reads writes others where s: "split_pending (pending b) = (reads, writes, others)"
    by (cases "split_pending (pending b)") auto
  with False assms obtain out where "merge_adjacent p reads (map pass_op others) = Inr out"
    "merge_adjacent p writes out = Inr ops" "b' = b\<lparr>pending := []\<rparr>"
    by (auto simp: drain_merged_def elim!: and_then_InrE)
  with s show thesis by (rule that)
qed

lemma drain_merged_requests:
  assumes "drain_merged p b = Inr (ops, b')"
  shows "pending b' = []"
    and "mset (concat (map op_requests ops)) = mset (map request_of (pending b))"
proof -
  from drain_mergedE [OF assms] obtain reads writes others out where
    s: "split_pending (pending b) = (reads, writes, others)"
    and r: "merge_adjacent p reads (map pass_op others) = Inr out"
    and w: "merge_adjacent p writes out = Inr ops" and b': "b' = b\<lparr>pending := []\<rparr>" .
  have codes: "t \<in> set reads \<Longrightarrow> rq_op (tr_req t) = op_as_u8 Read"
    "t \<in> set writes \<Longrightarrow> rq_op (tr_req t) = op_as_u8 Write" for t
    using s by (auto simp: split_pending_filter op_from_u8_Some_iff)
  have "concat (map op_requests (map pass_op others)) = map request_of others"
    by (induction others) simp_all
  then have "mset (concat (map op_requests ops)) =
      mset (map request_of others) + mset (map request_of reads) + mset (map request_of writes)"
    using merge_adjacent_requests [OF r codes(1)] merge_adjacent_requests [OF w codes(2)] by simp
  also have "\<dots> = image_mset request_of (mset (pending b))"
    using split_pending_mset [OF s] by simp
  finally show "mset (concat (map op_requests ops)) = mset (map request_of (pending b))" by simp
  show "pending b' = []" using b' by simp
qed

section \<open>Success without overflow\<close>

text \<open>The request's byte range does not wrap.\<close>

definition fits :: "TaggedRequest \<Rightarrow> bool" where
  "fits t \<longleftrightarrow> unat (t_offset t) + unat (t_len t) < 2 ^ 64"

lemma fits_uadd: "fits t \<Longrightarrow> uadd p (t_offset t) (as_u64 (t_len t)) = Inr (t_end t)"
  by (simp add: fits_def t_end_def uadd_no_overflow)

lemma fits_unat_end: "fits t \<Longrightarrow> unat (t_end t) = unat (t_offset t) + unat (t_len t)"
  by (simp add: fits_def t_end_def unat_add_no_overflow)

lemma fits_offset_le: "fits t \<Longrightarrow> t_offset t \<le> t_end t"
  by (simp add: word_le_nat_alt fits_unat_end)

lemma run_end_ge: "e \<le> run_end e ts"
  by (induction ts arbitrary: e) (auto intro: order_trans less_imp_le)

lemma run_end_upper: "t \<in> set ts \<Longrightarrow> t_end t \<le> run_end e ts"
proof (induction ts arbitrary: e)
  case (Cons s ts)
  have "t_end s \<le> run_end (if t_end s > e then t_end s else e) ts"
    by (rule order_trans [OF _ run_end_ge]) auto
  with Cons show ?case by auto
qed simp

lemma absorb_total:
  assumes "\<And>t. t \<in> set ops \<Longrightarrow> fits t"
    and "\<And>t. t \<in> set ops \<Longrightarrow> tr_channel t = ch \<Longrightarrow> t_fd t = rq_fd m \<Longrightarrow> rq_offset m \<le> t_offset t"
  shows "\<exists>r. \<forall>p. absorb p ch m e src ops = Inr r"
  using assms
proof (induction ops arbitrary: e src)
  case (Cons t ops)
  show ?case
  proof (cases "joins ch m e t")
    case True
    then have "rq_offset m \<le> t_offset t" using Cons.prems(2) [of t] by (simp add: joins_def)
    with Cons True show ?thesis by (simp add: fits_uadd)
  qed simp
qed simp

lemma sort_position_same:
  "sort_position s \<le> sort_position t \<Longrightarrow> tr_channel s = tr_channel t \<Longrightarrow> t_fd s = t_fd t \<Longrightarrow>
   t_offset s \<le> t_offset t"
  by (simp add: sort_position_def)

lemma merge_runs_total:
  "sorted (map sort_position ops) \<Longrightarrow> (\<And>t. t \<in> set ops \<Longrightarrow> fits t) \<Longrightarrow>
   \<exists>out. \<forall>p. merge_runs p ops result = Inr out"
proof (induction ops arbitrary: result rule: length_induct)
  case (1 ops)
  show ?case
  proof (cases ops)
    case Nil
    then show ?thesis by simp
  next
    case (Cons f rest)
    have "\<exists>r. \<forall>p. absorb p (tr_channel f) (tr_req f) (t_end f) [(t_id f, 0, t_len f)] rest = Inr r"
      using 1(2,3) Cons by (intro absorb_total) (auto intro: sort_position_same)
    then obtain e src rest' where
      ab: "\<And>p. absorb p (tr_channel f) (tr_req f) (t_end f) [(t_id f, 0, t_len f)] rest = Inr (e, src, rest')"
      by (metis prod_cases3)
    from absorb_spec [OF ab] obtain g where g: "rest = g @ rest'" "e = run_end (t_end f) g" by blast
    have "t_offset f \<le> e"
      using fits_offset_le [of f] run_end_ge [of "t_end f" g] 1(3) Cons g(2) by (auto intro: order_trans)
    moreover have "\<exists>out. \<forall>p. merge_runs p rest' r = Inr out" for r
      using 1(1) [rule_format, of rest' r] 1(2,3) Cons g(1) by (simp add: sorted_append)
    ultimately show ?thesis
      using Cons ab 1(3) by (simp add: fits_uadd)
  qed
qed

lemma drain_merged_total:
  assumes "\<And>t. t \<in> set (pending b) \<Longrightarrow> fits t"
  shows "\<exists>r. \<forall>p. drain_merged p b = Inr r"
proof -
  have total: "\<exists>out. \<forall>p. merge_adjacent p ops result = Inr out"
    if "set ops \<subseteq> set (pending b)" for ops result
  proof -
    have "\<exists>out. \<forall>p. merge_runs p (sort_key sort_position ops) result = Inr out"
      using that assms by (intro merge_runs_total) auto
    then show ?thesis by (cases "ops = []") (simp_all add: merge_adjacent_def)
  qed
  obtain reads writes others where s: "split_pending (pending b) = (reads, writes, others)"
    by (cases "split_pending (pending b)") auto
  then have sub: "set reads \<subseteq> set (pending b)" "set writes \<subseteq> set (pending b)"
    by (auto simp: split_pending_filter)
  from total [OF sub(1), of "map pass_op others"] obtain out where
    "\<And>p. merge_adjacent p reads (map pass_op others) = Inr out" by blast
  moreover from total [OF sub(2), of out] obtain out' where
    "\<And>p. merge_adjacent p writes out = Inr out'" by blast
  ultimately show ?thesis using s by (cases "pending b = []") (simp_all add: drain_merged_def)
qed

text \<open>Without overflow checks a drain always returns.\<close>

lemma absorb_Release: "\<exists>r. absorb Release ch m e src ops = Inr r"
  by (induction "Release" ch m e src ops rule: absorb.induct) auto

lemma merge_runs_Release: "\<exists>r. merge_runs Release ops result = Inr r"
proof (induction "Release" ops result rule: merge_runs.induct)
  case (2 f ops result)
  obtain e src rest where "absorb Release (tr_channel f) (tr_req f) (t_offset f + as_u64 (t_len f))
      [(t_id f, 0, t_len f)] ops = Inr (e, src, rest)" using absorb_Release by (metis prod_cases3)
  with 2 show ?case by simp
qed simp

lemma drain_merged_Release: "\<exists>r. drain_merged Release b = Inr r"
proof (cases "pending b = []")
  case False
  obtain reads writes others where s: "split_pending (pending b) = (reads, writes, others)"
    by (metis prod_cases3)
  have adj: "\<exists>r. merge_adjacent Release ops result = Inr r" for ops result
    using merge_runs_Release by (simp add: merge_adjacent_def)
  obtain r1 where r1: "merge_adjacent Release reads (map pass_op others) = Inr r1" using adj by blast
  obtain r2 where "merge_adjacent Release writes r1 = Inr r2" using adj by blast
  with False s r1 show ?thesis by (simp add: drain_merged_def)
qed (simp add: drain_merged_def)

section \<open>Coverage\<close>

text \<open>The bytes of the file that a request addresses.\<close>

definition span_set :: "TaggedRequest \<Rightarrow> nat set" where
  "span_set t = {unat (t_offset t) ..< unat (t_offset t) + unat (t_len t)}"

lemma run_end_cover:
  assumes "joined ch m e ts" "\<And>t. t \<in> set ts \<Longrightarrow> fits t" "\<And>t. t \<in> set ts \<Longrightarrow> q \<le> t_offset t" "q \<le> e"
  shows "{unat q ..< unat (run_end e ts)} = {unat q ..< unat e} \<union> (\<Union>t \<in> set ts. span_set t)"
  using assms
proof (induction ts arbitrary: e)
  case (Cons t ts)
  let ?e = "if t_end t > e then t_end t else e"
  have t: "unat (t_offset t) \<le> unat e" "unat q \<le> unat (t_offset t)"
    "unat (t_end t) = unat (t_offset t) + unat (t_len t)"
    using Cons.prems by (auto simp: joins_def word_le_nat_alt fits_unat_end)
  have "unat ?e = max (unat e) (unat (t_end t))" by (simp add: word_less_nat_alt max_def)
  then have "{unat q ..< unat ?e} = {unat q ..< unat e} \<union> span_set t"
    using t by (auto simp: span_set_def)
  moreover have "q \<le> ?e" using Cons.prems(4) by (auto intro: order_trans)
  ultimately show ?case using Cons.IH [of ?e] Cons.prems by (simp add: Un_assoc)
qed simp

definition op_kind_ok :: "MergedOp \<Rightarrow> TaggedRequest list \<Rightarrow> nat \<Rightarrow> bool" where
  "op_kind_ok m g span \<longleftrightarrow> g \<noteq> [] \<and> mo_req m = (tr_req (hd g))\<lparr>rq_len := of_nat span\<rparr> \<and>
     (\<Union>t \<in> set g. span_set t) = {unat (rq_offset (mo_req m)) ..< unat (rq_offset (mo_req m)) + span} \<and>
     mo_sources m = map (source_of (mo_req m)) g \<and>
     (\<forall>t \<in> set g. rq_offset (mo_req m) \<le> t_offset t \<and>
        unat (t_offset t) + unat (t_len t) \<le> unat (rq_offset (mo_req m)) + span)"

text \<open>When the span fits 32 bits, the recorded offsets are where the requests' bytes lie.\<close>

lemma op_within:
  assumes "op_kind_ok m g span" "span < 2 ^ 32" "t \<in> set g"
  shows "unat (rq_offset (mo_req m)) + unat (as_u32 (t_offset t - rq_offset (mo_req m))) = unat (t_offset t) \<and>
    unat (as_u32 (t_offset t - rq_offset (mo_req m))) + unat (t_len t) \<le> span"
proof -
  let ?q = "rq_offset (mo_req m)"
  have le: "?q \<le> t_offset t" "unat (t_offset t) + unat (t_len t) \<le> unat ?q + span"
    using assms(1,3) by (auto simp: op_kind_ok_def)
  have "unat (t_offset t - ?q) = unat (t_offset t) - unat ?q"
    using le(1) by (simp only: unat_sub)
  moreover from this have "unat (t_offset t - ?q) < 2 ^ 32" using le(2) assms(2) by simp
  ultimately show ?thesis using le by (simp add: unat_as_u32_small word_le_nat_alt)
qed

lemma op_kind_ok_len: "op_kind_ok m g span \<Longrightarrow> span < 2 ^ 32 \<Longrightarrow> unat (rq_len (mo_req m)) = span"
  by (simp add: op_kind_ok_def unat_of_nat)

lemma op_kind_ok_pass_op: "op_kind_ok (pass_op t) [t] (unat (t_len t))"
  by (simp add: op_kind_ok_def pass_op_def span_set_def source_of_def)

lemma op_kind_ok_merged_of:
  assumes "run_ok g" "\<And>t. t \<in> set g \<Longrightarrow> fits t" "sorted (map sort_position g)"
  shows "op_kind_ok (merged_of g) g (unat (run_end (t_end (hd g)) (tl g)) - unat (t_offset (hd g)))"
proof -
  obtain f ts where g: "g = f # ts" using assms(1) by (cases g) (auto simp: run_ok_def)
  let ?e = "run_end (t_end f) ts"
  have fits: "fits f" "\<And>t. t \<in> set ts \<Longrightarrow> fits t" using assms(2) g by auto
  have le: "t_offset f \<le> t_offset t" if "t \<in> set g" for t
    using that assms(3) run_ok_same [OF assms(1) that] g
    by (auto intro: sort_position_same)
  have j: "joined (tr_channel f) (tr_req f) (t_end f) ts" using assms(1) g by (simp add: run_ok_def)
  have fe: "t_offset f \<le> t_end f" using fits(1) by (rule fits_offset_le)
  then have e: "unat (t_offset f) \<le> unat ?e"
    using run_end_ge [of "t_end f" ts] by (auto simp: word_le_nat_alt)
  have "{unat (t_offset f) ..< unat ?e} =
      {unat (t_offset f) ..< unat (t_end f)} \<union> (\<Union>t \<in> set ts. span_set t)"
    using j fits(2) le fe g by (intro run_end_cover) auto
  then have cover: "(\<Union>t \<in> set g. span_set t) = {unat (t_offset f) ..< unat ?e}"
    using fits(1) g by (simp add: span_set_def [of f] fits_unat_end)
  have "as_u32 (?e - t_offset f) = of_nat (unat ?e - unat (t_offset f))"
    unfolding ucast_eq_of_nat [of "?e - t_offset f"]
    by (subst unat_sub) (use e in \<open>simp_all only: word_le_nat_alt\<close>)
  moreover have "unat (t_offset t) + unat (t_len t) \<le> unat ?e" if "t \<in> set g" for t
  proof -
    have "t_end t \<le> ?e" using that g run_end_upper run_end_ge by auto
    then show ?thesis using fits_unat_end [OF assms(2) [OF that]] by (simp add: word_le_nat_alt)
  qed
  ultimately show ?thesis
    using cover e le g
    by (simp add: op_kind_ok_def merged_of_def Let_def source_of_def)
qed

lemma sorted_map_concat:
  "sorted (map f (concat gs)) \<Longrightarrow> g \<in> set gs \<Longrightarrow> sorted (map f g)"
  by (induction gs) (auto simp: sorted_append)

lemma merge_adjacent_cover:
  assumes "merge_adjacent p ops result = Inr out" "\<And>t. t \<in> set ops \<Longrightarrow> fits t" "m \<in> set out"
  shows "m \<in> set result \<or> (\<exists>g span. set g \<subseteq> set ops \<and> op_kind_ok m g span)"
proof -
  from merge_adjacent_spec [OF assms(1)] obtain gs where
    gs: "concat gs = sort_key sort_position ops" "runs_ok gs" "out = result @ map merged_of gs"
    by blast
  have "\<exists>g span. set g \<subseteq> set ops \<and> op_kind_ok (merged_of g') g span" if g': "g' \<in> set gs" for g'
  proof -
    have "set g' \<subseteq> set (concat gs)" using g' by auto
    then have sub: "set g' \<subseteq> set ops" using gs(1) by simp
    have "sorted (map sort_position (concat gs))" unfolding gs(1) by simp
    then have "sorted (map sort_position g')" using g' by (rule sorted_map_concat)
    with op_kind_ok_merged_of [OF runs_ok_run_ok [OF gs(2) g']] sub assms(2)
    show ?thesis by blast
  qed
  then show ?thesis using assms(3) gs(3) by auto
qed

lemma drain_merged_cover:
  assumes "drain_merged p b = Inr (ops, b')" "\<And>t. t \<in> set (pending b) \<Longrightarrow> fits t" "m \<in> set ops"
  shows "\<exists>g span. set g \<subseteq> set (pending b) \<and> op_kind_ok m g span"
proof -
  from drain_mergedE [OF assms(1)] obtain reads writes others out where
    s: "split_pending (pending b) = (reads, writes, others)"
    and r: "merge_adjacent p reads (map pass_op others) = Inr out"
    and w: "merge_adjacent p writes out = Inr ops" .
  have sub: "set reads \<subseteq> set (pending b)" "set writes \<subseteq> set (pending b)" "set others \<subseteq> set (pending b)"
    using s by (auto simp: split_pending_filter)
  have pass: "\<exists>g span. set g \<subseteq> set (pending b) \<and> op_kind_ok (pass_op t) g span" if "t \<in> set others" for t
    using op_kind_ok_pass_op [of t] that sub(3) by (intro exI [of _ "[t]"]) auto
  have "m \<in> set out \<or> (\<exists>g span. set g \<subseteq> set writes \<and> op_kind_ok m g span)"
    using merge_adjacent_cover [OF w _ assms(3)] assms(2) sub(2) by blast
  moreover have "m \<in> set (map pass_op others) \<or> (\<exists>g span. set g \<subseteq> set reads \<and> op_kind_ok m g span)"
    if "m \<in> set out"
    using merge_adjacent_cover [OF r _ that] assms(2) sub(1) by blast
  ultimately show ?thesis using pass sub by (auto 4 4)
qed

section \<open>Maximality\<close>

text \<open>A later operation of the same kind, channel and descriptor starts beyond the earlier one.\<close>

definition beyond :: "MergedOp \<Rightarrow> MergedOp \<Rightarrow> bool" where
  "beyond a b \<longleftrightarrow>
     (rq_op (mo_req a) = rq_op (mo_req b) \<and> io_op (mo_req a) \<in> {Some Read, Some Write} \<and>
      mo_channel a = mo_channel b \<and> rq_fd (mo_req a) = rq_fd (mo_req b) \<longrightarrow>
      unat (rq_offset (mo_req a)) + unat (rq_len (mo_req a)) < unat (rq_offset (mo_req b)))"

lemma runs_ok_gap:
  assumes "runs_ok (g # gs)" "sorted (map sort_position (concat (g # gs)))" "g' \<in> set gs"
    and "tr_channel (hd g') = tr_channel (hd g)" "t_fd (hd g') = t_fd (hd g)"
  shows "run_end (t_end (hd g)) (tl g) < t_offset (hd g')"
proof -
  obtain h hs where gs: "gs = h # hs" using assms(3) by (cases gs) auto
  have ne: "g \<noteq> []" "h \<noteq> []" "g' \<noteq> []"
    using runs_ok_run_ok [OF assms(1)] assms(3) gs by (auto simp: run_ok_def)
  have br: "breaks g (hd h)" using assms(1) gs by simp
  have hd_in: "hd x \<in> set x" if "x \<noteq> []" for x :: "TaggedRequest list" using that by simp
  have gh: "sort_position (hd g) \<le> sort_position (hd h)"
    using assms(2) gs hd_in [OF ne(1)] hd_in [OF ne(2)] by (simp add: sorted_append)
  have hg: "sort_position (hd h) \<le> sort_position (hd g')"
  proof (cases "g' = h")
    case False
    then have "g' \<in> set hs" using assms(3) gs by simp
    then show ?thesis
      using assms(2) gs hd_in [OF ne(3)] hd_in [OF ne(2)] by (simp add: sorted_append)
  qed simp
  have same: "tr_channel (hd h) = tr_channel (hd g)" "t_fd (hd h) = t_fd (hd g)"
    using gh hg assms(4,5) by (auto simp: sort_position_def)
  have "t_offset (hd h) \<le> t_offset (hd g')"
    using hg same assms(4,5) by (intro sort_position_same) simp_all
  moreover have "run_end (t_end (hd g)) (tl g) < t_offset (hd h)"
    using br same by (simp add: breaks_def joins_def not_le)
  ultimately show ?thesis by (rule less_le_trans [rotated])
qed

lemma merged_of_extent:
  assumes "run_ok g" "\<And>t. t \<in> set g \<Longrightarrow> fits t"
  shows "unat (rq_offset (mo_req (merged_of g))) + unat (rq_len (mo_req (merged_of g)))
    \<le> unat (run_end (t_end (hd g)) (tl g))"
proof -
  let ?e = "run_end (t_end (hd g)) (tl g)" and ?q = "t_offset (hd g)"
  have "hd g \<in> set g" using assms(1) by (simp add: run_ok_def)
  then have le: "?q \<le> ?e"
    using fits_offset_le [OF assms(2)] run_end_ge by (blast intro: order_trans)
  have "unat (as_u32 (?e - ?q)) \<le> unat (?e - ?q)"
    by (simp add: unat_as_u32_u64)
  also have "\<dots> = unat ?e - unat ?q" using le by (simp add: unat_sub)
  finally show ?thesis using le by (simp add: merged_of_def Let_def word_le_nat_alt)
qed

lemma runs_beyond:
  assumes "runs_ok gs" "sorted (map sort_position (concat gs))" "\<And>t. t \<in> set (concat gs) \<Longrightarrow> fits t"
  shows "sorted_wrt beyond (map merged_of gs)"
  using assms
proof (induction gs)
  case (Cons g gs)
  have "beyond (merged_of g) (merged_of g')" if "g' \<in> set gs" for g'
  proof -
    have "run_ok g" using runs_ok_run_ok [OF Cons.prems(1)] by simp
    then have "unat (rq_offset (mo_req (merged_of g))) + unat (rq_len (mo_req (merged_of g)))
        \<le> unat (run_end (t_end (hd g)) (tl g))"
      using Cons.prems(3) by (intro merged_of_extent) auto
    with runs_ok_gap [OF Cons.prems(1,2) that] show ?thesis
      by (auto simp: beyond_def merged_of_def Let_def word_less_nat_alt)
  qed
  moreover have "runs_ok gs" using Cons.prems(1) by (cases gs) auto
  then have "sorted_wrt beyond (map merged_of gs)"
    using Cons.prems(2,3) by (intro Cons.IH) (auto simp: sorted_append)
  ultimately show ?case by simp
qed simp

lemma drain_merged_beyond:
  assumes "drain_merged p b = Inr (ops, b')" "\<And>t. t \<in> set (pending b) \<Longrightarrow> fits t"
  shows "sorted_wrt beyond ops"
proof -
  from drain_mergedE [OF assms(1)] obtain reads writes others out where
    s: "split_pending (pending b) = (reads, writes, others)"
    and r: "merge_adjacent p reads (map pass_op others) = Inr out"
    and w: "merge_adjacent p writes out = Inr ops" .
  from merge_adjacent_spec [OF r] obtain rs where rs: "concat rs = sort_key sort_position reads"
    "runs_ok rs" "out = map pass_op others @ map merged_of rs" by blast
  from merge_adjacent_spec [OF w] obtain ws where ws: "concat ws = sort_key sort_position writes"
    "runs_ok ws" "ops = out @ map merged_of ws" by blast
  have kinds: "t \<in> set reads \<Longrightarrow> fits t \<and> t_op t = Some Read"
    "t \<in> set writes \<Longrightarrow> fits t \<and> t_op t = Some Write"
    "t \<in> set others \<Longrightarrow> t_op t \<notin> {Some Read, Some Write}" for t
    using s assms(2) by (auto simp: split_pending_filter)
  have run: "hd g \<in> set ts" if "g \<in> set gs" "runs_ok gs" "concat gs = sort_key sort_position ts"
    for g gs and ts :: "TaggedRequest list"
  proof -
    have "g \<noteq> []" using runs_ok_run_ok [OF that(2,1)] by (simp add: run_ok_def)
    then have "hd g \<in> set (concat gs)" using that(1) hd_in_set by fastforce
    then show ?thesis using that(3) by simp
  qed
  have rk: "io_op (mo_req (merged_of g)) = Some Read" if "g \<in> set rs" for g
    using kinds(1) [OF run [OF that rs(2,1)]] by (simp add: merged_of_def Let_def io_op_def)
  have wk: "io_op (mo_req (merged_of g)) = Some Write" if "g \<in> set ws" for g
    using kinds(2) [OF run [OF that ws(2,1)]] by (simp add: merged_of_def Let_def io_op_def)
  have ok: "io_op (mo_req (pass_op t)) \<notin> {Some Read, Some Write}" if "t \<in> set others" for t
    using kinds(3) [OF that] by (simp add: pass_op_def io_op_def)
  have diff: "beyond x y" if "io_op (mo_req x) \<noteq> io_op (mo_req y)" for x y
    using that by (auto simp: beyond_def io_op_def)
  have pass: "beyond x y" if "x \<in> pass_op ` set others" for x y
    using that ok by (auto simp: beyond_def)
  have "sorted_wrt beyond (map pass_op others)"
    using pass by (induction others) auto
  moreover have "sorted_wrt beyond (map merged_of rs)" "sorted_wrt beyond (map merged_of ws)"
    using rs ws kinds by (auto intro!: runs_beyond simp del: set_concat)
  ultimately show ?thesis
    unfolding ws(3) rs(3) using pass diff rk wk by (auto simp: sorted_wrt_append)
qed

section \<open>Properties\<close>

text \<open>The helper of the unit tests (\<open>pipeline.rs\<close>), with a data offset.\<close>

definition mk_req :: "u64 \<Rightarrow> IoOp \<Rightarrow> u64 \<Rightarrow> u64 \<Rightarrow> u32 \<Rightarrow> u32 \<Rightarrow> IoRequest" where
  "mk_req i op fd off l d =
     (IoRequest_new i op High)\<lparr>rq_fd := fd, rq_offset := off, rq_len := l, rq_data_offset := d\<rparr>"

lemma mk_req_simps [simp]:
  "rq_id (mk_req i op fd off l d) = i" "rq_op (mk_req i op fd off l d) = op_as_u8 op"
  "rq_priority (mk_req i op fd off l d) = 1" "rq_fd (mk_req i op fd off l d) = fd"
  "rq_offset (mk_req i op fd off l d) = off" "rq_len (mk_req i op fd off l d) = l"
  "rq_data_offset (mk_req i op fd off l d) = d"
  by (simp_all add: mk_req_def)

definition mk_batch :: "(IoRequest \<times> nat) list \<Rightarrow> BatchEngine" where
  "mk_batch rs = fold (\<lambda>(r, ch) b. batch_add b r ch) rs BatchEngine_new"

text \<open>C19. A drain, in either profile, empties the engine, and every request handed to the engine
  turns up exactly once as a source of some operation, on its own channel, with its operation
  code, descriptor and length: none is lost, duplicated or handed to another channel.\<close>

theorem batch_conserves_requests:
  assumes "drain_merged p b = Inr (ops, b')"
  shows "batch_is_empty b' \<and>
    mset (concat (map op_requests ops)) = mset (map request_of (pending b))"
  using drain_merged_requests [OF assms] by (simp add: batch_is_empty_def)

lemma pending_mk_batch [simp]:
  "pending (mk_batch rs) = map (\<lambda>(r, ch). \<lparr>tr_req = r, tr_channel = ch\<rparr>) rs"
proof -
  have "pending (fold (\<lambda>(r, ch) b. batch_add b r ch) rs b) =
      pending b @ map (\<lambda>(r, ch). \<lparr>tr_req = r, tr_channel = ch\<rparr>) rs" for b
    by (induction rs arbitrary: b) (auto simp: batch_add_def)
  then show ?thesis by (simp add: mk_batch_def BatchEngine_new_def)
qed

text \<open>Evaluation of a drain on concrete requests.\<close>

lemmas drain_eval = drain_merged_def op_from_u8_def merge_adjacent_def sort_position_def joins_def pass_op_def
  uadd_def op_requests_def request_of_def io_op_def word_le_nat_alt word_less_nat_alt

definition batch_example :: BatchEngine where
  "batch_example = mk_batch
     [(mk_req 1 Read 10 4096 4096 0, 0), (mk_req 2 Sync 10 0 0 0, 0),
      (mk_req 3 Read 10 0 4096 4096, 0), (mk_req 4 Read 10 0 4096 0, 1)]"

lemma batch_example_drain:
  "\<exists>ops b'. drain_merged Debug batch_example = Inr (ops, b') \<and>
     map op_requests ops =
       [[(0, 3, 10, 2, 0)], [(0, 1, 10, 3, 4096), (0, 1, 10, 1, 4096)], [(1, 1, 10, 4, 4096)]] \<and>
     map (\<lambda>m. (rq_offset (mo_req m), rq_len (mo_req m))) ops = [(0, 0), (0, 8192), (0, 4096)]"
proof -
  have "(case drain_merged Debug batch_example of Inl e \<Rightarrow> False
    | Inr (ops, b') \<Rightarrow> map op_requests ops =
       [[(0, 3, 10, 2, 0)], [(0, 1, 10, 3, 4096), (0, 1, 10, 1, 4096)], [(1, 1, 10, 4, 4096)]] \<and>
     map (\<lambda>m. (rq_offset (mo_req m), rq_len (mo_req m))) ops = [(0, 0), (0, 8192), (0, 4096)])"
    by (simp add: batch_example_def drain_eval)
  then show ?thesis by (auto split: sum.splits prod.splits)
qed

theorem batch_conserves_requests_witness:
  "\<exists>ops b'. drain_merged Debug batch_example = Inr (ops, b') \<and> batch_is_empty b' \<and>
     mset (concat (map op_requests ops)) = mset (map request_of (pending batch_example)) \<and>
     length ops = 3"
proof -
  from batch_example_drain obtain ops b' where d: "drain_merged Debug batch_example = Inr (ops, b')"
    and m: "map op_requests ops =
       [[(0, 3, 10, 2, 0)], [(0, 1, 10, 3, 4096), (0, 1, 10, 1, 4096)], [(1, 1, 10, 4, 4096)]]"
    by auto
  from arg_cong [OF m, of length] have "length ops = 3" by simp
  with d batch_conserves_requests [OF d] show ?thesis by blast
qed

text \<open>When no request's byte range wraps around 2^64, draining succeeds and its result does not
  depend on the build profile: none of the additions and subtractions of the merge loops
  overflows.\<close>

theorem batch_drain_total:
  assumes "\<forall>t \<in> set (pending b). fits t"
  shows "\<exists>ops b'. \<forall>p. drain_merged p b = Inr (ops, b')"
  using drain_merged_total [of b] assms by auto

lemma batch_example_fits: "\<forall>t \<in> set (pending batch_example). fits t"
  by (simp add: batch_example_def fits_def)

theorem batch_drain_total_witness:
  "\<exists>ops b'. \<forall>p. drain_merged p batch_example = Inr (ops, b')"
  using batch_example_fits by (rule batch_drain_total)

text \<open>C20. Every operation that leaves the engine is exact: it comes from a non-empty group of the
  pending requests whose byte ranges together are exactly the range from its offset over its
  span; its length is the span truncated to 32 bits; its sources list the group in order; and
  when the span fits 32 bits, each source's offset within the operation is where that request's
  bytes lie, inside the operation.\<close>

theorem batch_ops_exact:
  assumes "drain_merged p b = Inr (ops, b')" and "\<forall>t \<in> set (pending b). fits t"
    and "m \<in> set ops"
  shows "\<exists>g span. g \<noteq> [] \<and> set g \<subseteq> set (pending b) \<and>
    (\<Union>t \<in> set g. span_set t) =
      {unat (rq_offset (mo_req m)) ..< unat (rq_offset (mo_req m)) + span} \<and>
    mo_req m = (tr_req (hd g))\<lparr>rq_len := of_nat span\<rparr> \<and>
    mo_sources m = map (source_of (mo_req m)) g \<and>
    (span < 2 ^ 32 \<longrightarrow> unat (rq_len (mo_req m)) = span \<and>
      (\<forall>t \<in> set g. case source_of (mo_req m) t of (_, within, l) \<Rightarrow>
         unat (rq_offset (mo_req m)) + unat within = unat (t_offset t) \<and>
         unat within + unat l \<le> span))"
proof -
  have "fits t" if "t \<in> set (pending b)" for t using assms(2) that by blast
  from drain_merged_cover [OF assms(1) this assms(3)] obtain g span where sub: "set g \<subseteq> set (pending b)"
    and ok: "op_kind_ok m g span" by blast
  show ?thesis
    using ok sub op_within [OF ok] op_kind_ok_len [OF ok]
    by (intro exI [of _ g] exI [of _ span]) (auto simp: op_kind_ok_def source_of_def)
qed

theorem batch_ops_exact_witness:
  "\<exists>ops b' m. drain_merged Debug batch_example = Inr (ops, b') \<and> m \<in> set ops \<and>
     rq_len (mo_req m) = 8192 \<and>
     (\<exists>g span. set g \<subseteq> set (pending batch_example) \<and> mo_sources m = map (source_of (mo_req m)) g \<and>
        (\<Union>t \<in> set g. span_set t) =
          {unat (rq_offset (mo_req m)) ..< unat (rq_offset (mo_req m)) + span})"
proof -
  from batch_example_drain obtain ops b' where d: "drain_merged Debug batch_example = Inr (ops, b')"
    and m: "map (\<lambda>m. (rq_offset (mo_req m), rq_len (mo_req m))) ops = [(0, 0), (0, 8192), (0, 4096)]"
    by auto
  have "(0, 8192) \<in> set (map (\<lambda>m. (rq_offset (mo_req m), rq_len (mo_req m))) ops)" by (simp add: m)
  then obtain x where x: "x \<in> set ops" "rq_len (mo_req x) = 8192" by auto
  have "\<exists>g span. set g \<subseteq> set (pending batch_example) \<and>
      mo_sources x = map (source_of (mo_req x)) g \<and>
      (\<Union>t \<in> set g. span_set t) =
        {unat (rq_offset (mo_req x)) ..< unat (rq_offset (mo_req x)) + span}"
    using batch_ops_exact [OF d batch_example_fits x(1)]
    by (elim exE conjE) (rule exI, rule exI, intro conjI, assumption+)
  with d x show ?thesis by (intro exI [of _ ops] exI [of _ b'] exI [of _ x]) (simp only: simp_thms)
qed

text \<open>C21. Merging is maximal: of two reads (or two writes) in the result on the same channel and
  descriptor, the later one starts strictly beyond the end of the earlier one, so nothing
  adjacent or overlapping is left apart.\<close>

theorem batch_merges_maximally:
  assumes "drain_merged p b = Inr (ops, b')" and "\<forall>t \<in> set (pending b). fits t"
    and "i < j" and "j < length ops"
    and "rq_op (mo_req (ops ! i)) = rq_op (mo_req (ops ! j))"
    and "io_op (mo_req (ops ! i)) \<in> {Some Read, Some Write}"
    and "mo_channel (ops ! i) = mo_channel (ops ! j)"
    and "rq_fd (mo_req (ops ! i)) = rq_fd (mo_req (ops ! j))"
  shows "unat (rq_offset (mo_req (ops ! i))) + unat (rq_len (mo_req (ops ! i)))
    < unat (rq_offset (mo_req (ops ! j)))"
proof -
  have "sorted_wrt beyond ops" using assms(2) by (intro drain_merged_beyond [OF assms(1)]) blast
  from sorted_wrt_nth_less [OF this assms(3,4)] assms(5-8) show ?thesis by (auto simp: beyond_def)
qed

definition gap_example :: BatchEngine where
  "gap_example = mk_batch [(mk_req 1 Read 10 8193 10 0, 0), (mk_req 2 Read 10 0 8192 0, 0)]"

theorem batch_merges_maximally_witness:
  "\<exists>ops b'. drain_merged Debug gap_example = Inr (ops, b') \<and> length ops = 2 \<and>
     unat (rq_offset (mo_req (ops ! 0))) + unat (rq_len (mo_req (ops ! 0)))
       < unat (rq_offset (mo_req (ops ! 1)))"
proof -
  let ?P = "\<lambda>ops :: MergedOp list. length ops = 2 \<and> rq_op (mo_req (ops ! 0)) = rq_op (mo_req (ops ! 1)) \<and>
     io_op (mo_req (ops ! 0)) = Some Read \<and> mo_channel (ops ! 0) = mo_channel (ops ! 1) \<and>
     rq_fd (mo_req (ops ! 0)) = rq_fd (mo_req (ops ! 1))"
  have "case drain_merged Debug gap_example of Inl e \<Rightarrow> False | Inr (ops, b') \<Rightarrow> ?P ops"
    by (simp add: gap_example_def drain_eval)
  then obtain ops b' where d: "drain_merged Debug gap_example = Inr (ops, b')" and P: "?P ops"
    by (auto split: sum.splits prod.splits)
  have fits: "\<forall>t \<in> set (pending gap_example). fits t" by (simp add: gap_example_def fits_def)
  from batch_merges_maximally [OF d fits, of 0 1] P d show ?thesis by auto
qed

text \<open>The span of a merged operation is truncated to 32 bits: two adjacent 2 GiB reads merge into
  one read of length 0.\<close>

theorem merged_length_wraps:
  "case drain_merged p (mk_batch [(mk_req 1 Read 10 0 0x80000000 0, 0),
                                  (mk_req 2 Read 10 0x80000000 0x80000000 0, 0)]) of
     Inl _ \<Rightarrow> False
   | Inr (ops, _) \<Rightarrow> map (\<lambda>m. (rq_len (mo_req m), length (mo_sources m))) ops = [(0, 2)]"
  by (simp add: drain_eval)

text \<open>A drained round is reordered across kinds: the sync of a descriptor that was queued after a
  write of it comes out before the write, and a read queued after an overlapping write comes out
  before it.\<close>

theorem batch_reorders_kinds:
  "case drain_merged p (mk_batch [(mk_req 1 Write 10 0 4 0, 0), (mk_req 2 Sync 10 0 0 0, 0),
                                  (mk_req 3 Read 10 0 4 64, 0)]) of
     Inl _ \<Rightarrow> False
   | Inr (ops, _) \<Rightarrow> map (\<lambda>m. rq_id (mo_req m)) ops = [2, 3, 1]"
  by (simp add: drain_eval)

end
