(* ===== verification/Scheduler.thy ===== *)
theory Scheduler
  imports Batch_Engine
begin

text \<open>
  \<open>atlas-service/src/scheduler.rs\<close>: three FIFO queues, one per priority, drained in priority order.
\<close>

section \<open>Operations\<close>

record Scheduler =
  sch_critical :: "MergedOp list"
  sch_high :: "MergedOp list"
  sch_low :: "MergedOp list"

definition Scheduler_new :: Scheduler where
  "Scheduler_new = \<lparr>sch_critical = [], sch_high = [], sch_low = []\<rparr>"

definition enqueue :: "Scheduler \<Rightarrow> MergedOp \<Rightarrow> Scheduler" where
  "enqueue s op =
     (case priority_from_u8 (rq_priority (mo_req op)) of
        Some Critical \<Rightarrow> s\<lparr>sch_critical := sch_critical s @ [op]\<rparr>
      | Some High \<Rightarrow> s\<lparr>sch_high := sch_high s @ [op]\<rparr>
      | _ \<Rightarrow> s\<lparr>sch_low := sch_low s @ [op]\<rparr>)"

primrec enqueue_all :: "Scheduler \<Rightarrow> MergedOp list \<Rightarrow> Scheduler" where
  "enqueue_all s [] = s"
| "enqueue_all s (op # ops) = enqueue_all (enqueue s op) ops"

text \<open>The inner loop: move from the front of one queue while there is room; the queue left and the
  output.\<close>

fun drain_queue :: "nat \<Rightarrow> MergedOp list \<Rightarrow> MergedOp list \<Rightarrow> MergedOp list \<times> MergedOp list" where
  "drain_queue mx [] out = ([], out)"
| "drain_queue mx (op # q) out =
     (if length out < mx then drain_queue mx q (out @ [op]) else (op # q, out))"

definition sch_drain :: "Scheduler \<Rightarrow> nat \<Rightarrow> MergedOp list \<times> Scheduler" where
  "sch_drain s mx =
     (case drain_queue mx (sch_critical s) [] of (c, out1) \<Rightarrow>
      case drain_queue mx (sch_high s) out1 of (h, out2) \<Rightarrow>
      case drain_queue mx (sch_low s) out2 of (l, out3) \<Rightarrow>
        (out3, s\<lparr>sch_critical := c, sch_high := h, sch_low := l\<rparr>))"

definition sch_is_empty :: "Scheduler \<Rightarrow> bool" where
  "sch_is_empty s \<longleftrightarrow> sch_critical s = [] \<and> sch_high s = [] \<and> sch_low s = []"

definition sch_len :: "Scheduler \<Rightarrow> nat" where
  "sch_len s = length (sch_critical s) + length (sch_high s) + length (sch_low s)"

section \<open>The scheduler as one list\<close>

definition sch_all :: "Scheduler \<Rightarrow> MergedOp list" where
  "sch_all s = sch_critical s @ sch_high s @ sch_low s"

text \<open>The class in which an operation is scheduled: unknown codes count as low.\<close>

definition sch_class :: "MergedOp \<Rightarrow> IoPriority" where
  "sch_class op = (case io_priority (mo_req op) of Some pr \<Rightarrow> pr | None \<Rightarrow> Low)"

definition sch_wf :: "Scheduler \<Rightarrow> bool" where
  "sch_wf s \<longleftrightarrow>
     (\<forall>op \<in> set (sch_critical s). sch_class op = Critical) \<and>
     (\<forall>op \<in> set (sch_high s). sch_class op = High) \<and>
     (\<forall>op \<in> set (sch_low s). sch_class op = Low)"

definition of_class :: "IoPriority \<Rightarrow> MergedOp list \<Rightarrow> MergedOp list" where
  "of_class c ops = filter (\<lambda>op. sch_class op = c) ops"

lemma priority_less [simp]: "Low < High" "High < Critical" "Low < Critical"
  by (simp_all add: less_IoPriority_def word_less_nat_alt)

lemma drain_queue_eq:
  "drain_queue mx q out =
     (drop (mx - length out) q, out @ take (mx - length out) q)"
proof (induction mx q out rule: drain_queue.induct)
  case (2 mx op q out)
  show ?case
  proof (cases "length out < mx")
    case True
    then have "mx - length out = Suc (mx - Suc (length out))" by simp
    with 2 [OF True] True show ?thesis by simp
  qed simp
qed simp

lemma sch_drain_all:
  assumes "sch_drain s mx = (out, s')"
  shows "out = take mx (sch_all s)" "sch_all s' = drop mx (sch_all s)"
proof -
  have a: "mx - min a mx = mx - a" for a :: nat by (simp add: min_def)
  have b: "mx - (min a mx + min b (mx - a)) = mx - (a + b)" for a b :: nat by (simp add: min_def)
  show "out = take mx (sch_all s)" "sch_all s' = drop mx (sch_all s)"
    using assms by (auto simp: sch_drain_def sch_all_def drain_queue_eq a b)
qed

lemma sch_len_all: "sch_len s = length (sch_all s)"
  by (simp add: sch_len_def sch_all_def)

lemma sch_is_empty_all: "sch_is_empty s \<longleftrightarrow> sch_all s = []"
  by (simp add: sch_is_empty_def sch_all_def)

lemma sch_wf_new: "sch_wf Scheduler_new"
  by (simp add: sch_wf_def Scheduler_new_def)

lemma sch_wf_enqueue: "sch_wf s \<Longrightarrow> sch_wf (enqueue s op)"
  by (auto simp: sch_wf_def enqueue_def sch_class_def io_priority_def split: option.splits IoPriority.splits)

lemma sch_wf_enqueue_all: "sch_wf s \<Longrightarrow> sch_wf (enqueue_all s ops)"
  by (induction ops arbitrary: s) (simp_all add: sch_wf_enqueue)

lemma sch_drain_subsets:
  assumes "sch_drain s mx = (out, s')"
  shows "set (sch_critical s') \<subseteq> set (sch_critical s)" "set (sch_high s') \<subseteq> set (sch_high s)"
    "set (sch_low s') \<subseteq> set (sch_low s)"
proof -
  have "\<exists>i. sch_critical s' = drop i (sch_critical s)" "\<exists>i. sch_high s' = drop i (sch_high s)"
    "\<exists>i. sch_low s' = drop i (sch_low s)"
    using assms by (auto simp: sch_drain_def drain_queue_eq)
  then show "set (sch_critical s') \<subseteq> set (sch_critical s)" "set (sch_high s') \<subseteq> set (sch_high s)"
    "set (sch_low s') \<subseteq> set (sch_low s)"
    by (auto dest: in_set_dropD)
qed

lemma sch_wf_drain: "sch_wf s \<Longrightarrow> sch_drain s mx = (out, s') \<Longrightarrow> sch_wf s'"
  using sch_drain_subsets [of s mx out s'] unfolding sch_wf_def by blast

lemma enqueue_queues:
  "sch_critical (enqueue_all s ops) = sch_critical s @ of_class Critical ops"
  "sch_high (enqueue_all s ops) = sch_high s @ of_class High ops"
  "sch_low (enqueue_all s ops) = sch_low s @ of_class Low ops"
  by (induction ops arbitrary: s)
    (auto simp: of_class_def enqueue_def sch_class_def io_priority_def split: option.splits IoPriority.splits)

lemma mset_of_classes: "mset (of_class Critical ops) + mset (of_class High ops) + mset (of_class Low ops) = mset ops"
proof (induction ops)
  case (Cons op ops)
  then show ?case by (cases "sch_class op") (simp_all add: of_class_def)
qed (simp add: of_class_def)

lemma mset_enqueue_all: "mset (sch_all (enqueue_all s ops)) = mset (sch_all s) + mset ops"
  by (simp add: sch_all_def enqueue_queues flip: mset_of_classes [of ops])

lemma sch_all_descending: "sch_wf s \<Longrightarrow> sorted_wrt (\<lambda>a b. sch_class b \<le> sch_class a) (sch_all s)"
proof -
  have same: "sorted_wrt (\<lambda>a b. sch_class b \<le> sch_class a) q"
    if "\<forall>op \<in> set q. sch_class op = c" for q c
    using that by (induction q) auto
  assume "sch_wf s"
  then show ?thesis
    by (auto simp: sch_wf_def sch_all_def sorted_wrt_append intro: same less_imp_le)
qed

section \<open>Properties\<close>

definition mk_op :: "u64 \<Rightarrow> IoPriority \<Rightarrow> MergedOp" where
  "mk_op i pr =
     \<lparr>mo_req = IoRequest_new i Read pr, mo_channel = 0, mo_sources = [(i, 0, 4096)]\<rparr>"

lemma mk_op_class [simp]: "sch_class (mk_op i pr) = pr"
  by (simp add: mk_op_def sch_class_def io_priority_def)

text \<open>C23. A drain takes as many operations as it may, in order of priority: the output is in
  descending priority, nothing that stays behind has a higher priority than something that was
  taken, and the output and what stays are together, in order, what was queued.\<close>

theorem drain_respects_priority:
  assumes "sch_wf s" and "sch_drain s mx = (out, s')"
  shows "sch_wf s' \<and> length out = min mx (sch_len s) \<and> out @ sch_all s' = sch_all s \<and>
    sorted_wrt (\<lambda>a b. sch_class b \<le> sch_class a) (out @ sch_all s')"
proof -
  note d = sch_drain_all [OF assms(2)]
  have "out @ sch_all s' = sch_all s" using d by simp
  then show ?thesis
    using sch_wf_drain [OF assms] sch_all_descending [OF assms(1)] d(1)
    by (simp add: sch_len_all min.commute)
qed

theorem drain_respects_priority_witness:
  "case sch_drain (enqueue_all Scheduler_new [mk_op 1 Low, mk_op 2 Critical, mk_op 3 High]) 2 of
     (out, s') \<Rightarrow> sch_wf s' \<and> out = [mk_op 2 Critical, mk_op 3 High] \<and> sch_all s' = [mk_op 1 Low]"
proof -
  let ?s = "enqueue_all Scheduler_new [mk_op 1 Low, mk_op 2 Critical, mk_op 3 High]"
  obtain out s' where d: "sch_drain ?s 2 = (out, s')" by (cases "sch_drain ?s 2") auto
  have all: "sch_all ?s = [mk_op 2 Critical, mk_op 3 High, mk_op 1 Low]"
    unfolding sch_all_def enqueue_queues by (simp add: Scheduler_new_def of_class_def)
  have "sch_wf ?s" by (intro sch_wf_enqueue_all sch_wf_new)
  from drain_respects_priority [OF this d] sch_drain_all [OF d] show ?thesis
    unfolding d all by simp
qed

text \<open>The scheduler is FIFO within a priority and complete: after queueing a list of operations
  on an empty scheduler, draining everything yields the critical ones, then the high ones, then
  the rest, each in the order in which they were queued, and leaves the scheduler empty.\<close>

theorem drain_all_is_stable:
  "case sch_drain (enqueue_all Scheduler_new ops) (length ops) of
     (out, s') \<Rightarrow> out = of_class Critical ops @ of_class High ops @ of_class Low ops \<and>
       sch_is_empty s'"
proof -
  let ?s = "enqueue_all Scheduler_new ops"
  obtain out s' where d: "sch_drain ?s (length ops) = (out, s')"
    by (cases "sch_drain ?s (length ops)") auto
  have "size (mset (sch_all ?s)) = size (mset (sch_all Scheduler_new) + mset ops)"
    by (simp only: mset_enqueue_all)
  then have len: "length (sch_all ?s) = length ops" by (simp add: Scheduler_new_def sch_all_def)
  have "sch_all ?s = of_class Critical ops @ of_class High ops @ of_class Low ops"
    by (simp add: sch_all_def enqueue_queues Scheduler_new_def)
  with sch_drain_all [OF d] len show ?thesis
    unfolding d by (simp add: sch_is_empty_all)
qed

end
