(* ===== verification/Pipeline.thy ===== *)
theory Pipeline
  imports Scheduler
begin

text \<open>
  \<open>atlas-service/src/pipeline.rs\<close>: the stage between polling and execution. The trait is the
  record of its three methods; its contract is the locale \<open>request_pipeline\<close>, which both stages
  that ship are shown to satisfy.
\<close>

section \<open>The trait and its contract\<close>

record 's Pipeline =
  pl_add :: "'s \<Rightarrow> IoRequest \<Rightarrow> nat \<Rightarrow> 's"
  pl_is_empty :: "'s \<Rightarrow> bool"
  pl_drain :: "profile \<Rightarrow> 's \<Rightarrow> (MergedOp list \<times> 's) exec"

text \<open>What the service relies on: there is a source to answer, and an operation that is neither a read
  nor a write stands for the one request whose id it carries.\<close>

definition sources_ok :: "MergedOp \<Rightarrow> bool" where
  "sources_ok m \<longleftrightarrow> mo_sources m \<noteq> [] \<and>
     (op_from_u8 (rq_op (mo_req m)) \<notin> {Some Read, Some Write} \<longrightarrow>
        map fst (mo_sources m) = [rq_id (mo_req m)])"

lemma sources_ok_pass_op [simp]: "sources_ok (pass_op t)"
  by (simp add: sources_ok_def pass_op_def)

text \<open>
  \<open>held\<close> are the requests inside the stage, as channel, code, descriptor, id and length. A stage
  holds what it is given until a drain, and a drain hands out exactly what is held.
\<close>

locale request_pipeline =
  fixes add :: "'s \<Rightarrow> IoRequest \<Rightarrow> nat \<Rightarrow> 's"
    and is_empty :: "'s \<Rightarrow> bool"
    and drain :: "profile \<Rightarrow> 's \<Rightarrow> (MergedOp list \<times> 's) exec"
    and held :: "'s \<Rightarrow> (nat \<times> u8 \<times> u64 \<times> u64 \<times> u32) multiset"
    and invar :: "'s \<Rightarrow> bool"
  assumes invar_add: "invar s \<Longrightarrow> invar (add s r ch)"
    and held_add: "invar s \<Longrightarrow>
      held (add s r ch) = add_mset (ch, rq_op r, rq_fd r, rq_id r, rq_len r) (held s)"
    and is_empty_iff: "invar s \<Longrightarrow> is_empty s \<longleftrightarrow> held s = {#}"
    and invar_drain: "invar s \<Longrightarrow> drain p s = Inr (ops, s') \<Longrightarrow> invar s'"
    and drain_held: "invar s \<Longrightarrow> drain p s = Inr (ops, s') \<Longrightarrow>
      held s' = {#} \<and> mset (concat (map op_requests ops)) = held s"
    and drain_sources: "invar s \<Longrightarrow> drain p s = Inr (ops, s') \<Longrightarrow> m \<in> set ops \<Longrightarrow> sources_ok m"
    and drain_release: "invar s \<Longrightarrow> \<exists>r. drain Release s = Inr r"
begin

lemma add_all:
  "invar s \<Longrightarrow>
   invar (fold (\<lambda>(r, ch) s. add s r ch) rs s) \<and>
   held (fold (\<lambda>(r, ch) s. add s r ch) rs s) =
     held s + mset (map (\<lambda>(r, ch). (ch, rq_op r, rq_fd r, rq_id r, rq_len r)) rs)"
proof (induction rs arbitrary: s)
  case (Cons x rs)
  obtain r ch where x: "x = (r, ch)" by (cases x) auto
  have "invar (add s r ch)" using Cons.prems by (rule invar_add)
  from Cons.IH [OF this] x held_add [OF Cons.prems, of r ch] show ?case by simp
qed simp

text \<open>What a round hands out is what was added in it.\<close>

lemma round_conserves:
  assumes "invar s" "is_empty s"
    and "drain p (fold (\<lambda>(r, ch) s. add s r ch) rs s) = Inr (ops, s')"
  shows "invar s' \<and> is_empty s' \<and> mset (concat (map op_requests ops)) =
    mset (map (\<lambda>(r, ch). (ch, rq_op r, rq_fd r, rq_id r, rq_len r)) rs)"
proof -
  note a = add_all [OF assms(1), of rs]
  have "held s = {#}" using assms(1,2) by (simp add: is_empty_iff)
  with a drain_held [OF _ assms(3)] invar_drain [OF _ assms(3)] show ?thesis
    by (simp add: is_empty_iff)
qed

text \<open>An operation that comes out belongs to a channel from which a request came in.\<close>

lemma drain_channel:
  assumes "invar s" "drain p s = Inr (ops, s')" "m \<in> set ops"
  shows "mo_channel m \<in> fst ` set_mset (held s)"
proof -
  have "op_requests m \<noteq> []"
    using drain_sources [OF assms] by (simp add: op_requests_def sources_ok_def)
  then obtain k where "k \<in> set (op_requests m)" using hd_in_set by blast
  then have k: "k \<in> set (op_requests m)" "fst k = mo_channel m" by (auto simp: op_requests_def)
  have "set_mset (held s) = set (concat (map op_requests ops))"
    using drain_held [OF assms(1,2)] by (metis set_mset_mset)
  then have "k \<in> set_mset (held s)" using k(1) assms(3) by auto
  with k(2) show ?thesis by force
qed

end

section \<open>PassThrough\<close>

record PassThrough =
  pt_pending :: "TaggedRequest list"

definition PassThrough_new :: PassThrough where
  "PassThrough_new = \<lparr>pt_pending = []\<rparr>"

definition pt_add :: "PassThrough \<Rightarrow> IoRequest \<Rightarrow> nat \<Rightarrow> PassThrough" where
  "pt_add s req ch = s\<lparr>pt_pending := pt_pending s @ [\<lparr>tr_req = req, tr_channel = ch\<rparr>]\<rparr>"

definition pt_is_empty :: "PassThrough \<Rightarrow> bool" where
  "pt_is_empty s \<longleftrightarrow> pt_pending s = []"

definition pt_drain :: "profile \<Rightarrow> PassThrough \<Rightarrow> (MergedOp list \<times> PassThrough) exec" where
  "pt_drain p s = Inr (map pass_op (pt_pending s), s\<lparr>pt_pending := []\<rparr>)"

definition pass_through :: "PassThrough Pipeline" where
  "pass_through = \<lparr>pl_add = pt_add, pl_is_empty = pt_is_empty, pl_drain = pt_drain\<rparr>"

definition pt_held :: "PassThrough \<Rightarrow> (nat \<times> u8 \<times> u64 \<times> u64 \<times> u32) multiset" where
  "pt_held s = mset (map request_of (pt_pending s))"

lemma concat_pass_op: "concat (map (op_requests \<circ> pass_op) ts) = map request_of ts"
  by (induction ts) simp_all

interpretation passthrough: request_pipeline pt_add pt_is_empty pt_drain pt_held "\<lambda>_. True"
  by unfold_locales
    (auto simp: pt_add_def pt_held_def pt_is_empty_def pt_drain_def request_of_def concat_pass_op)

section \<open>Batched\<close>

record Batched =
  bt_batch :: BatchEngine
  bt_scheduler :: Scheduler

definition Batched_new :: Batched where
  "Batched_new = \<lparr>bt_batch = BatchEngine_new, bt_scheduler = Scheduler_new\<rparr>"

definition bt_add :: "Batched \<Rightarrow> IoRequest \<Rightarrow> nat \<Rightarrow> Batched" where
  "bt_add s req ch = s\<lparr>bt_batch := batch_add (bt_batch s) req ch\<rparr>"

definition bt_is_empty :: "Batched \<Rightarrow> bool" where
  "bt_is_empty s \<longleftrightarrow> batch_is_empty (bt_batch s) \<and> sch_is_empty (bt_scheduler s)"

definition bt_drain :: "profile \<Rightarrow> Batched \<Rightarrow> (MergedOp list \<times> Batched) exec" where
  "bt_drain p s =
     and_then
       (if \<not> batch_is_empty (bt_batch s) then
          and_then (drain_merged p (bt_batch s)) (\<lambda>res. case res of (merged, b) \<Rightarrow>
            Inr (s\<lparr>bt_batch := b, bt_scheduler := enqueue_all (bt_scheduler s) merged\<rparr>))
        else Inr s)
       (\<lambda>s1. case sch_drain (bt_scheduler s1) (sch_len (bt_scheduler s1)) of
          (out, sch) \<Rightarrow> Inr (out, s1\<lparr>bt_scheduler := sch\<rparr>))"

definition batched :: "Batched Pipeline" where
  "batched = \<lparr>pl_add = bt_add, pl_is_empty = bt_is_empty, pl_drain = bt_drain\<rparr>"

definition bt_held :: "Batched \<Rightarrow> (nat \<times> u8 \<times> u64 \<times> u64 \<times> u32) multiset" where
  "bt_held s = mset (map request_of (pending (bt_batch s))) +
     mset (concat (map op_requests (sch_all (bt_scheduler s))))"

definition bt_wf :: "Batched \<Rightarrow> bool" where
  "bt_wf s \<longleftrightarrow> sch_wf (bt_scheduler s) \<and>
     (\<forall>m \<in> set (sch_all (bt_scheduler s)). sources_ok m)"

lemma mset_concat_map: "mset (concat (map f xs)) = \<Sum>\<^sub># (image_mset (mset \<circ> f) (mset xs))"
  by (induction xs) simp_all

lemma merge_adjacent_sources:
  assumes "merge_adjacent p ops result = Inr out" "m \<in> set out"
    and "\<forall>t \<in> set ops. t_op t = Some Read \<or> t_op t = Some Write"
  shows "m \<in> set result \<or> sources_ok m"
proof -
  from merge_adjacent_spec [OF assms(1)] obtain gs where
    gs: "concat gs = sort_key sort_position ops" "runs_ok gs" "out = result @ map merged_of gs"
    by blast
  have "sources_ok (merged_of g)" if "g \<in> set gs" for g
  proof -
    have ne: "g \<noteq> []" using runs_ok_run_ok [OF gs(2) that] by (simp add: run_ok_def)
    then have "hd g \<in> set (concat gs)" using that hd_in_set by fastforce
    then have "hd g \<in> set ops" using gs(1) by simp
    with ne assms(3) show ?thesis by (auto simp: sources_ok_def merged_of_def Let_def)
  qed
  then show ?thesis using assms(2) gs(3) by auto
qed

lemma drain_merged_sources:
  assumes "drain_merged p b = Inr (ops, b')" "m \<in> set ops"
  shows "sources_ok m"
proof -
  from drain_mergedE [OF assms(1)] obtain reads writes others out where
    s: "split_pending (pending b) = (reads, writes, others)"
    and r: "merge_adjacent p reads (map pass_op others) = Inr out"
    and w: "merge_adjacent p writes out = Inr ops" .
  have k: "\<forall>t \<in> set reads. t_op t = Some Read \<or> t_op t = Some Write"
    "\<forall>t \<in> set writes. t_op t = Some Read \<or> t_op t = Some Write"
    using s by (auto simp: split_pending_filter)
  from merge_adjacent_sources [OF w assms(2) k(2)] merge_adjacent_sources [OF r _ k(1), of m]
  show ?thesis by auto
qed

text \<open>Shape of a successful drain: the merged operations join the queues, and all leave.\<close>

lemma bt_drainE:
  assumes "bt_drain p s = Inr (out, s')"
  obtains merged b where "drain_merged p (bt_batch s) = Inr (merged, b)"
    "out = sch_all (enqueue_all (bt_scheduler s) merged)"
    "bt_batch s' = b" "sch_all (bt_scheduler s') = []" "sch_wf (bt_scheduler s) \<Longrightarrow> sch_wf (bt_scheduler s')"
proof -
  from assms obtain s1 where s1: "sch_drain (bt_scheduler s1) (sch_len (bt_scheduler s1)) = (out, bt_scheduler s')"
    "bt_batch s' = bt_batch s1"
    and pre: "(if \<not> batch_is_empty (bt_batch s) then
          and_then (drain_merged p (bt_batch s)) (\<lambda>res. case res of (merged, b) \<Rightarrow>
            Inr (s\<lparr>bt_batch := b, bt_scheduler := enqueue_all (bt_scheduler s) merged\<rparr>))
        else Inr s) = Inr s1"
    unfolding bt_drain_def by (elim and_then_InrE) (auto split: prod.splits)
  obtain merged where d: "drain_merged p (bt_batch s) = Inr (merged, bt_batch s1)"
    and sch: "bt_scheduler s1 = enqueue_all (bt_scheduler s) merged"
    using pre by (auto simp: batch_is_empty_def drain_merged_def split: if_splits elim!: and_then_InrE)
  show thesis
    using sch_drain_all [OF s1(1)] sch_wf_drain [OF _ s1(1)] d s1(2) sch
    by (intro that [OF d]) (simp_all add: sch_len_all sch_wf_enqueue_all)
qed

lemma bt_drain_held:
  assumes "bt_drain p s = Inr (out, s')"
  shows "bt_held s' = {#}" "mset (concat (map op_requests out)) = bt_held s"
proof -
  from bt_drainE [OF assms] obtain merged b where d: "drain_merged p (bt_batch s) = Inr (merged, b)"
    and out: "out = sch_all (enqueue_all (bt_scheduler s) merged)"
    and s': "bt_batch s' = b" "sch_all (bt_scheduler s') = []" .
  note r = drain_merged_requests [OF d]
  show "bt_held s' = {#}" using r(1) s' by (simp add: bt_held_def)
  have "mset (concat (map op_requests out)) =
      mset (concat (map op_requests (sch_all (bt_scheduler s)))) + mset (concat (map op_requests merged))"
    by (simp only: mset_concat_map out mset_enqueue_all image_mset_union sum_mset.union)
  then show "mset (concat (map op_requests out)) = bt_held s"
    using r(2) by (simp add: bt_held_def add.commute)
qed

lemma bt_drain_sources:
  assumes "bt_wf s" "bt_drain p s = Inr (out, s')" "m \<in> set out"
  shows "sources_ok m"
proof -
  from bt_drainE [OF assms(2)] obtain merged b where d: "drain_merged p (bt_batch s) = Inr (merged, b)"
    and out: "out = sch_all (enqueue_all (bt_scheduler s) merged)" .
  have "set_mset (mset out) = set_mset (mset (sch_all (bt_scheduler s)) + mset merged)"
    unfolding out mset_enqueue_all ..
  then have "m \<in> set (sch_all (bt_scheduler s)) \<or> m \<in> set merged" using assms(3) by auto
  then show ?thesis using assms(1) drain_merged_sources [OF d] by (auto simp: bt_wf_def)
qed

interpretation batched_stage: request_pipeline bt_add bt_is_empty bt_drain bt_held bt_wf
proof
  fix s s' :: Batched and r ch p out m
  show "bt_wf s \<Longrightarrow> bt_wf (bt_add s r ch)" by (simp add: bt_wf_def bt_add_def)
  show "bt_held (bt_add s r ch) = add_mset (ch, rq_op r, rq_fd r, rq_id r, rq_len r) (bt_held s)"
    by (simp add: bt_held_def bt_add_def batch_add_def request_of_def)
  show "bt_is_empty s = (bt_held s = {#})" if "bt_wf s"
    using that by (auto simp: bt_is_empty_def bt_held_def batch_is_empty_def sch_is_empty_all bt_wf_def
        op_requests_def sources_ok_def)
  show "bt_wf s'" if "bt_wf s" "bt_drain p s = Inr (out, s')"
    using that by (auto simp: bt_wf_def elim!: bt_drainE)
  show "bt_held s' = {#} \<and> mset (concat (map op_requests out)) = bt_held s"
    if "bt_drain p s = Inr (out, s')"
    using bt_drain_held [OF that] by simp
  show "sources_ok m" if "bt_wf s" "bt_drain p s = Inr (out, s')" "m \<in> set out"
    using that by (rule bt_drain_sources)
  show "\<exists>r. bt_drain Release s = Inr r"
  proof -
    obtain merged b where "drain_merged Release (bt_batch s) = Inr (merged, b)"
      using drain_merged_Release by (metis surj_pair)
    then show ?thesis
      by (auto simp: bt_drain_def batch_is_empty_def drain_merged_def split: prod.splits if_splits)
  qed
qed

section \<open>Properties\<close>

text \<open>The key under which a polled request is accounted for.\<close>

definition polled_key :: "IoRequest \<times> nat \<Rightarrow> nat \<times> u8 \<times> u64 \<times> u64 \<times> u32" where
  "polled_key x = (case x of (r, ch) \<Rightarrow> (ch, rq_op r, rq_fd r, rq_id r, rq_len r))"

definition add_all :: "'s Pipeline \<Rightarrow> (IoRequest \<times> nat) list \<Rightarrow> 's \<Rightarrow> 's" where
  "add_all P rs s = fold (\<lambda>(r, ch) s. pl_add P s r ch) rs s"

text \<open>\<open>PassThrough\<close> is FIFO and merges nothing: a drain after any additions to an empty stage
  hands out one single-source operation per request, in the order of arrival, and leaves the
  stage empty.\<close>

theorem passthrough_round:
  "\<exists>s'. pl_drain pass_through p (add_all pass_through rs PassThrough_new) =
      Inr (map (\<lambda>(r, ch). \<lparr>mo_req = r, mo_channel = ch, mo_sources = [(rq_id r, 0, rq_len r)]\<rparr>) rs, s') \<and>
    pl_is_empty pass_through s'"
proof -
  have "pt_pending (fold (\<lambda>(r, ch) s. pt_add s r ch) rs s) =
      pt_pending s @ map (\<lambda>(r, ch). \<lparr>tr_req = r, tr_channel = ch\<rparr>) rs" for s
    by (induction rs arbitrary: s) (auto simp: pt_add_def)
  then show ?thesis
    by (auto simp: add_all_def pass_through_def pt_drain_def PassThrough_new_def pt_is_empty_def
        pass_op_def o_def)
qed

lemma bt_new_wf: "bt_wf Batched_new" "bt_is_empty Batched_new"
  by (simp_all add: bt_wf_def Batched_new_def bt_is_empty_def batch_is_empty_def BatchEngine_new_def
      sch_wf_new sch_is_empty_def sch_all_def) (simp_all add: Scheduler_new_def)

text \<open>\<open>Batched\<close> conserves requests over a round: whatever it merges and reorders, a successful
  drain leaves it empty and hands out each request of the round exactly once, on its channel and
  with its code, descriptor and length.\<close>

theorem batched_round_conserves:
  assumes "pl_drain batched p (add_all batched rs Batched_new) = Inr (ops, s')"
  shows "pl_is_empty batched s' \<and> bt_wf s' \<and>
    mset (concat (map op_requests ops)) = mset (map polled_key rs)"
proof -
  have key: "polled_key = (\<lambda>(r, ch). (ch, rq_op r, rq_fd r, rq_id r, rq_len r))"
    by (auto simp: polled_key_def)
  from assms have d: "bt_drain p (fold (\<lambda>(r, ch) s. bt_add s r ch) rs Batched_new) = Inr (ops, s')"
    by (simp add: add_all_def batched_def)
  show ?thesis using batched_stage.round_conserves [OF bt_new_wf d] by (simp add: batched_def key)
qed

lemma bt_add_all:
  "bt_batch (add_all batched rs s) =
     (bt_batch s)\<lparr>pending := pending (bt_batch s) @ map (\<lambda>(r, ch). \<lparr>tr_req = r, tr_channel = ch\<rparr>) rs\<rparr>"
  "bt_scheduler (add_all batched rs s) = bt_scheduler s"
  by (induction rs arbitrary: s) (auto simp: add_all_def batched_def bt_add_def batch_add_def)

lemma bt_drain_of_merged:
  assumes "drain_merged p (bt_batch s) = Inr (merged, b)"
  shows "\<exists>s'. bt_drain p s = Inr (sch_all (enqueue_all (bt_scheduler s) merged), s')"
proof -
  let ?sch = "enqueue_all (bt_scheduler s) merged"
  obtain out sch where d: "sch_drain ?sch (sch_len ?sch) = (out, sch)"
    by (cases "sch_drain ?sch (sch_len ?sch)") auto
  then have "out = sch_all ?sch" using sch_drain_all [OF d] by (simp add: sch_len_all)
  with d assms show ?thesis
    by (auto simp: bt_drain_def batch_is_empty_def drain_merged_def split: if_splits)
qed

lemma bt_batch_round: "bt_batch (add_all batched rs Batched_new) = mk_batch rs"
proof -
  have "pending (bt_batch (add_all batched rs Batched_new)) = pending (mk_batch rs)"
    by (simp add: bt_add_all Batched_new_def BatchEngine_new_def)
  then show ?thesis by simp
qed

text \<open>C22. A round of \<open>Batched\<close>, when no byte range wraps around: the drain returns, hands out exactly the
  operations that the engine merges the requests of the round to, all the critical ones first, then the
  high ones, then the rest, each class in the engine's order; each request of the round is behind exactly
  one of them, and nothing stays in the stage.\<close>

theorem batched_round_ordered:
  assumes "\<forall>(r, ch) \<in> set rs. unat (rq_offset r) + unat (rq_len r) < 2 ^ 64"
  shows "\<exists>merged ops s'. drain_merged p (mk_batch rs) = Inr (merged, BatchEngine_new) \<and>
    pl_drain batched p (add_all batched rs Batched_new) = Inr (ops, s') \<and>
    ops = of_class Critical merged @ of_class High merged @ of_class Low merged \<and>
    mset (concat (map op_requests ops)) = mset (map polled_key rs) \<and> pl_is_empty batched s'"
proof -
  let ?s = "add_all batched rs Batched_new"
  have "\<forall>t \<in> set (pending (mk_batch rs)). fits t" using assms by (auto simp: fits_def)
  then obtain merged b where d: "drain_merged p (mk_batch rs) = Inr (merged, b)"
    using drain_merged_total [of "mk_batch rs"] by (metis surj_pair)
  have b: "b = BatchEngine_new"
    using drain_merged_requests(1) [OF d] by (simp add: BatchEngine_new_def)
  let ?ops = "sch_all (enqueue_all (bt_scheduler ?s) merged)"
  obtain s' where out: "pl_drain batched p ?s = Inr (?ops, s')"
    using bt_drain_of_merged [of p ?s merged b] d unfolding bt_batch_round by (auto simp: batched_def)
  have "?ops = of_class Critical merged @ of_class High merged @ of_class Low merged"
    by (simp add: sch_all_def enqueue_queues bt_add_all Batched_new_def Scheduler_new_def)
  moreover have "pl_is_empty batched s' \<and> mset (concat (map op_requests ?ops)) = mset (map polled_key rs)"
    using batched_round_conserves [OF out] by simp
  ultimately show ?thesis using d b out by (intro exI conjI) auto
qed

definition round_example :: "(IoRequest \<times> nat) list" where
  "round_example =
     [((mk_req 1 Read 10 0 4096 0)\<lparr>rq_priority := 0\<rparr>, 0),
      ((mk_req 2 Read 10 4096 4096 4096)\<lparr>rq_priority := 2\<rparr>, 0),
      (mk_req 3 Read 11 0 4096 8192, 0)]"

theorem batched_round_ordered_witness:
  "\<exists>ops s'. pl_drain batched Debug (add_all batched round_example Batched_new) = Inr (ops, s') \<and>
    map (\<lambda>m. (sch_class m, map fst (mo_sources m))) ops = [(High, [3]), (Low, [1, 2])] \<and>
    pl_is_empty batched s'"
proof -
  have "\<exists>merged ops s'. drain_merged Debug (mk_batch round_example) = Inr (merged, BatchEngine_new) \<and>
      pl_drain batched Debug (add_all batched round_example Batched_new) = Inr (ops, s') \<and>
      ops = of_class Critical merged @ of_class High merged @ of_class Low merged \<and>
      mset (concat (map op_requests ops)) = mset (map polled_key round_example) \<and> pl_is_empty batched s'"
    by (rule batched_round_ordered) (simp add: round_example_def)
  then obtain merged s' where d: "drain_merged Debug (mk_batch round_example) = Inr (merged, BatchEngine_new)"
    and r: "pl_drain batched Debug (add_all batched round_example Batched_new) =
        Inr (of_class Critical merged @ of_class High merged @ of_class Low merged, s')"
      "pl_is_empty batched s'"
    by blast
  have "map (\<lambda>m. (sch_class m, map fst (mo_sources m))) merged = [(Low, [1, 2]), (High, [3])]"
    using d by (simp add: round_example_def drain_eval) (auto simp: sch_class_def io_priority_def priority_from_u8_def)
  then have "map (\<lambda>m. (sch_class m, map fst (mo_sources m)))
      (of_class Critical merged @ of_class High merged @ of_class Low merged) = [(High, [3]), (Low, [1, 2])]"
    by (auto simp: of_class_def)
  with r show ?thesis by (intro exI conjI)
qed

text \<open>A merged operation takes the priority of its first request, so a critical request can be
  demoted: here the critical read 2 is merged into the low read 1 and leaves after the high
  read 3.\<close>

theorem batched_demotes_critical:
  "case pl_drain batched p (add_all batched round_example Batched_new) of
     Inl _ \<Rightarrow> False
   | Inr (ops, _) \<Rightarrow> map (\<lambda>m. (sch_class m, map fst (mo_sources m))) ops = [(High, [3]), (Low, [1, 2])]"
  by (simp add: add_all_def batched_def round_example_def bt_drain_def Batched_new_def bt_add_def
      BatchEngine_new_def batch_add_def batch_is_empty_def drain_eval Scheduler_new_def enqueue_def
      priority_from_u8_def sch_drain_def sch_len_def sch_class_def io_priority_def)

theorem batched_round_conserves_witness:
  "\<exists>ops s'. pl_drain batched Debug (add_all batched round_example Batched_new) = Inr (ops, s') \<and>
    pl_is_empty batched s' \<and> mset (concat (map op_requests ops)) = mset (map polled_key round_example)"
proof -
  have "\<forall>t \<in> set (pending (bt_batch (add_all batched round_example Batched_new))). fits t"
    by (simp add: bt_add_all Batched_new_def BatchEngine_new_def fits_def round_example_def)
  then obtain merged b where
    "drain_merged Debug (bt_batch (add_all batched round_example Batched_new)) = Inr (merged, b)"
    using drain_merged_total by (metis surj_pair)
  from bt_drain_of_merged [OF this] obtain ops s' where
    d: "pl_drain batched Debug (add_all batched round_example Batched_new) = Inr (ops, s')"
    by (auto simp: batched_def)
  with batched_round_conserves [OF d] show ?thesis by blast
qed

end
