(* ===== verification/Executor.thy ===== *)
theory Executor
  imports Atlas_Prelude "HOL-Library.Multiset"
begin

text \<open>
  \<open>atlas-service/src/executor.rs\<close>: the executor trait with its default batch, the POSIX backend
  over the C library and the io_uring backend over the ring. The C library and the ring are not
  part of the repository: they are the parameters \<open>LibC\<close> and \<open>Uring\<close>, whose state type also holds
  the files and the memory they act on.
\<close>

section \<open>Batch operations and the trait\<close>

text \<open>A buffer pointer: the mapped segment (the channel's index) and the byte offset into it.\<close>

type_synonym buf = "nat \<times> nat"

datatype BatchKind =
    Pread (bk_fd: i32) (bk_buf: buf) (bk_len: usize) (bk_offset: u64)
  | Pwrite (bk_fd: i32) (bk_buf: buf) (bk_len: usize) (bk_offset: u64)
  | Fsync (bk_fd: i32)

record BatchOp =
  bo_kind :: BatchKind
  bo_result :: i64

definition BatchOp_new :: "BatchKind \<Rightarrow> BatchOp" where
  "BatchOp_new k = \<lparr>bo_kind = k, bo_result = 0\<rparr>"

record 'w IoExecutor =
  ex_open :: "'w \<Rightarrow> u8 list \<Rightarrow> i32 \<Rightarrow> u32 \<Rightarrow> i64 \<times> 'w"
  ex_close :: "'w \<Rightarrow> i32 \<Rightarrow> i64 \<times> 'w"
  ex_pread :: "'w \<Rightarrow> i32 \<Rightarrow> buf \<Rightarrow> usize \<Rightarrow> u64 \<Rightarrow> i64 \<times> 'w"
  ex_pwrite :: "'w \<Rightarrow> i32 \<Rightarrow> buf \<Rightarrow> usize \<Rightarrow> u64 \<Rightarrow> i64 \<times> 'w"
  ex_fsync :: "'w \<Rightarrow> i32 \<Rightarrow> i64 \<times> 'w"
  ex_batch :: "'w \<Rightarrow> BatchOp list \<Rightarrow> (BatchOp list \<times> 'w) exec"

text \<open>One operation of a batch through the single-op methods.\<close>

definition run_kind ::
  "('w \<Rightarrow> i32 \<Rightarrow> buf \<Rightarrow> usize \<Rightarrow> u64 \<Rightarrow> i64 \<times> 'w) \<Rightarrow>
   ('w \<Rightarrow> i32 \<Rightarrow> buf \<Rightarrow> usize \<Rightarrow> u64 \<Rightarrow> i64 \<times> 'w) \<Rightarrow> ('w \<Rightarrow> i32 \<Rightarrow> i64 \<times> 'w) \<Rightarrow>
   'w \<Rightarrow> BatchKind \<Rightarrow> i64 \<times> 'w" where
  "run_kind pread pwrite fsync w k =
     (case k of
        Pread fd b l off \<Rightarrow> pread w fd b l off
      | Pwrite fd b l off \<Rightarrow> pwrite w fd b l off
      | Fsync fd \<Rightarrow> fsync w fd)"

text \<open>The trait's default \<open>execute_batch\<close>.\<close>

primrec default_batch ::
  "('w \<Rightarrow> BatchKind \<Rightarrow> i64 \<times> 'w) \<Rightarrow> 'w \<Rightarrow> BatchOp list \<Rightarrow> BatchOp list \<times> 'w" where
  "default_batch run w [] = ([], w)"
| "default_batch run w (op # ops) =
     (case run w (bo_kind op) of (res, w1) \<Rightarrow>
      case default_batch run w1 ops of (ops', w2) \<Rightarrow> (op\<lparr>bo_result := res\<rparr> # ops', w2))"

text \<open>What the service relies on: a batch keeps its operations and only fills in results.\<close>

locale batch_executor =
  fixes batch :: "'w \<Rightarrow> BatchOp list \<Rightarrow> (BatchOp list \<times> 'w) exec"
  assumes batch_kinds: "batch w ops = Inr (ops', w') \<Longrightarrow> map bo_kind ops' = map bo_kind ops"
begin

lemma batch_length: "batch w ops = Inr (ops', w') \<Longrightarrow> length ops' = length ops"
  by (drule batch_kinds) (metis length_map)

lemma batch_kind_nth:
  "batch w ops = Inr (ops', w') \<Longrightarrow> i < length ops \<Longrightarrow> bo_kind (ops' ! i) = bo_kind (ops ! i)"
  by (metis batch_kinds batch_length nth_map)

end

lemma default_batch_kinds: "map bo_kind (fst (default_batch run w ops)) = map bo_kind ops"
proof (induction ops arbitrary: w)
  case (Cons op ops)
  obtain res w1 where r: "run w (bo_kind op) = (res, w1)" by fastforce
  obtain ops' w2 where d: "default_batch run w1 ops = (ops', w2)" by fastforce
  have "map bo_kind ops' = map bo_kind ops" using Cons.IH [of w1] d by simp
  with r d show ?case by simp
qed simp

section \<open>The POSIX backend\<close>

record 'o LibC =
  c_open :: "'o \<Rightarrow> u8 list \<Rightarrow> i32 \<Rightarrow> u32 \<Rightarrow> i32 \<times> 'o"
  c_close :: "'o \<Rightarrow> i32 \<Rightarrow> i32 \<times> 'o"
  c_pread :: "'o \<Rightarrow> i32 \<Rightarrow> buf \<Rightarrow> usize \<Rightarrow> i64 \<Rightarrow> i64 \<times> 'o"
  c_pwrite :: "'o \<Rightarrow> i32 \<Rightarrow> buf \<Rightarrow> usize \<Rightarrow> i64 \<Rightarrow> i64 \<times> 'o"
  c_fsync :: "'o \<Rightarrow> i32 \<Rightarrow> i32 \<times> 'o"
  c_last_os_error :: "'o \<Rightarrow> i32 option"

definition errno :: "'o LibC \<Rightarrow> 'o \<Rightarrow> i32" where
  "errno L w = (case c_last_os_error L w of Some e \<Rightarrow> e | None \<Rightarrow> 0)"

text \<open>\<open>CString::new\<close> refuses a string with a NUL byte.\<close>

definition posix_open :: "'o LibC \<Rightarrow> 'o \<Rightarrow> u8 list \<Rightarrow> i32 \<Rightarrow> u32 \<Rightarrow> i64 \<times> 'o" where
  "posix_open L w path flags mode =
     (if 0 \<in> set path then (- i32_as_i64 EINVAL, w)
      else case c_open L w path flags mode of (fd, w1) \<Rightarrow>
        (if negative fd then - i32_as_i64 (errno L w1) else i32_as_i64 fd, w1))"

definition posix_close :: "'o LibC \<Rightarrow> 'o \<Rightarrow> i32 \<Rightarrow> i64 \<times> 'o" where
  "posix_close L w fd =
     (case c_close L w fd of (rc, w1) \<Rightarrow>
        (if negative rc then - i32_as_i64 (errno L w1) else 0, w1))"

definition posix_pread :: "'o LibC \<Rightarrow> 'o \<Rightarrow> i32 \<Rightarrow> buf \<Rightarrow> usize \<Rightarrow> u64 \<Rightarrow> i64 \<times> 'o" where
  "posix_pread L w fd b l offset =
     (case c_pread L w fd b l offset of (n, w1) \<Rightarrow>
        (if negative n then - i32_as_i64 (errno L w1) else n, w1))"

definition posix_pwrite :: "'o LibC \<Rightarrow> 'o \<Rightarrow> i32 \<Rightarrow> buf \<Rightarrow> usize \<Rightarrow> u64 \<Rightarrow> i64 \<times> 'o" where
  "posix_pwrite L w fd b l offset =
     (case c_pwrite L w fd b l offset of (n, w1) \<Rightarrow>
        (if negative n then - i32_as_i64 (errno L w1) else n, w1))"

definition posix_fsync :: "'o LibC \<Rightarrow> 'o \<Rightarrow> i32 \<Rightarrow> i64 \<times> 'o" where
  "posix_fsync L w fd =
     (case c_fsync L w fd of (rc, w1) \<Rightarrow>
        (if negative rc then - i32_as_i64 (errno L w1) else 0, w1))"

definition posix_batch :: "'o LibC \<Rightarrow> 'o \<Rightarrow> BatchOp list \<Rightarrow> (BatchOp list \<times> 'o) exec" where
  "posix_batch L w ops =
     Inr (default_batch (run_kind (posix_pread L) (posix_pwrite L) (posix_fsync L)) w ops)"

definition PosixExecutor :: "'o LibC \<Rightarrow> 'o IoExecutor" where
  "PosixExecutor L =
     \<lparr>ex_open = posix_open L, ex_close = posix_close L, ex_pread = posix_pread L,
      ex_pwrite = posix_pwrite L, ex_fsync = posix_fsync L, ex_batch = posix_batch L\<rparr>"

interpretation posix: batch_executor "posix_batch L" for L :: "'o LibC"
proof
  fix w ops ops' and w' :: 'o
  assume "posix_batch L w ops = Inr (ops', w')"
  then show "map bo_kind ops' = map bo_kind ops"
    using default_batch_kinds [of "run_kind (posix_pread L) (posix_pwrite L) (posix_fsync L)" w ops]
    by (simp add: posix_batch_def)
qed

lemma posix_batch_executor: "batch_executor (ex_batch (PosixExecutor L))"
  using posix.batch_executor_axioms by (simp add: PosixExecutor_def)

section \<open>The io_uring backend\<close>

datatype Sqe =
    SqRead i32 buf u32 u64 (sq_user_data: u64)
  | SqWrite i32 buf u32 u64 (sq_user_data: u64)
  | SqFsync i32 (sq_user_data: u64)
  | SqOpenAt "u8 list" i32 u32 (sq_user_data: u64)
  | SqClose i32 (sq_user_data: u64)

text \<open>
  The ring: pushing an entry (\<open>None\<close> when the submission queue is full), \<open>submit_and_wait\<close>, whose
  result the code discards, and taking completions, all of them or the next one.
\<close>

record 'r Uring =
  sq_push :: "'r \<Rightarrow> Sqe \<Rightarrow> 'r option"
  submit_and_wait :: "'r \<Rightarrow> nat \<Rightarrow> 'r"
  completion :: "'r \<Rightarrow> (u64 \<times> i32) list \<times> 'r"
  completion_next :: "'r \<Rightarrow> (u64 \<times> i32) option \<times> 'r"

definition submit_and_wait_one :: "'r Uring \<Rightarrow> 'r \<Rightarrow> i64 \<times> 'r" where
  "submit_and_wait_one U r =
     (case completion_next U (submit_and_wait U r 1) of
        (Some (_, res), r1) \<Rightarrow> (i32_as_i64 res, r1)
      | (None, r1) \<Rightarrow> (- i32_as_i64 EIO, r1))"

text \<open>The single operations: push (a full queue is ignored), submit, take one completion.\<close>

definition uring_single :: "'r Uring \<Rightarrow> 'r \<Rightarrow> Sqe \<Rightarrow> i64 \<times> 'r" where
  "uring_single U r e =
     submit_and_wait_one U (case sq_push U r e of Some r1 \<Rightarrow> r1 | None \<Rightarrow> r)"

definition uring_open :: "'r Uring \<Rightarrow> 'r \<Rightarrow> u8 list \<Rightarrow> i32 \<Rightarrow> u32 \<Rightarrow> i64 \<times> 'r" where
  "uring_open U r path flags mode =
     (if 0 \<in> set path then (- i32_as_i64 EINVAL, r)
      else uring_single U r (SqOpenAt path flags mode 0))"

definition uring_close :: "'r Uring \<Rightarrow> 'r \<Rightarrow> i32 \<Rightarrow> i64 \<times> 'r" where
  "uring_close U r fd = uring_single U r (SqClose fd 0)"

definition uring_pread :: "'r Uring \<Rightarrow> 'r \<Rightarrow> i32 \<Rightarrow> buf \<Rightarrow> usize \<Rightarrow> u64 \<Rightarrow> i64 \<times> 'r" where
  "uring_pread U r fd b l off = uring_single U r (SqRead fd b (as_u32 l) off 0)"

definition uring_pwrite :: "'r Uring \<Rightarrow> 'r \<Rightarrow> i32 \<Rightarrow> buf \<Rightarrow> usize \<Rightarrow> u64 \<Rightarrow> i64 \<times> 'r" where
  "uring_pwrite U r fd b l off = uring_single U r (SqWrite fd b (as_u32 l) off 0)"

definition uring_fsync :: "'r Uring \<Rightarrow> 'r \<Rightarrow> i32 \<Rightarrow> i64 \<times> 'r" where
  "uring_fsync U r fd = uring_single U r (SqFsync fd 0)"

definition build_entry :: "BatchKind \<Rightarrow> u64 \<Rightarrow> Sqe" where
  "build_entry k tag =
     (case k of
        Pread fd b l off \<Rightarrow> SqRead fd b (as_u32 l) off tag
      | Pwrite fd b l off \<Rightarrow> SqWrite fd b (as_u32 l) off tag
      | Fsync fd \<Rightarrow> SqFsync fd tag)"

text \<open>The push loop of \<open>submit_chunk\<close>; \<open>i\<close> is the global index of the next operation. A full queue
  panics (\<open>expect\<close>).\<close>

fun push_entries :: "'r Uring \<Rightarrow> nat \<Rightarrow> BatchOp list \<Rightarrow> 'r \<Rightarrow> 'r exec" where
  "push_entries U i [] r = Inr r"
| "push_entries U i (op # ops) r =
     (case sq_push U r (build_entry (bo_kind op) (of_nat i)) of
        None \<Rightarrow> Inl Assertion
      | Some r1 \<Rightarrow> push_entries U (Suc i) ops r1)"

text \<open>The reap loop: a completion's user data is the global index of its operation.\<close>

fun reap :: "nat \<Rightarrow> (u64 \<times> i32) list \<Rightarrow> BatchOp list \<Rightarrow> BatchOp list" where
  "reap base [] ops = ops"
| "reap base ((ud, res) # cqes) ops =
     (let idx = unat ud in
      reap base cqes
        (if base \<le> idx \<and> idx < base + length ops
         then ops[idx - base := (ops ! (idx - base))\<lparr>bo_result := i32_as_i64 res\<rparr>]
         else ops))"

definition submit_chunk :: "'r Uring \<Rightarrow> nat \<Rightarrow> BatchOp list \<Rightarrow> 'r \<Rightarrow> (BatchOp list \<times> 'r) exec" where
  "submit_chunk U base ops r =
     and_then (push_entries U base ops r) (\<lambda>r1.
       case completion U (submit_and_wait U r1 (length ops)) of (cqes, r2) \<Rightarrow>
         Inr (reap base cqes ops, r2))"

text \<open>The loop over chunks of at most \<open>cap\<close> operations; with capacity 0 it would never advance.\<close>

function uring_chunks ::
  "'r Uring \<Rightarrow> nat \<Rightarrow> nat \<Rightarrow> BatchOp list \<Rightarrow> 'r \<Rightarrow> (BatchOp list \<times> 'r) exec" where
  "uring_chunks U cap i ops r =
     (if ops = [] then Inr ([], r)
      else if cap = 0 then Inl Spin
      else and_then (submit_chunk U i (take cap ops) r) (\<lambda>res. case res of (done1, r1) \<Rightarrow>
        and_then (uring_chunks U cap (i + length (take cap ops)) (drop cap ops) r1)
          (\<lambda>res2. case res2 of (done2, r2) \<Rightarrow> Inr (done1 @ done2, r2))))"
  by pat_completeness auto
termination
  by (relation "measure (\<lambda>(U, cap, i, ops, r). length ops)") (auto simp: Suc_le_eq)

declare uring_chunks.simps [simp del]

definition uring_batch :: "'r Uring \<Rightarrow> u32 \<Rightarrow> 'r \<Rightarrow> BatchOp list \<Rightarrow> (BatchOp list \<times> 'r) exec" where
  "uring_batch U capacity r ops = uring_chunks U (unat capacity) 0 ops r"

definition IoUringExecutor :: "'r Uring \<Rightarrow> u32 \<Rightarrow> 'r IoExecutor" where
  "IoUringExecutor U capacity =
     \<lparr>ex_open = uring_open U, ex_close = uring_close U, ex_pread = uring_pread U,
      ex_pwrite = uring_pwrite U, ex_fsync = uring_fsync U, ex_batch = uring_batch U capacity\<rparr>"

lemma reap_kinds [simp]: "map bo_kind (reap base cqes ops) = map bo_kind ops"
proof (induction base cqes ops rule: reap.induct)
  case (2 base ud res cqes ops)
  have "map bo_kind (ops[i := (ops ! i)\<lparr>bo_result := x\<rparr>]) = map bo_kind ops" for i x
    by (cases "i < length ops")
      (simp add: map_update list_update_same_conv, simp add: list_update_beyond)
  with 2 show ?case by (simp add: Let_def)
qed simp

lemma length_reap [simp]: "length (reap base cqes ops) = length ops"
  using reap_kinds [of base cqes ops] by (metis length_map)

lemma uring_chunksE:
  assumes "uring_chunks U cap i ops r = Inr (ops', r')"
  obtains "ops = []" "ops' = []"
  | d1 r1 d2 where "ops \<noteq> []" "cap \<noteq> 0" "submit_chunk U i (take cap ops) r = Inr (d1, r1)"
      "uring_chunks U cap (i + length (take cap ops)) (drop cap ops) r1 = Inr (d2, r')" "ops' = d1 @ d2"
proof (cases "ops = []")
  case True
  with assms that(1) show thesis by (simp add: uring_chunks.simps)
next
  case ne: False
  have cap: "cap \<noteq> 0"
  proof
    assume "cap = 0"
    with ne have "uring_chunks U cap i ops r = Inl Spin" by (subst uring_chunks.simps) simp
    with assms show False by simp
  qed
  with ne assms that(2) show thesis
    by (auto simp: uring_chunks.simps [of U cap i ops r] elim!: and_then_InrE split: prod.splits)
qed

lemma uring_chunks_kinds:
  "uring_chunks U cap i ops r = Inr (ops', r') \<Longrightarrow> map bo_kind ops' = map bo_kind ops"
proof (induction U cap i ops r arbitrary: ops' r' rule: uring_chunks.induct)
  case (1 U cap i ops r)
  from 1(2) show ?case
  proof (cases rule: uring_chunksE)
    case (2 d1 r1 d2)
    have "map bo_kind d2 = map bo_kind (drop cap ops)" using 1(1) [OF 2(1,2,3) refl 2(4)] .
    moreover have "map bo_kind d1 = map bo_kind (take cap ops)"
      using 2(3) by (auto simp: submit_chunk_def elim!: and_then_InrE split: prod.splits)
    ultimately show ?thesis using 2(5) by (metis append_take_drop_id map_append)
  qed simp
qed

lemma uring_chunks_silent:
  assumes "uring_chunks U cap i ops r = Inr (ops', r')" "\<forall>r. fst (completion U r) = []"
  shows "ops' = ops"
  using assms
proof (induction U cap i ops r arbitrary: ops' r' rule: uring_chunks.induct)
  case (1 U cap i ops r)
  from 1(2) show ?case
  proof (cases rule: uring_chunksE)
    case (2 d1 r1 d2)
    have "d2 = drop cap ops" using 1(1) [OF 2(1,2,3) refl 2(4) 1(3)] .
    moreover have "d1 = take cap ops"
      using 2(3) 1(3) by (auto simp: submit_chunk_def elim!: and_then_InrE split: prod.splits)
        (metis fst_conv reap.simps(1))
    ultimately show ?thesis using 2(5) by simp
  qed simp
qed

interpretation uring: batch_executor "uring_batch U capacity" for U :: "'r Uring" and capacity
  by unfold_locales (auto simp: uring_batch_def dest: uring_chunks_kinds)

section \<open>What a POSIX batch returns\<close>

text \<open>The documented behaviour of the calls: a negative result sets \<open>errno\<close> to an error number.\<close>

definition errno_set :: "'o LibC \<Rightarrow> i64 \<times> 'o \<Rightarrow> bool" where
  "errno_set L r \<longleftrightarrow> (negative (fst r) \<longrightarrow>
     (\<exists>e. c_last_os_error L (snd r) = Some e \<and> 0 < sint e \<and> sint e < 4096))"

definition libc_contract :: "'o LibC \<Rightarrow> bool" where
  "libc_contract L \<longleftrightarrow>
     (\<forall>w fd b l off. errno_set L (c_pread L w fd b l off)) \<and>
     (\<forall>w fd b l off. errno_set L (c_pwrite L w fd b l off)) \<and>
     (\<forall>w fd. negative (fst (c_fsync L w fd)) \<longrightarrow>
        (\<exists>e. c_last_os_error L (snd (c_fsync L w fd)) = Some e \<and> 0 < sint e \<and> sint e < 4096))"

text \<open>The C call behind an operation of a batch, with its raw return value.\<close>

definition raw_call :: "'o LibC \<Rightarrow> 'o \<Rightarrow> BatchKind \<Rightarrow> i64 \<times> 'o" where
  "raw_call L w k =
     (case k of
        Pread fd b l off \<Rightarrow> c_pread L w fd b l off
      | Pwrite fd b l off \<Rightarrow> c_pwrite L w fd b l off
      | Fsync fd \<Rightarrow> (case c_fsync L w fd of (rc, w1) \<Rightarrow> (i32_as_i64 rc, w1)))"

text \<open>What an operation has to report of its call: the count (\<open>0\<close> for a sync), or the negated error
  number the call has left, which survives the narrowing to the 32 bits of the response's status.\<close>

definition reports :: "'o LibC \<Rightarrow> BatchKind \<Rightarrow> i64 \<times> 'o \<Rightarrow> i64 \<Rightarrow> bool" where
  "reports L k call res \<longleftrightarrow>
     (if negative (fst call)
      then \<exists>e. c_last_os_error L (snd call) = Some e \<and> 0 < sint e \<and> sint e < 4096 \<and>
           sint res = - sint e \<and> i64_as_i32 res = - e
      else res = (case k of Fsync _ \<Rightarrow> 0 | _ \<Rightarrow> fst call))"

lemma sint_neg_errno: "0 < sint (e :: i32) \<Longrightarrow> sint e < 4096 \<Longrightarrow> sint (- i32_as_i64 e) = - sint e"
  by (simp add: sint_word_ariths sint_i32_as_i64 signed_take_bit_int_eq_self)

lemma reports_errno:
  "negative (fst call) \<Longrightarrow> c_last_os_error L (snd call) = Some e \<Longrightarrow> 0 < sint e \<Longrightarrow> sint e < 4096 \<Longrightarrow>
   reports L k call (- i32_as_i64 e)"
  by (auto simp: reports_def narrow_errno sint_neg_errno)

lemma run_kind_reports:
  assumes "libc_contract L"
    and "run_kind (posix_pread L) (posix_pwrite L) (posix_fsync L) w k = (res, w1)"
  shows "snd (raw_call L w k) = w1 \<and> reports L k (raw_call L w k) res"
proof -
  have fail: "reports L k (n, w1) (- i32_as_i64 (errno L w1))"
    if "errno_set L (n, w1)" "negative n" for n
    using that by (auto simp: errno_set_def errno_def intro!: reports_errno)
  show ?thesis
  proof (cases k)
    case (Pread fd b l off)
    obtain n w2 where c: "c_pread L w fd b l off = (n, w2)" by force
    with assms(1) have "errno_set L (n, w2)" unfolding libc_contract_def by metis
    with c Pread fail assms(2) show ?thesis
      by (auto simp: run_kind_def posix_pread_def raw_call_def reports_def)
  next
    case (Pwrite fd b l off)
    obtain n w2 where c: "c_pwrite L w fd b l off = (n, w2)" by force
    with assms(1) have "errno_set L (n, w2)" unfolding libc_contract_def by metis
    with c Pwrite fail assms(2) show ?thesis
      by (auto simp: run_kind_def posix_pwrite_def raw_call_def reports_def)
  next
    case (Fsync fd)
    obtain n w2 where c: "c_fsync L w fd = (n, w2)" by force
    with assms(1) have "errno_set L (i32_as_i64 n, w2)"
      unfolding libc_contract_def errno_set_def by (metis fst_conv snd_conv sint_i32_as_i64)
    with c Fsync fail assms(2) show ?thesis
      by (auto simp: run_kind_def posix_fsync_def raw_call_def reports_def sint_i32_as_i64)
  qed
qed

lemma default_batch_steps:
  assumes "default_batch run w ops = (ops', w')"
  shows "\<exists>ws. length ws = Suc (length ops) \<and> ws ! 0 = w \<and> ws ! length ops = w' \<and>
    (\<forall>i < length ops. run (ws ! i) (bo_kind (ops ! i)) = (bo_result (ops' ! i), ws ! Suc i))"
  using assms
proof (induction ops arbitrary: w ops')
  case Nil
  then show ?case by (intro exI [of _ "[w]"]) simp
next
  case (Cons op ops)
  obtain res w1 where r: "run w (bo_kind op) = (res, w1)" by fastforce
  obtain rest where d: "default_batch run w1 ops = (rest, w')"
    and out: "ops' = op\<lparr>bo_result := res\<rparr> # rest"
    using Cons.prems r by (auto split: prod.splits)
  obtain ws where ws: "length ws = Suc (length ops)" "ws ! 0 = w1" "ws ! length ops = w'"
    "\<forall>i < length ops. run (ws ! i) (bo_kind (ops ! i)) = (bo_result (rest ! i), ws ! Suc i)"
    using Cons.IH [OF d] by blast
  have "run ((w # ws) ! i) (bo_kind ((op # ops) ! i)) = (bo_result (ops' ! i), (w # ws) ! Suc i)"
    if "i < length (op # ops)" for i
    using that r ws out by (cases i) simp_all
  with ws out show ?case by (intro exI [of _ "w # ws"]) simp
qed

section \<open>What an io_uring batch returns\<close>

text \<open>The submission entries of a batch, tagged with consecutive indices.\<close>

fun entries :: "nat \<Rightarrow> BatchOp list \<Rightarrow> Sqe list" where
  "entries i [] = []"
| "entries i (op # ops) = build_entry (bo_kind op) (of_nat i) # entries (Suc i) ops"

text \<open>
  The contract of a ring on which nothing goes wrong: in the states \<open>ok\<close>, an entry is accepted while
  fewer than \<open>cap\<close> are queued, and a submission that waits for all queued entries executes each of
  them once, in any order, and makes exactly their completions available, which are then taken.
  \<open>hist\<close> is the record of executed entries with their results.
\<close>

definition uring_contract ::
  "'r Uring \<Rightarrow> nat \<Rightarrow> ('r \<Rightarrow> bool) \<Rightarrow> ('r \<Rightarrow> Sqe list) \<Rightarrow> ('r \<Rightarrow> (Sqe \<times> i32) list) \<Rightarrow> bool" where
  "uring_contract U cap ok queued hist \<longleftrightarrow>
     (\<forall>r e. ok r \<and> length (queued r) < cap \<longrightarrow>
        (\<exists>r1. sq_push U r e = Some r1 \<and> ok r1 \<and> queued r1 = queued r @ [e] \<and> hist r1 = hist r)) \<and>
     (\<forall>r cqes r2. ok r \<and> completion U (submit_and_wait U r (length (queued r))) = (cqes, r2) \<longrightarrow>
        ok r2 \<and> queued r2 = [] \<and>
        (\<exists>res. hist r2 = hist r @ res \<and> mset (map fst res) = mset (queued r) \<and>
           mset cqes = mset (map (\<lambda>(e, v). (sq_user_data e, v)) res)))"

lemma entries_length [simp]: "length (entries i ops) = length ops"
  by (induction i ops rule: entries.induct) simp_all

lemma entries_append: "entries i (xs @ ys) = entries i xs @ entries (i + length xs) ys"
  by (induction i xs rule: entries.induct) simp_all

lemma entry_tag [simp]: "sq_user_data (build_entry k tag) = tag"
  by (cases k) (simp_all add: build_entry_def)

lemma entries_tags: "map sq_user_data (entries i ops) = map of_nat [i..<i + length ops]"
  by (induction i ops rule: entries.induct) (simp_all add: upt_conv_Cons del: upt_Suc)

lemma unat_tag: "i < 2 ^ 64 \<Longrightarrow> unat (of_nat i :: u64) = i"
  by (simp add: unat_of_nat)

lemma tags_distinct: "j \<le> 2 ^ 64 \<Longrightarrow> distinct (map (of_nat :: nat \<Rightarrow> u64) [i..<j])"
  unfolding distinct_map
proof (intro conjI inj_onI)
  fix x y assume "j \<le> 2 ^ 64" "x \<in> set [i..<j]" "y \<in> set [i..<j]" "(of_nat x :: u64) = of_nat y"
  moreover from this have "x < 2 ^ 64" "y < 2 ^ 64" by simp_all
  ultimately show "x = y" using unat_tag by metis
qed simp

lemma push_entries_spec:
  assumes "uring_contract U cap ok queued hist" "ok r" "length (queued r) + length ops \<le> cap"
  shows "\<exists>r1. push_entries U i ops r = Inr r1 \<and> ok r1 \<and> queued r1 = queued r @ entries i ops \<and> hist r1 = hist r"
  using assms(2,3)
proof (induction ops arbitrary: i r)
  case (Cons op ops)
  then have "length (queued r) < cap" by simp
  with assms(1) Cons.prems(1) obtain r1 where r1: "sq_push U r (build_entry (bo_kind op) (of_nat i)) = Some r1"
    "ok r1" "queued r1 = queued r @ [build_entry (bo_kind op) (of_nat i)]" "hist r1 = hist r"
    unfolding uring_contract_def by metis
  from Cons.IH [of r1 "Suc i"] Cons.prems(2) r1 show ?case by auto
qed simp

lemma reap_nth:
  assumes "distinct (map fst cqes)" "i < length ops" "base + length ops \<le> 2 ^ 64"
  shows "reap base cqes ops ! i =
    (case map_of cqes (of_nat (base + i)) of None \<Rightarrow> ops ! i
     | Some v \<Rightarrow> (ops ! i)\<lparr>bo_result := i32_as_i64 v\<rparr>)"
  using assms
proof (induction base cqes ops rule: reap.induct)
  case (2 base ud res cqes ops)
  have i: "unat (of_nat (base + i) :: u64) = base + i" using 2(3,4) by (intro unat_tag) simp
  let ?in = "base \<le> unat ud \<and> unat ud < base + length ops"
  define nops where "nops = (if ?in then ops[unat ud - base := (ops ! (unat ud - base))\<lparr>bo_result := i32_as_i64 res\<rparr>] else ops)"
  have step: "reap base ((ud, res) # cqes) ops = reap base cqes nops" by (simp add: Let_def nops_def)
  have ih: "reap base cqes nops ! i =
    (case map_of cqes (of_nat (base + i)) of None \<Rightarrow> nops ! i
     | Some v \<Rightarrow> (nops ! i)\<lparr>bo_result := i32_as_i64 v\<rparr>)"
    using 2(2-4) unfolding nops_def by (intro 2(1) [OF refl]) simp_all
  show ?case
  proof (cases "ud = of_nat (base + i)")
    case True
    then have "map_of cqes (of_nat (base + i)) = None" using 2(2) by (auto simp: map_of_eq_None_iff)
    moreover have "nops ! i = (ops ! i)\<lparr>bo_result := i32_as_i64 res\<rparr>"
      using True i 2(3) by (simp add: nops_def)
    ultimately show ?thesis unfolding step ih using True by simp
  next
    case False
    then have "unat ud \<noteq> base + i" using i by (metis word_unat_eq_iff)
    then have "nops ! i = ops ! i" using 2(3) by (auto simp: nops_def nth_list_update)
    then show ?thesis unfolding step ih using False by (simp split: option.splits)
  qed
qed simp

text \<open>A record of results, one for each of distinct entries, is those entries with their results.\<close>

lemma mset_zip_found:
  assumes "distinct es" "mset (map fst res) = mset es" "length vs = length es"
    and "\<And>i. i < length es \<Longrightarrow> (es ! i, vs ! i) \<in> set res"
  shows "mset res = mset (zip es vs)"
proof -
  have "distinct (map fst res)" using assms(1,2) by (metis mset_eq_imp_distinct_iff)
  then have dist: "distinct res" "distinct (zip es vs)" using assms(1) by (simp_all add: distinct_map distinct_zipI1)
  have "set (zip es vs) \<subseteq> set res" using assms(3,4) by (auto simp: set_zip)
  moreover have "length (zip es vs) = length res"
    using assms(2,3) by (metis length_map length_zip min.idem size_mset)
  ultimately have "set (zip es vs) = set res"
    using dist by (metis card_subset_eq distinct_card List.finite_set)
  with dist show ?thesis by (simp add: set_eq_iff_mset_eq_distinct)
qed

lemma entry_nth_tag:
  assumes "i < length ops"
  shows "sq_user_data (entries base ops ! i) = of_nat (base + i)"
proof -
  have "map sq_user_data (entries base ops) ! i = map of_nat [base..<base + length ops] ! i"
    by (simp only: entries_tags)
  then show ?thesis using assms by simp
qed

text \<open>The reaped results are the ones recorded, operation by operation.\<close>

lemma reap_exact:
  assumes "base + length ops \<le> 2 ^ 64" "mset (map fst res) = mset (entries base ops)"
    and "mset cqes = mset (map (\<lambda>(e, v). (sq_user_data e, v)) res)"
  shows "\<exists>vs. length vs = length ops \<and> mset res = mset (zip (entries base ops) vs) \<and>
    reap base cqes ops = map (\<lambda>(op, v). op\<lparr>bo_result := i32_as_i64 v\<rparr>) (zip ops vs)"
proof -
  let ?es = "entries base ops" and ?n = "length ops"
  have tags: "distinct (map sq_user_data ?es)"
    unfolding entries_tags using assms(1) by (rule tags_distinct)
  then have es: "distinct ?es" by (simp add: distinct_map)
  have "mset (map fst cqes) = mset (map sq_user_data (map fst res))"
    using assms(3) by (simp add: image_mset.compositionality o_def case_prod_beta)
  also have "\<dots> = mset (map sq_user_data ?es)" using assms(2) by (metis mset_map)
  finally have "mset (map fst cqes) = mset (map sq_user_data ?es)" .
  then have dc: "distinct (map fst cqes)" using tags by (metis mset_eq_imp_distinct_iff)
  have mem: "(e, v) \<in> set res \<Longrightarrow> (sq_user_data e, v) \<in> set cqes" for e v
    using assms(3) by (metis (no_types, lifting) case_prod_conv image_eqI set_map set_mset_mset)
  define vs where "vs = map (\<lambda>i. the (map_of cqes (of_nat (base + i)))) [0..<?n]"
  have len: "length vs = ?n" by (simp add: vs_def)
  have found: "map_of cqes (of_nat (base + i)) = Some (vs ! i) \<and> (?es ! i, vs ! i) \<in> set res" if i: "i < ?n" for i
  proof -
    have "?es ! i \<in> set (map fst res)" using i assms(2) by (metis entries_length nth_mem set_mset_mset)
    then obtain v where v: "(?es ! i, v) \<in> set res" by auto
    then have "map_of cqes (of_nat (base + i)) = Some v"
      using mem [OF v] dc entry_nth_tag [OF i] by (simp add: map_of_eq_Some_iff)
    moreover from this have "vs ! i = v" using i by (simp add: vs_def)
    ultimately show ?thesis using v by simp
  qed
  have "mset res = mset (zip ?es vs)"
    using found len by (intro mset_zip_found [OF es assms(2)]) simp_all
  moreover have "reap base cqes ops = map (\<lambda>(op, v). op\<lparr>bo_result := i32_as_i64 v\<rparr>) (zip ops vs)"
  proof (rule nth_equalityI)
    fix i assume "i < length (reap base cqes ops)"
    then have i: "i < ?n" by simp
    then show "reap base cqes ops ! i = map (\<lambda>(op, v). op\<lparr>bo_result := i32_as_i64 v\<rparr>) (zip ops vs) ! i"
      using reap_nth [OF dc i assms(1)] found [OF i] len by simp
  qed (simp add: len)
  ultimately show ?thesis using len by blast
qed

lemma uring_chunks_spec:
  assumes "uring_contract U cap ok queued hist" "0 < cap"
    and "ok r" "queued r = []" "i + length ops \<le> 2 ^ 64"
  shows "\<exists>r' vs new. uring_chunks U cap i ops r =
      Inr (map (\<lambda>(op, v). op\<lparr>bo_result := i32_as_i64 v\<rparr>) (zip ops vs), r') \<and>
    ok r' \<and> queued r' = [] \<and> length vs = length ops \<and>
    hist r' = hist r @ new \<and> mset new = mset (zip (entries i ops) vs)"
  using assms(3-5)
proof (induction "length ops" arbitrary: i ops r rule: less_induct)
  case less
  show ?case
  proof (cases "ops = []")
    case True
    with less.prems show ?thesis by (intro exI [of _ r] exI [of _ "[]"]) (simp add: uring_chunks.simps)
  next
    case False
    let ?c = "take cap ops" and ?d = "drop cap ops"
    have clen: "length ?c \<le> cap" by simp
    obtain r1 where p: "push_entries U i ?c r = Inr r1" "ok r1" "queued r1 = entries i ?c" "hist r1 = hist r"
      using push_entries_spec [OF assms(1) less.prems(1), of ?c i] less.prems(2) by auto
    obtain cqes r2 where comp: "completion U (submit_and_wait U r1 (length ?c)) = (cqes, r2)" by force
    moreover have "length ?c = length (queued r1)" using p(3) by simp
    ultimately obtain res where c: "ok r2" "queued r2 = []" "hist r2 = hist r1 @ res"
      "mset (map fst res) = mset (entries i ?c)"
      "mset cqes = mset (map (\<lambda>(e, v). (sq_user_data e, v)) res)"
      using assms(1) p(2,3) unfolding uring_contract_def by metis
    have "i + length ?c \<le> 2 ^ 64" using less.prems(3) by simp
    from reap_exact [OF this c(4,5)] obtain vs1 where vs1: "length vs1 = length ?c"
      "mset res = mset (zip (entries i ?c) vs1)"
      "reap i cqes ?c = map (\<lambda>(op, v). op\<lparr>bo_result := i32_as_i64 v\<rparr>) (zip ?c vs1)" by blast
    have smaller: "length ?d < length ops" using False assms(2) by simp
    have "i + length ?c + length ?d \<le> 2 ^ 64" using less.prems(3) by simp
    from less.hyps [OF smaller c(1,2) this] obtain r' vs2 new where
      ih: "uring_chunks U cap (i + length ?c) ?d r2 =
        Inr (map (\<lambda>(op, v). op\<lparr>bo_result := i32_as_i64 v\<rparr>) (zip ?d vs2), r')"
      "ok r'" "queued r' = []" "length vs2 = length ?d" "hist r' = hist r2 @ new"
      "mset new = mset (zip (entries (i + length ?c) ?d) vs2)" by blast
    have ops: "zip ops (vs1 @ vs2) = zip ?c vs1 @ zip ?d vs2"
      using zip_append [of ?c vs1 ?d vs2] vs1(1) by simp
    have ents: "zip (entries i ops) (vs1 @ vs2) = zip (entries i ?c) vs1 @ zip (entries (i + length ?c) ?d) vs2"
      using zip_append [of "entries i ?c" vs1 "entries (i + length ?c) ?d" vs2] vs1(1)
        entries_append [of i ?c ?d] by simp
    have "submit_chunk U i ?c r = Inr (map (\<lambda>(op, v). op\<lparr>bo_result := i32_as_i64 v\<rparr>) (zip ?c vs1), r2)"
      using p(1) comp vs1(3) by (simp add: submit_chunk_def)
    then have "uring_chunks U cap i ops r =
        Inr (map (\<lambda>(op, v). op\<lparr>bo_result := i32_as_i64 v\<rparr>) (zip ops (vs1 @ vs2)), r')"
      using False assms(2) ih(1) ops by (subst uring_chunks.simps) simp
    then show ?thesis
      using ih vs1 c p ents smaller
      by (intro exI [of _ r'] exI [of _ "vs1 @ vs2"] exI [of _ "res @ new"]) simp
  qed
qed

section \<open>Properties\<close>

text \<open>C25. With a C library that keeps its contract, a POSIX batch returns with its operations in their
  order. The calls behind them are made one after another, each in the state the one before has left
  (\<open>ws\<close>), and each operation reports its own call: the count it returned, \<open>0\<close> for a sync that
  succeeded, and for a call that failed the negated error number, between \<open>-4095\<close> and \<open>-1\<close>, which the
  truncation \<open>result as i32\<close> in the service turns into exactly that negative status.\<close>

theorem posix_batch_results:
  assumes "libc_contract L"
  shows "\<exists>ops' w' ws. posix_batch L w ops = Inr (ops', w') \<and> map bo_kind ops' = map bo_kind ops \<and>
    length ws = Suc (length ops) \<and> ws ! 0 = w \<and> ws ! length ops = w' \<and>
    (\<forall>i < length ops. snd (raw_call L (ws ! i) (bo_kind (ops ! i))) = ws ! Suc i \<and>
       reports L (bo_kind (ops ! i)) (raw_call L (ws ! i) (bo_kind (ops ! i))) (bo_result (ops' ! i)))"
proof -
  let ?run = "run_kind (posix_pread L) (posix_pwrite L) (posix_fsync L)"
  obtain ops' w' where d: "default_batch ?run w ops = (ops', w')" by force
  obtain ws where ws: "length ws = Suc (length ops)" "ws ! 0 = w" "ws ! length ops = w'"
    "\<forall>i < length ops. ?run (ws ! i) (bo_kind (ops ! i)) = (bo_result (ops' ! i), ws ! Suc i)"
    using default_batch_steps [OF d] by blast
  have "map bo_kind ops' = map bo_kind ops" using default_batch_kinds [of ?run w ops] d by simp
  with ws d run_kind_reports [OF assms] show ?thesis
    by (intro exI [of _ ops'] exI [of _ w'] exI [of _ ws]) (simp add: posix_batch_def)
qed

text \<open>A C library whose reads return one byte and whose other calls fail with \<open>EBADF\<close>, the number of
  calls being its state.\<close>

definition failing_libc :: "nat LibC" where
  "failing_libc =
     \<lparr>c_open = (\<lambda>w path flags mode. (- 1, Suc w)), c_close = (\<lambda>w fd. (- 1, Suc w)),
      c_pread = (\<lambda>w fd b l off. (1, Suc w)), c_pwrite = (\<lambda>w fd b l off. (- 1, Suc w)),
      c_fsync = (\<lambda>w fd. (- 1, Suc w)), c_last_os_error = (\<lambda>w. Some EBADF)\<rparr>"

theorem posix_batch_results_witness:
  "\<exists>r0 r1 w'. posix_batch failing_libc 7 [BatchOp_new (Pread 3 (0, 0) 8 0), BatchOp_new (Fsync 3)] =
     Inr ([\<lparr>bo_kind = Pread 3 (0, 0) 8 0, bo_result = r0\<rparr>, \<lparr>bo_kind = Fsync 3, bo_result = r1\<rparr>], w') \<and>
     r0 = 1 \<and> sint r1 = - 9 \<and> w' = 9"
proof -
  let ?ops = "[BatchOp_new (Pread 3 (0, 0) 8 0), BatchOp_new (Fsync 3)]"
  have "libc_contract failing_libc"
    by (simp add: libc_contract_def errno_set_def failing_libc_def EBADF_def)
  from posix_batch_results [OF this, of 7 ?ops] obtain ops' w' ws where
    run: "posix_batch failing_libc 7 ?ops = Inr (ops', w')" and kinds: "map bo_kind ops' = map bo_kind ?ops"
    and ws: "ws ! 0 = 7" "ws ! Suc (Suc 0) = w'"
    and calls: "\<forall>i < Suc (Suc 0). snd (raw_call failing_libc (ws ! i) (bo_kind (?ops ! i))) = ws ! Suc i \<and>
      reports failing_libc (bo_kind (?ops ! i)) (raw_call failing_libc (ws ! i) (bo_kind (?ops ! i)))
        (bo_result (ops' ! i))"
    by (auto simp: numeral_2_eq_2)
  obtain o0 o1 where ops': "ops' = [o0, o1]" "bo_kind o0 = Pread 3 (0, 0) 8 0" "bo_kind o1 = Fsync 3"
    using kinds by (auto simp: BatchOp_new_def)
  have "bo_result o0 = 1" "ws ! 1 = 8"
    using calls [rule_format, of 0] ws ops' by (simp_all add: BatchOp_new_def raw_call_def reports_def failing_libc_def)
  moreover have "sint (bo_result o1) = - 9" "w' = 9"
    using calls [rule_format, of 1] ws ops' \<open>ws ! 1 = 8\<close>
    by (simp_all add: BatchOp_new_def raw_call_def reports_def failing_libc_def EBADF_def)
  ultimately show ?thesis
    using run ops' by (intro exI [of _ "bo_result o0"] exI [of _ "bo_result o1"] exI [of _ w']) simp
qed

text \<open>C24. On a ring that keeps its contract, a batch of any length returns: it is cut into chunks that
  fit the ring, every operation is executed exactly once, and each gets its own result, whatever
  the order in which completions arrive.\<close>

theorem uring_batch_results:
  assumes "uring_contract U (unat cap) ok queued hist" "0 < cap"
    and "ok r" "queued r = []" "length ops \<le> 2 ^ 64"
  shows "\<exists>r' vs new. uring_batch U cap r ops =
      Inr (map (\<lambda>(op, v). op\<lparr>bo_result := i32_as_i64 v\<rparr>) (zip ops vs), r') \<and>
    ok r' \<and> queued r' = [] \<and> length vs = length ops \<and>
    hist r' = hist r @ new \<and> mset new = mset (zip (entries 0 ops) vs)"
proof -
  have "0 < unat cap" using assms(2) by (simp add: word_less_nat_alt)
  from uring_chunks_spec [OF assms(1) this assms(3,4), of 0 ops] assms(5) show ?thesis
    by (simp add: uring_batch_def)
qed

text \<open>A ring of two entries that completes in reverse order: queue, completions, history.\<close>

definition sim_result :: "Sqe \<Rightarrow> i32" where
  "sim_result e = (case e of SqRead _ _ l _ _ \<Rightarrow> l | SqWrite _ _ l _ _ \<Rightarrow> l | _ \<Rightarrow> 0)"

definition sim_ring :: "(Sqe list \<times> (u64 \<times> i32) list \<times> (Sqe \<times> i32) list) Uring" where
  "sim_ring =
     \<lparr>sq_push = (\<lambda>(q, c, h) e. if length q < 2 then Some (q @ [e], c, h) else None),
      submit_and_wait = (\<lambda>(q, c, h) n.
        ([], c @ map (\<lambda>e. (sq_user_data e, sim_result e)) (rev q), h @ map (\<lambda>e. (e, sim_result e)) (rev q))),
      completion = (\<lambda>(q, c, h). (c, (q, [], h))),
      completion_next = (\<lambda>(q, c, h). case c of [] \<Rightarrow> (None, (q, c, h)) | x # c' \<Rightarrow> (Some x, (q, c', h)))\<rparr>"

lemma sim_ring_contract:
  "uring_contract sim_ring (unat (2 :: u32)) (\<lambda>(q, c, h). c = []) fst (\<lambda>(q, c, h). h)"
  unfolding uring_contract_def
proof (intro conjI allI impI)
  fix r :: "Sqe list \<times> (u64 \<times> i32) list \<times> (Sqe \<times> i32) list" and e
  assume "(case r of (q, c, h) \<Rightarrow> c = []) \<and> length (fst r) < unat (2 :: u32)"
  then show "\<exists>r1. sq_push sim_ring r e = Some r1 \<and> (case r1 of (q, c, h) \<Rightarrow> c = []) \<and>
      fst r1 = fst r @ [e] \<and> (case r1 of (q, c, h) \<Rightarrow> h) = (case r of (q, c, h) \<Rightarrow> h)"
    by (cases r) (simp add: sim_ring_def)
next
  fix r :: "Sqe list \<times> (u64 \<times> i32) list \<times> (Sqe \<times> i32) list" and cqes r2
  assume a: "(case r of (q, c, h) \<Rightarrow> c = []) \<and>
    completion sim_ring (submit_and_wait sim_ring r (length (fst r))) = (cqes, r2)"
  obtain q h where r: "r = (q, [], h)" using a by (cases r) auto
  have r2: "r2 = ([], [], h @ map (\<lambda>e. (e, sim_result e)) (rev q))"
    and c: "cqes = map (\<lambda>e. (sq_user_data e, sim_result e)) (rev q)"
    using a by (auto simp: r sim_ring_def)
  show "case r2 of (q, c, h) \<Rightarrow> c = []" "fst r2 = []" by (simp_all add: r2)
  show "\<exists>res. (case r2 of (q, c, h) \<Rightarrow> h) = (case r of (q, c, h) \<Rightarrow> h) @ res \<and>
      mset (map fst res) = mset (fst r) \<and>
      mset cqes = mset (map (\<lambda>(e, v). (sq_user_data e, v)) res)"
    by (intro exI [of _ "map (\<lambda>e. (e, sim_result e)) (rev q)"])
      (simp add: r r2 c image_mset.compositionality o_def)
qed

definition three_ops :: "BatchOp list" where
  "three_ops = map BatchOp_new [Pread 3 (0, 0) 10 0, Pwrite 4 (0, 10) 20 0, Fsync 3]"

theorem uring_batch_results_witness:
  "\<exists>r' vs new. uring_batch sim_ring 2 ([], [], []) three_ops =
      Inr (map (\<lambda>(op, v). op\<lparr>bo_result := i32_as_i64 v\<rparr>) (zip three_ops vs), r') \<and>
    length vs = 3 \<and> mset new = mset (zip (entries 0 three_ops) vs)"
proof -
  have n: "length three_ops = 3" by (simp add: three_ops_def)
  then have "length three_ops \<le> 2 ^ 64" by simp
  from uring_batch_results [OF sim_ring_contract _ _ _ this, of "([], [], [])"] n show ?thesis
    by (simp del: entries.simps) blast
qed

text \<open>A completion that does not arrive is reported as success. \<open>submit_and_wait\<close> can return early
  (its error is discarded); when it then yields no completions, the batch returns with every
  operation as it was created, that is with result 0: a read of no bytes, a write or a sync that
  the service reports as done.\<close>

theorem uring_lost_completions:
  assumes "uring_batch U cap r ops = Inr (ops', r')" and "\<forall>r. fst (completion U r) = []"
  shows "ops' = ops"
  using uring_chunks_silent [of U "unat cap" 0 ops r ops' r'] assms by (simp add: uring_batch_def)

definition silent_ring :: "(Sqe list \<times> (u64 \<times> i32) list \<times> (Sqe \<times> i32) list) Uring" where
  "silent_ring = sim_ring\<lparr>completion := (\<lambda>r. ([], r))\<rparr>"

theorem uring_lost_completions_witness:
  "uring_batch silent_ring 2 ([], [], []) [BatchOp_new (Fsync 3)] =
     Inr ([BatchOp_new (Fsync 3)], ([], [(0, 0)], [(SqFsync 3 0, 0)]))"
proof -
  have "\<exists>ops' r'. uring_batch silent_ring 2 ([], [], []) [BatchOp_new (Fsync 3)] = Inr (ops', r') \<and>
      r' = ([], [(0, 0)], [(SqFsync 3 0, 0)])"
    by (simp add: uring_batch_def uring_chunks.simps submit_chunk_def silent_ring_def sim_ring_def
        build_entry_def BatchOp_new_def sim_result_def)
  then obtain ops' where b: "uring_batch silent_ring 2 ([], [], []) [BatchOp_new (Fsync 3)] =
      Inr (ops', ([], [(0, 0)], [(SqFsync 3 0, 0)]))" by blast
  have "ops' = [BatchOp_new (Fsync 3)]"
    by (rule uring_lost_completions [OF b]) (simp add: silent_ring_def)
  with b show ?thesis by simp
qed

text \<open>C40. A completion that arrives late is taken for another operation's. When \<open>submit_and_wait\<close> returns
  before the completion of a batched operation is there (its error is discarded), the batch reports that
  operation with result 0, that is as done; and when the completion is there at the next open, it is the
  first in the queue and \<open>open\<close> returns its value as the new file's descriptor, whatever the open itself
  yields: after a sync that was interrupted, descriptor 0.\<close>

theorem uring_late_completion:
  assumes "0 < cap" "sq_push U r (build_entry k 0) = Some r1"
    and "completion U (submit_and_wait U r1 1) = ([], r2)"
    and "sq_push U r2 (SqOpenAt path flags mode 0) = Some r3" "0 \<notin> set path"
    and "completion_next U (submit_and_wait U r3 1) = (Some (0, v), r4)"
  shows "uring_batch U cap r [BatchOp_new k] = Inr ([BatchOp_new k], r2) \<and> bo_result (BatchOp_new k) = 0 \<and>
    uring_open U r2 path flags mode = (i32_as_i64 v, r4)"
proof -
  have "unat cap \<noteq> 0" using assms(1) by (simp add: word_gt_0 unat_eq_0)
  then show ?thesis
    using assms(2-)
    by (simp add: uring_batch_def uring_chunks.simps submit_chunk_def BatchOp_new_def uring_open_def
        uring_single_def submit_and_wait_one_def)
qed

text \<open>A ring whose first wait is interrupted: entries are executed, their completions show at the next
  wait. The file that is opened would have had descriptor 7.\<close>

definition late_ring :: "(Sqe list \<times> (u64 \<times> i32) list \<times> (u64 \<times> i32) list) Uring" where
  "late_ring =
     \<lparr>sq_push = (\<lambda>(q, c, l) e. Some (q @ [e], c, l)),
      submit_and_wait = (\<lambda>(q, c, l) n.
        ([], c @ l, map (\<lambda>e. (sq_user_data e, case e of SqOpenAt _ _ _ _ \<Rightarrow> 7 | _ \<Rightarrow> 0)) q)),
      completion = (\<lambda>(q, c, l). (c, (q, [], l))),
      completion_next = (\<lambda>(q, c, l). case c of [] \<Rightarrow> (None, (q, c, l)) | x # c' \<Rightarrow> (Some x, (q, c', l)))\<rparr>"

theorem uring_late_completion_witness:
  "\<exists>r. uring_batch late_ring 2 ([], [], []) [BatchOp_new (Fsync 3)] = Inr ([BatchOp_new (Fsync 3)], r) \<and>
     fst (uring_open late_ring r [47, 97] 0 420) = 0"
proof -
  let ?r2 = "([], [], [(0, 0)]) :: Sqe list \<times> (u64 \<times> i32) list \<times> (u64 \<times> i32) list"
  have "sq_push late_ring ([], [], []) (build_entry (Fsync 3) 0) = Some ([SqFsync 3 0], [], [])"
    "completion late_ring (submit_and_wait late_ring ([SqFsync 3 0], [], []) 1) = ([], ?r2)"
    "sq_push late_ring ?r2 (SqOpenAt [47, 97] 0 420 0) = Some ([SqOpenAt [47, 97] 0 420 0], [], [(0, 0)])"
    "completion_next late_ring (submit_and_wait late_ring ([SqOpenAt [47, 97] 0 420 0], [], [(0, 0)]) 1) =
       (Some (0, 0), ([], [], [(0, 7)]))"
    by (simp_all add: late_ring_def build_entry_def)
  from uring_late_completion [OF _ this(1-3) _ this(4), of 2] show ?thesis by auto
qed

end
