(* ===== verification/Queue_Interface.thy ===== *)
theory Queue_Interface
  imports Atlas_Prelude
begin

text \<open>
  The contract of a bounded FIFO queue with one producer end and one consumer end, as the two
  channel crates use it: \<open>enq\<close> appends or reports that the queue is full, \<open>deq\<close> takes the oldest
  element or reports that there is none. The lemmas derived from the contract hold for every
  sequence of operations.
\<close>

datatype 'a queue_op = Enq 'a | Deq

datatype 'a queue_result = Accepted | Refused | Taken 'a | Nothing

text \<open>Run a sequence of operations, recording what each of them reports.\<close>

primrec queue_results ::
  "('a \<Rightarrow> 'q \<Rightarrow> ('e + unit) \<times> 'q) \<Rightarrow> ('q \<Rightarrow> 'a option \<times> 'q) \<Rightarrow> 'a queue_op list \<Rightarrow> 'q \<Rightarrow>
   'a queue_result list \<times> 'q" where
  "queue_results enq deq [] q = ([], q)"
| "queue_results enq deq (x # xs) q =
     (case x of
        Enq v \<Rightarrow> (case enq v q of (out, q1) \<Rightarrow>
          (case queue_results enq deq xs q1 of (res, q') \<Rightarrow>
             ((case out of Inr _ \<Rightarrow> Accepted | Inl _ \<Rightarrow> Refused) # res, q')))
      | Deq \<Rightarrow> (case deq q of (out, q1) \<Rightarrow>
          (case queue_results enq deq xs q1 of (res, q') \<Rightarrow>
             ((case out of Some v \<Rightarrow> Taken v | None \<Rightarrow> Nothing) # res, q'))))"

text \<open>The specification: a list of at most \<open>cap\<close> elements, where an element is refused exactly when the
  list is full and nothing is taken exactly when it is empty.\<close>

fun fifo_results :: "nat \<Rightarrow> 'a queue_op list \<Rightarrow> 'a list \<Rightarrow> 'a queue_result list \<times> 'a list" where
  "fifo_results cap [] xs = ([], xs)"
| "fifo_results cap (Enq v # ops) xs =
     (if length xs < cap
      then (case fifo_results cap ops (xs @ [v]) of (res, ys) \<Rightarrow> (Accepted # res, ys))
      else (case fifo_results cap ops xs of (res, ys) \<Rightarrow> (Refused # res, ys)))"
| "fifo_results cap (Deq # ops) [] =
     (case fifo_results cap ops [] of (res, ys) \<Rightarrow> (Nothing # res, ys))"
| "fifo_results cap (Deq # ops) (x # xs) =
     (case fifo_results cap ops xs of (res, ys) \<Rightarrow> (Taken x # res, ys))"

locale bounded_queue =
  fixes enq :: "'a \<Rightarrow> 'q \<Rightarrow> ('e + unit) \<times> 'q"
    and deq :: "'q \<Rightarrow> 'a option \<times> 'q"
    and contents :: "'q \<Rightarrow> 'a list"
    and cap :: nat
    and invar :: "'q \<Rightarrow> bool"
  assumes length_contents: "invar q \<Longrightarrow> length (contents q) \<le> cap"
    and enq_space: "invar q \<Longrightarrow> length (contents q) < cap \<Longrightarrow>
      fst (enq v q) = Inr () \<and> contents (snd (enq v q)) = contents q @ [v]"
    and enq_full: "invar q \<Longrightarrow> length (contents q) = cap \<Longrightarrow>
      (\<exists>e. fst (enq v q) = Inl e) \<and> contents (snd (enq v q)) = contents q"
    and deq_Nil: "invar q \<Longrightarrow> contents q = [] \<Longrightarrow>
      fst (deq q) = None \<and> contents (snd (deq q)) = []"
    and deq_Cons: "invar q \<Longrightarrow> contents q = v # vs \<Longrightarrow>
      fst (deq q) = Some v \<and> contents (snd (deq q)) = vs"
    and invar_enq: "invar q \<Longrightarrow> invar (snd (enq v q))"
    and invar_deq: "invar q \<Longrightarrow> invar (snd (deq q))"
begin

lemma enq_cases:
  assumes "invar q" "enq v q = (res, q')"
  shows "(res = Inr () \<and> length (contents q) < cap \<and> contents q' = contents q @ [v]) \<or>
         ((\<exists>e. res = Inl e) \<and> length (contents q) = cap \<and> contents q' = contents q)"
  using assms length_contents [OF assms(1)] enq_space [OF assms(1), of v]
    enq_full [OF assms(1), of v]
  by (cases "length (contents q) < cap") auto

lemma deq_cases:
  assumes "invar q" "deq q = (res, q')"
  shows "(res = None \<and> contents q = [] \<and> contents q' = []) \<or>
         (\<exists>v. res = Some v \<and> contents q = v # contents q')"
  using assms deq_Nil [OF assms(1)] deq_Cons [OF assms(1)]
  by (cases "contents q") auto

lemma invar_step: "invar q \<Longrightarrow> enq v q = (res, q') \<Longrightarrow> invar q'"
    "invar q \<Longrightarrow> deq q = (res', q'') \<Longrightarrow> invar q''"
  using invar_enq [of q v] invar_deq [of q] by simp_all

text \<open>The queue refines the list: a run reports what the same run on the list reports, and ends with
  the contents the list ends with.\<close>

lemma run_refines:
  assumes "invar q" and "queue_results enq deq ops q = (res, q')"
  shows "invar q' \<and> fifo_results cap ops (contents q) = (res, contents q')"
  using assms
proof (induction ops arbitrary: q res)
  case (Cons x ops)
  note inv = Cons.prems(1) and run = Cons.prems(2)
  show ?case
  proof (cases x)
    case (Enq v)
    obtain out q1 where e: "enq v q = (out, q1)" by force
    obtain rest where r: "queue_results enq deq ops q1 = (rest, q')"
      using run Enq e by (auto split: prod.splits)
    note tail = Cons.IH [OF invar_step(1) [OF inv e] r]
    from enq_cases [OF inv e] show ?thesis using run Enq e r tail by auto
  next
    case Deq
    obtain out q1 where d: "deq q = (out, q1)" by force
    obtain rest where r: "queue_results enq deq ops q1 = (rest, q')"
      using run Deq d by (auto split: prod.splits)
    note tail = Cons.IH [OF invar_step(2) [OF inv d] r]
    from deq_cases [OF inv d] show ?thesis using run Deq d r tail by auto
  qed
qed simp

end

end
