(* ===== verification/Spsc_Ring.thy ===== *)
theory Spsc_Ring
  imports Queue_Interface
begin

text \<open>
  \<open>atlas-protocol/src/spsc.rs\<close>: the ring placed in shared memory, its initialisation and
  attachment, and the operations of the producer and the consumer. The positions are 64-bit
  counters that wrap; a slot index is the counter masked with \<open>N - 1\<close>.
\<close>

unbundle bit_operations_syntax

section \<open>The ring\<close>

definition MAGIC :: u64 where "MAGIC = 0xA71A5595C0001"

record 'a SpscRing =
  magic :: u64
  capacity :: usize
  ring_tail :: usize
  ring_head :: usize
  slots :: "'a list"

text \<open>\<open>usize::is_power_of_two\<close>.\<close>

definition is_power_of_two :: "usize \<Rightarrow> bool" where
  "is_power_of_two n \<longleftrightarrow> list_ex (\<lambda>k. n = 2 ^ k) [0..<64]"

text \<open>The asserts that open both \<open>init_in_place\<close> and \<open>attach\<close>.\<close>

definition place_ok :: "usize \<Rightarrow> usize \<Rightarrow> bool" where
  "place_ok N ptr \<longleftrightarrow> 0 < N \<and> is_power_of_two N \<and> ptr mod 128 = 0"

definition init_in_place :: "usize \<Rightarrow> usize \<Rightarrow> 'a SpscRing \<Rightarrow> 'a SpscRing exec" where
  "init_in_place N ptr r =
     (if \<not> place_ok N ptr then Inl Assertion
      else if magic r = 0 then
        Inr (r\<lparr>capacity := N, ring_tail := 0, ring_head := 0, magic := MAGIC\<rparr>)
      else if magic r \<noteq> MAGIC then Inl Assertion
      else if capacity r \<noteq> N then Inl Assertion
      else Inr r)"

text \<open>
  \<open>attach\<close> polls a segment that the peer may be writing: \<open>obs i\<close> is what the \<open>i\<close>-th iteration
  finds in \<open>magic\<close> and, loaded after it, in \<open>capacity\<close>.
\<close>

datatype attach_error = Capacity_Mismatch | Corrupt_Magic | Uninitialized

fun attach_loop :: "usize \<Rightarrow> (nat \<Rightarrow> u64 \<times> usize) \<Rightarrow> nat \<Rightarrow> nat \<Rightarrow> attach_error + unit" where
  "attach_loop N obs i 0 = Inl Uninitialized"
| "attach_loop N obs i (Suc n) =
     (case obs i of (m, cap) \<Rightarrow>
        if m = MAGIC then (if cap \<noteq> N then Inl Capacity_Mismatch else Inr ())
        else if m \<noteq> 0 then Inl Corrupt_Magic
        else attach_loop N obs (Suc i) n)"

definition ATTACH_SPINS :: nat where "ATTACH_SPINS = 1000000"

definition attach ::
  "usize \<Rightarrow> usize \<Rightarrow> (nat \<Rightarrow> u64 \<times> usize) \<Rightarrow> (attach_error + unit) exec" where
  "attach N ptr obs =
     (if \<not> place_ok N ptr then Inl Assertion else Inr (attach_loop N obs 0 ATTACH_SPINS))"

section \<open>Producer and consumer\<close>

datatype RingFull = RingFull

record Producer =
  cached_head :: usize
  local_tail :: usize

record Consumer =
  local_head :: usize
  cached_tail :: usize

definition Producer_new :: "'a SpscRing \<Rightarrow> Producer" where
  "Producer_new r = \<lparr>cached_head = ring_head r, local_tail = ring_tail r\<rparr>"

definition Consumer_new :: "'a SpscRing \<Rightarrow> Consumer" where
  "Consumer_new r = \<lparr>local_head = ring_head r, cached_tail = ring_tail r\<rparr>"

text \<open>The physical slot of a counter: \<open>counter & (N - 1)\<close>.\<close>

definition slot_index :: "usize \<Rightarrow> usize \<Rightarrow> nat" where
  "slot_index N w = unat (w AND (N - 1))"

definition push_slot :: "usize \<Rightarrow> 'a \<Rightarrow> 'a SpscRing \<times> Producer \<Rightarrow> 'a SpscRing \<times> Producer" where
  "push_slot N v rp =
     (case rp of (r, p) \<Rightarrow>
        let idx = slot_index N (local_tail p);
            r1 = r\<lparr>slots := (slots r)[idx := v]\<rparr>;
            p1 = p\<lparr>local_tail := local_tail p + 1\<rparr>
        in (r1\<lparr>ring_tail := local_tail p1\<rparr>, p1))"

definition push ::
  "usize \<Rightarrow> 'a \<Rightarrow> 'a SpscRing \<times> Producer \<Rightarrow> (RingFull + unit) \<times> 'a SpscRing \<times> Producer" where
  "push N v rp =
     (case rp of (r, p) \<Rightarrow>
        if N \<le> local_tail p - cached_head p then
          (let p1 = p\<lparr>cached_head := ring_head r\<rparr>
           in if N \<le> local_tail p1 - cached_head p1 then (Inl RingFull, r, p1)
              else (Inr (), push_slot N v (r, p1)))
        else (Inr (), push_slot N v (r, p)))"

definition pop_slot :: "usize \<Rightarrow> 'a SpscRing \<times> Consumer \<Rightarrow> 'a option \<times> 'a SpscRing \<times> Consumer" where
  "pop_slot N rc =
     (case rc of (r, c) \<Rightarrow>
        let idx = slot_index N (local_head c);
            v = slots r ! idx;
            c1 = c\<lparr>local_head := local_head c + 1\<rparr>
        in (Some v, r\<lparr>ring_head := local_head c1\<rparr>, c1))"

definition pop :: "usize \<Rightarrow> 'a SpscRing \<times> Consumer \<Rightarrow> 'a option \<times> 'a SpscRing \<times> Consumer" where
  "pop N rc =
     (case rc of (r, c) \<Rightarrow>
        if local_head c = cached_tail c then
          (let c1 = c\<lparr>cached_tail := ring_tail r\<rparr>
           in if local_head c1 = cached_tail c1 then (None, r, c1) else pop_slot N (r, c1))
        else pop_slot N (r, c))"

section \<open>Counters and slot indices\<close>

lemma is_power_of_two_iff: "is_power_of_two n \<longleftrightarrow> (\<exists>k<64. n = 2 ^ k)"
  by (auto simp: is_power_of_two_def list_ex_iff)

lemma power_of_two_unat:
  assumes "is_power_of_two N"
  obtains k where "k < 64" "N = 2 ^ k" "unat N = 2 ^ k"
proof -
  from assms obtain k where k: "k < 64" "N = 2 ^ k" by (auto simp: is_power_of_two_iff)
  have "unat (word_of_nat (2 ^ k) :: usize) = 2 ^ k mod 2 ^ 64" by (simp only: unat_of_nat) simp
  also have "\<dots> = 2 ^ k" using k(1) by (intro mod_less power_strict_increasing) simp_all
  finally have "unat N = 2 ^ k" using k(2) by simp
  with k that show thesis by blast
qed

lemma unat_power_of_two:
  assumes "is_power_of_two N"
  shows "0 < unat N" "unat N < 2 ^ 64" "unat N dvd 2 ^ 64"
proof -
  from assms obtain k where k: "k < 64" "unat N = 2 ^ k" by (rule power_of_two_unat)
  then show "0 < unat N" "unat N dvd 2 ^ 64"
    using le_imp_power_dvd [of k 64 "2 :: nat"] by simp_all
  show "unat N < 2 ^ 64" by simp
qed

lemma slot_index_mod:
  assumes "is_power_of_two N"
  shows "slot_index N w = unat w mod unat N"
proof -
  from assms obtain k where k: "k < 64" "N = 2 ^ k" "unat N = 2 ^ k" by (rule power_of_two_unat)
  have "N - 1 = mask k" using k by (simp add: mask_eq_exp_minus_1)
  then have "slot_index N w = unat (take_bit k w)"
    by (simp only: slot_index_def take_bit_eq_mask)
  also have "\<dots> = take_bit k (unat w)" by (rule unsigned_take_bit_eq)
  also have "\<dots> = unat w mod 2 ^ k" by (rule take_bit_eq_mod)
  finally show ?thesis using k(3) by simp
qed

lemma slot_index_less: "is_power_of_two N \<Longrightarrow> slot_index N w < unat N"
  by (simp add: slot_index_mod unat_power_of_two)

lemma slot_index_add:
  assumes "is_power_of_two N"
  shows "slot_index N (w + of_nat i) = (unat w + i) mod unat N"
proof -
  have "unat (w + of_nat i) = (unat w + i) mod 2 ^ 64"
    by (simp add: unat_word_ariths unat_of_nat mod_simps)
  with assms show ?thesis
    by (simp only: slot_index_mod mod_mod_cancel [OF unat_power_of_two(3) [OF assms]])
qed

lemma mod_window_inj:
  fixes i j n :: nat
  assumes "(w + i) mod n = (w + j) mod n" "i \<le> j" "j < i + n"
  shows "i = j"
proof -
  have "n dvd (w + j) - (w + i)"
    using assms(1) mod_eq_dvd_iff_nat [of "w + i" "w + j" n] assms(2) by simp
  then have "n dvd j - i" by simp
  moreover have "j - i < n" using assms(2,3) by simp
  ultimately have "j - i = 0" using dvd_imp_le by fastforce
  with assms(2) show ?thesis by simp
qed

lemma slot_index_inj:
  assumes "is_power_of_two N" "i \<le> j" "j < i + unat N"
    and "slot_index N (w + of_nat i) = slot_index N (w + of_nat j)"
  shows "i = j"
  using assms mod_window_inj [of "unat w" i "unat N" j] by (simp add: slot_index_add)

lemma unat_counter_diff:
  "j \<le> i \<Longrightarrow> i - j < 2 ^ 64 \<Longrightarrow> unat ((w + of_nat i) - (w + of_nat j) :: usize) = i - j"
  by (simp add: unat_of_nat flip: of_nat_diff)


lemma unat_diff_Suc:
  fixes t h n :: usize
  assumes "unat (t - h) < unat n"
  shows "unat (t + 1 - h) = Suc (unat (t - h))"
proof -
  have eq: "t + 1 - h = (t - h) + 1" by simp
  have "unat n < 2 ^ LENGTH(64)" by (rule unsigned_less)
  with assms have "Suc (unat (t - h)) < 2 ^ LENGTH(64)" by (rule le_less_trans [OF Suc_leI])
  then have "unat (t - h) + unat (1 :: usize) < 2 ^ LENGTH(64)" by simp
  then have "unat ((t - h) + 1) = Suc (unat (t - h))"
    by (subst unat_add_no_overflow) simp_all
  then show ?thesis by (simp only: eq)
qed

lemma unat_diff_pred:
  fixes t h :: usize
  assumes "t \<noteq> h"
  shows "Suc (unat (t - (h + 1))) = unat (t - h)"
proof -
  have eq: "t - (h + 1) = (t - h) - 1" by simp
  have "t - h \<noteq> 0" and "unat (t - h) \<noteq> 0" using assms by (simp_all add: unat_eq_0)
  then have "Suc (unat ((t - h) - 1)) = unat (t - h)" by (simp add: unat_minus_one)
  then show ?thesis by (simp only: eq)
qed

lemma counter_split: "(t :: usize) = h + of_nat (unat (t - h))"
  by simp

section \<open>The ring as a queue\<close>

definition window :: "'a SpscRing \<Rightarrow> nat" where
  "window r = unat (ring_tail r - ring_head r)"

definition ring_contents :: "usize \<Rightarrow> 'a SpscRing \<Rightarrow> 'a list" where
  "ring_contents N r =
     map (\<lambda>i. slots r ! slot_index N (ring_head r + of_nat i)) [0..<window r]"

definition ring_wf :: "usize \<Rightarrow> 'a SpscRing \<Rightarrow> bool" where
  "ring_wf N r \<longleftrightarrow> is_power_of_two N \<and> length (slots r) = unat N \<and> window r \<le> unat N"

text \<open>The producer's cached head may be stale, but never ahead of the real one.\<close>

definition producer_wf :: "usize \<Rightarrow> 'a SpscRing \<Rightarrow> Producer \<Rightarrow> bool" where
  "producer_wf N r p \<longleftrightarrow>
     local_tail p = ring_tail r \<and> window r \<le> unat (local_tail p - cached_head p) \<and>
     unat (local_tail p - cached_head p) \<le> unat N"

text \<open>The consumer's cached tail may be stale, but never ahead of the real one.\<close>

definition consumer_wf :: "'a SpscRing \<Rightarrow> Consumer \<Rightarrow> bool" where
  "consumer_wf r c \<longleftrightarrow>
     local_head c = ring_head r \<and> unat (cached_tail c - local_head c) \<le> window r"

lemma length_ring_contents [simp]: "length (ring_contents N r) = window r"
  by (simp add: ring_contents_def)

lemma producer_wf_new: "ring_wf N r \<Longrightarrow> producer_wf N r (Producer_new r)"
  by (simp add: producer_wf_def ring_wf_def window_def Producer_new_def)

lemma consumer_wf_new: "consumer_wf r (Consumer_new r)"
  by (simp add: consumer_wf_def window_def Consumer_new_def)

lemma window_le_capacity: "ring_wf N r \<Longrightarrow> window r \<le> unat N"
  by (simp add: ring_wf_def)

lemma push_slot_contents:
  assumes wf: "ring_wf N r" and lt: "local_tail p = ring_tail r" and room: "window r < unat N"
    and res: "push_slot N v (r, p) = (r', p')"
  shows "ring_contents N r' = ring_contents N r @ [v]"
    and "window r' = Suc (window r)"
    and "ring_head r' = ring_head r"
    and "local_tail p' = ring_tail r'" "cached_head p' = cached_head p"
    and "ring_tail r' = ring_tail r + 1" "length (slots r') = length (slots r)"
proof -
  have p2: "is_power_of_two N" and len: "length (slots r) = unat N"
    using wf by (simp_all add: ring_wf_def)
  let ?idx = "\<lambda>i. slot_index N (ring_head r + of_nat i)"
  have t: "ring_tail r = ring_head r + of_nat (window r)"
    unfolding window_def by (rule counter_split)
  have r': "slots r' = (slots r)[?idx (window r) := v]" "ring_head r' = ring_head r"
    "ring_tail r' = ring_tail r + 1" "p' = p\<lparr>local_tail := ring_tail r + 1\<rparr>"
    using res lt t by (auto simp: push_slot_def Let_def)
  show w: "window r' = Suc (window r)"
    using r' room by (simp add: window_def unat_diff_Suc [of _ _ N])
  have old: "slots r' ! ?idx i = slots r ! ?idx i" if "i < window r" for i
  proof -
    have "?idx i \<noteq> ?idx (window r)"
      using slot_index_inj [OF p2, of i "window r" "ring_head r"] that room by auto
    then show ?thesis using r' by simp
  qed
  have new: "slots r' ! ?idx (window r) = v"
    using r'(1) len slot_index_less [OF p2] by simp
  show "ring_contents N r' = ring_contents N r @ [v]"
    unfolding ring_contents_def w r'(2) using old new by simp
qed (use res lt in \<open>auto simp: push_slot_def Let_def\<close>)

lemma push_spec:
  assumes wf: "ring_wf N r" and pw: "producer_wf N r p" and res: "push N v (r, p) = (out, r', p')"
  shows "ring_wf N r' \<and> producer_wf N r' p' \<and> ring_head r' = ring_head r \<and>
     (if window r < unat N then out = Inr () \<and> ring_contents N r' = ring_contents N r @ [v]
      else out = Inl RingFull \<and> r' = r)"
proof -
  have N: "N \<le> w \<longleftrightarrow> unat N \<le> unat w" for w :: usize by (simp add: word_le_nat_alt)
  have lt: "local_tail p = ring_tail r" using pw by (simp add: producer_wf_def)
  have fresh: "unat (local_tail p - ring_head r) = window r" by (simp add: lt window_def)
  show ?thesis
  proof (cases "window r < unat N")
    case room: True
    from res obtain q where q: "push_slot N v (r, q) = (r', p')" "out = Inr ()"
      and lq: "local_tail q = ring_tail r" and cq: "producer_wf N r q"
      and space: "unat (local_tail q - cached_head q) < unat N"
      using pw room lt fresh
      by (auto simp: push_def Let_def N not_le producer_wf_def window_def split: if_splits)
    note ps = push_slot_contents [OF wf lq room q(1)]
    have "unat (local_tail p' - cached_head p') = Suc (unat (local_tail q - cached_head q))"
      using ps lq space by (simp add: unat_diff_Suc [of _ _ N])
    then show ?thesis
      using ps q(2) room wf cq space by (auto simp: ring_wf_def producer_wf_def)
  next
    case False
    then have "out = Inl RingFull \<and> r' = r \<and> p' = p\<lparr>cached_head := ring_head r\<rparr>"
      using res pw fresh by (auto simp: push_def Let_def N producer_wf_def split: if_splits)
    then show ?thesis
      using wf pw False by (simp add: producer_wf_def window_def ring_wf_def)
  qed
qed

lemma pop_slot_contents:
  assumes wf: "ring_wf N r" and lh: "local_head c = ring_head r" and some: "window r \<noteq> 0"
    and res: "pop_slot N (r, c) = (out, r', c')"
  shows "\<exists>v. out = Some v \<and> ring_contents N r = v # ring_contents N r'"
    and "Suc (window r') = window r" "ring_tail r' = ring_tail r" "slots r' = slots r"
    and "local_head c' = ring_head r'" "cached_tail c' = cached_tail c"
    and "ring_head r' = ring_head r + 1"
proof -
  let ?idx = "\<lambda>i. slot_index N (ring_head r + of_nat i)"
  have r': "r' = r\<lparr>ring_head := ring_head r + 1\<rparr>" and out: "out = Some (slots r ! ?idx 0)"
    using res lh by (auto simp: pop_slot_def Let_def)
  have ne: "ring_tail r \<noteq> ring_head r" using some by (auto simp: window_def)
  show w: "Suc (window r') = window r"
    using ne by (simp add: r' window_def unat_diff_pred)
  have shift: "slot_index N (ring_head r' + of_nat i) = ?idx (Suc i)" for i
    by (simp add: r' ac_simps)
  have "ring_contents N r = map (\<lambda>i. slots r ! ?idx i) (0 # map Suc [0..<window r'])"
    unfolding ring_contents_def w [symmetric] by (simp add: upt_conv_Cons map_Suc_upt del: upt_Suc)
  then show "\<exists>v. out = Some v \<and> ring_contents N r = v # ring_contents N r'"
    using out by (simp add: ring_contents_def shift) (simp add: r' o_def)
qed (use res lh in \<open>auto simp: pop_slot_def Let_def\<close>)

lemma pop_spec:
  assumes wf: "ring_wf N r" and cw: "consumer_wf r c" and res: "pop N (r, c) = (out, r', c')"
  shows "ring_wf N r' \<and> consumer_wf r' c' \<and> ring_tail r' = ring_tail r \<and>
     window r' \<le> window r \<and>
     (if window r = 0 then out = None \<and> r' = r
      else \<exists>v. out = Some v \<and> ring_contents N r = v # ring_contents N r')"
proof (cases "window r = 0")
  case True
  then have "ring_tail r = ring_head r" by (simp add: window_def unat_eq_0)
  moreover have "cached_tail c = local_head c"
    using cw True by (simp add: consumer_wf_def unat_eq_0)
  ultimately show ?thesis
    using res wf cw True by (auto simp: pop_def Let_def consumer_wf_def window_def)
next
  case some: False
  from res obtain d where d: "pop_slot N (r, d) = (out, r', c')"
    and ld: "local_head d = ring_head r" and cd: "consumer_wf r d"
    and fresh: "cached_tail d \<noteq> local_head d"
    using cw some by (auto simp: pop_def Let_def consumer_wf_def window_def split: if_splits)
  note ps = pop_slot_contents [OF wf ld some d]
  have "Suc (unat (cached_tail c' - local_head c')) = unat (cached_tail d - local_head d)"
    using ps(5-7) ld fresh by (simp add: unat_diff_pred)
  then show ?thesis
    using ps wf cd some by (auto simp: ring_wf_def consumer_wf_def)
qed

section \<open>Both ends together: the bounded queue\<close>

record 'a spsc =
  sp_ring :: "'a SpscRing"
  sp_producer :: Producer
  sp_consumer :: Consumer

definition spsc_enq :: "usize \<Rightarrow> 'a \<Rightarrow> 'a spsc \<Rightarrow> (RingFull + unit) \<times> 'a spsc" where
  "spsc_enq N v q =
     (case push N v (sp_ring q, sp_producer q) of
        (out, r, p) \<Rightarrow> (out, q\<lparr>sp_ring := r, sp_producer := p\<rparr>))"

definition spsc_deq :: "usize \<Rightarrow> 'a spsc \<Rightarrow> 'a option \<times> 'a spsc" where
  "spsc_deq N q =
     (case pop N (sp_ring q, sp_consumer q) of
        (out, r, c) \<Rightarrow> (out, q\<lparr>sp_ring := r, sp_consumer := c\<rparr>))"

definition spsc_contents :: "usize \<Rightarrow> 'a spsc \<Rightarrow> 'a list" where
  "spsc_contents N q = ring_contents N (sp_ring q)"

definition spsc_wf :: "usize \<Rightarrow> 'a spsc \<Rightarrow> bool" where
  "spsc_wf N q \<longleftrightarrow> ring_wf N (sp_ring q) \<and> producer_wf N (sp_ring q) (sp_producer q) \<and>
     consumer_wf (sp_ring q) (sp_consumer q)"

text \<open>A bound on the pops left before the consumer finds the ring empty, on any ring, well formed or
  not: what the cached tail still allows, and one reload after it.\<close>

definition pops_left :: "'a spsc \<Rightarrow> nat" where
  "pops_left q =
     (let d = sp_consumer q
      in unat (cached_tail d - local_head d) +
         (if cached_tail d = ring_tail (sp_ring q) then 0 else 2 ^ 64))"

lemma spsc_deq_decreases:
  assumes "spsc_deq N q = (Some v, q')"
  shows "pops_left q' < pops_left q"
proof -
  let ?r = "sp_ring q" and ?d = "sp_consumer q"
  obtain r' d' where p: "pop N (?r, ?d) = (Some v, r', d')"
    and q': "q' = q\<lparr>sp_ring := r', sp_consumer := d'\<rparr>"
    using assms by (auto simp: spsc_deq_def split: prod.splits)
  show ?thesis
  proof (cases "local_head ?d = cached_tail ?d")
    case False
    with p have "r' = ?r\<lparr>ring_head := local_head ?d + 1\<rparr>" "d' = ?d\<lparr>local_head := local_head ?d + 1\<rparr>"
      by (auto simp: pop_def pop_slot_def Let_def)
    then show ?thesis
      using unat_diff_pred [of "cached_tail ?d" "local_head ?d"] False
      by (simp add: pops_left_def q' Let_def)
  next
    case True
    with p have "local_head ?d \<noteq> ring_tail ?r"
      and "r' = ?r\<lparr>ring_head := local_head ?d + 1\<rparr>"
        "d' = ?d\<lparr>cached_tail := ring_tail ?r, local_head := local_head ?d + 1\<rparr>"
      by (auto simp: pop_def pop_slot_def Let_def split: if_splits)
    moreover have "unat (ring_tail ?r - (local_head ?d + 1)) < 2 ^ 64" by simp
    ultimately show ?thesis using True by (simp add: pops_left_def q' Let_def)
  qed
qed

text \<open>Attaching both ends to a ring.\<close>

definition spsc_open :: "'a SpscRing \<Rightarrow> 'a spsc" where
  "spsc_open r =
     \<lparr>sp_ring = r, sp_producer = Producer_new r, sp_consumer = Consumer_new r\<rparr>"

lemma spsc_wf_open: "ring_wf N r \<Longrightarrow> spsc_wf N (spsc_open r)"
  by (simp add: spsc_wf_def spsc_open_def producer_wf_new consumer_wf_new)

text \<open>Moving one end only widens what the other end's cached counter allows.\<close>

lemma push_consumer_wf:
  assumes "ring_wf N r" "producer_wf N r p" "push N v (r, p) = (out, r', p')" "consumer_wf r c"
  shows "consumer_wf r' c"
proof -
  note ps = push_spec [OF assms(1-3)]
  have "length (ring_contents N r) \<le> length (ring_contents N r')"
    using ps by (auto split: if_splits simp del: length_ring_contents)
  then show ?thesis using ps assms(4) by (auto simp: consumer_wf_def)
qed

lemma pop_producer_wf:
  assumes "ring_wf N r" "consumer_wf r c" "pop N (r, c) = (out, r', c')" "producer_wf N r p"
  shows "producer_wf N r' p"
  using pop_spec [OF assms(1-3)] assms(4) by (auto simp: producer_wf_def)

lemma spsc_enq_wf: "spsc_wf N q \<Longrightarrow> spsc_wf N (snd (spsc_enq N v q))"
  using push_spec [of N "sp_ring q" "sp_producer q" v] push_consumer_wf [of N "sp_ring q" "sp_producer q" v]
  by (auto simp: spsc_wf_def spsc_enq_def split: prod.splits)

lemma spsc_deq_wf: "spsc_wf N q \<Longrightarrow> spsc_wf N (snd (spsc_deq N q))"
  using pop_spec [of N "sp_ring q" "sp_consumer q"] pop_producer_wf [of N "sp_ring q" "sp_consumer q"]
  by (auto simp: spsc_wf_def spsc_deq_def split: prod.splits)

interpretation spscq: bounded_queue "spsc_enq N" "spsc_deq N" "spsc_contents N" "unat N" "spsc_wf N"
  for N :: usize
proof
  fix q :: "'a spsc" and v :: 'a and vs
  assume wf: "spsc_wf N q"
  obtain out r p where e: "push N v (sp_ring q, sp_producer q) = (out, r, p)"
    by (cases "push N v (sp_ring q, sp_producer q)") auto
  note ps = push_spec [OF _ _ e]
  obtain out' r' c' where d: "pop N (sp_ring q, sp_consumer q) = (out', r', c')"
    by (cases "pop N (sp_ring q, sp_consumer q)") auto
  note qs = pop_spec [OF _ _ d]
  show "length (spsc_contents N q) \<le> unat N"
    using wf by (simp add: spsc_contents_def spsc_wf_def window_le_capacity)
  show "fst (spsc_enq N v q) = Inr () \<and> spsc_contents N (snd (spsc_enq N v q)) = spsc_contents N q @ [v]"
    if "length (spsc_contents N q) < unat N"
    using that wf ps e by (simp add: spsc_contents_def spsc_wf_def spsc_enq_def)
  show "(\<exists>e. fst (spsc_enq N v q) = Inl e) \<and> spsc_contents N (snd (spsc_enq N v q)) = spsc_contents N q"
    if "length (spsc_contents N q) = unat N"
    using that wf ps e by (simp add: spsc_contents_def spsc_wf_def spsc_enq_def)
  show "fst (spsc_deq N q) = None \<and> spsc_contents N (snd (spsc_deq N q)) = []"
    if "spsc_contents N q = []"
  proof -
    have "window (sp_ring q) = 0" using that length_ring_contents [of N "sp_ring q"] by (simp add: spsc_contents_def)
    then show ?thesis using that wf qs d by (simp add: spsc_contents_def spsc_wf_def spsc_deq_def)
  qed
  show "fst (spsc_deq N q) = Some v \<and> spsc_contents N (snd (spsc_deq N q)) = vs"
    if "spsc_contents N q = v # vs"
  proof -
    have "window (sp_ring q) \<noteq> 0"
      using that length_ring_contents [of N "sp_ring q"] by (auto simp: spsc_contents_def)
    then show ?thesis using that wf qs d by (auto simp: spsc_contents_def spsc_wf_def spsc_deq_def)
  qed
qed (simp_all add: spsc_enq_wf spsc_deq_wf)

section \<open>Properties\<close>

text \<open>C38. \<open>push\<close> on a well-formed ring appends the value when there is room, even if the cached head
  is stale, and otherwise reports \<open>RingFull\<close> and leaves the ring as it is; the producer's
  invariant survives either way. The positions may wrap.\<close>

theorem push_correct:
  assumes "ring_wf N r" and "producer_wf N r p" and "push N v (r, p) = (out, r', p')"
  shows "ring_wf N r' \<and> producer_wf N r' p' \<and>
     (if length (ring_contents N r) < unat N
      then out = Inr () \<and> ring_contents N r' = ring_contents N r @ [v]
      else out = Inl RingFull \<and> r' = r)"
  using push_spec [OF assms] by simp

lemma example_ring_wf:
  "ring_wf 4 \<lparr>magic = MAGIC, capacity = 4, ring_tail = 1, ring_head = -2, slots = [30, 40, 10, 20 :: nat]\<rparr>"
  by (simp add: ring_wf_def window_def is_power_of_two_def) code_simp

theorem push_correct_witness:
  "let r = \<lparr>magic = MAGIC, capacity = 4, ring_tail = 1, ring_head = -2,
            slots = [30, 40, 10, 20 :: nat]\<rparr>
   in case push 4 50 (r, Producer_new r) of
        (out, r', p') \<Rightarrow> out = Inr () \<and> ring_contents 4 r' = [10, 20, 30, 50]"
proof -
  let ?r = "\<lparr>magic = MAGIC, capacity = 4, ring_tail = 1, ring_head = -2,
             slots = [30, 40, 10, 20 :: nat]\<rparr>"
  obtain out r' p' where p: "push 4 50 (?r, Producer_new ?r) = (out, r', p')"
    by (cases "push 4 50 (?r, Producer_new ?r)") auto
  have "ring_contents 4 ?r = [10, 20, 30]" by code_simp
  with push_correct [OF example_ring_wf producer_wf_new [OF example_ring_wf] p] p
  show ?thesis by (simp add: unat_numeral)
qed

text \<open>\<open>pop\<close> on a well-formed ring takes the oldest value, even if the cached tail is stale, and
  returns \<open>None\<close> exactly when the ring is empty; the consumer's invariant survives.\<close>

theorem pop_correct:
  assumes "ring_wf N r" and "consumer_wf r c" and "pop N (r, c) = (out, r', c')"
  shows "ring_wf N r' \<and> consumer_wf r' c' \<and>
     (case ring_contents N r of
        [] \<Rightarrow> out = None \<and> r' = r
      | v # vs \<Rightarrow> out = Some v \<and> ring_contents N r' = vs)"
proof (cases "ring_contents N r")
  case Nil
  then have "window r = 0" using length_ring_contents [of N r] by simp
  with Nil pop_spec [OF assms] show ?thesis by auto
next
  case (Cons v vs)
  then have "window r \<noteq> 0" using length_ring_contents [of N r] by auto
  with Cons pop_spec [OF assms] show ?thesis by auto
qed

theorem pop_correct_witness:
  "let r = \<lparr>magic = MAGIC, capacity = 4, ring_tail = 1, ring_head = -2,
            slots = [30, 40, 10, 20 :: nat]\<rparr>
   in case pop 4 (r, Consumer_new r) of
        (out, r', c') \<Rightarrow> out = Some 10 \<and> ring_contents 4 r' = [20, 30]"
proof -
  let ?r = "\<lparr>magic = MAGIC, capacity = 4, ring_tail = 1, ring_head = -2,
             slots = [30, 40, 10, 20 :: nat]\<rparr>"
  obtain out r' c' where p: "pop 4 (?r, Consumer_new ?r) = (out, r', c')"
    by (cases "pop 4 (?r, Consumer_new ?r)") auto
  have "ring_contents 4 ?r = [10, 20, 30]" by code_simp
  with pop_correct [OF example_ring_wf consumer_wf_new p] p show ?thesis by simp
qed

text \<open>C16. A freshly attached ring refines a list of at most \<open>N\<close> elements: in any sequence of pushes and
  pops, a push is accepted exactly when fewer than \<open>N\<close> elements are waiting, a pop returns the oldest
  waiting element and \<open>None\<close> exactly when there is none, and the ring ends holding what the list
  holds. The positions may wrap and the cached ones may be stale.\<close>

theorem spsc_sequential_fifo:
  assumes "ring_wf N r"
    and "queue_results (spsc_enq N) (spsc_deq N) ops (spsc_open r) = (res, q')"
  shows "fifo_results (unat N) ops (ring_contents N r) = (res, spsc_contents N q')"
  using spscq.run_refines [OF spsc_wf_open [OF assms(1)] assms(2)]
  by (simp add: spsc_contents_def spsc_open_def)

text \<open>A ring of four slots holding three values, its positions about to wrap: one push fits, the next is
  refused, five pops empty it, the sixth finds nothing, and a push is accepted again.\<close>

theorem spsc_sequential_fifo_witness:
  "let r = \<lparr>magic = MAGIC, capacity = 4, ring_tail = 1, ring_head = -2,
            slots = [30, 40, 10, 20 :: nat]\<rparr>
   in case queue_results (spsc_enq 4) (spsc_deq 4)
             [Enq 50, Enq 60, Deq, Enq 70, Deq, Deq, Deq, Deq, Deq, Enq 80] (spsc_open r) of
        (res, q') \<Rightarrow>
          res = [Accepted, Refused, Taken 10, Accepted, Taken 20, Taken 30, Taken 50, Taken 70, Nothing,
                 Accepted] \<and> spsc_contents 4 q' = [80]"
proof -
  let ?r = "\<lparr>magic = MAGIC, capacity = 4, ring_tail = 1, ring_head = -2,
             slots = [30, 40, 10, 20 :: nat]\<rparr>"
  let ?ops = "[Enq 50, Enq 60, Deq, Enq 70, Deq, Deq, Deq, Deq, Deq, Enq 80]"
  obtain res q' where run: "queue_results (spsc_enq 4) (spsc_deq 4) ?ops (spsc_open ?r) = (res, q')"
    by (cases "queue_results (spsc_enq 4) (spsc_deq 4) ?ops (spsc_open ?r)") auto
  have contents: "ring_contents 4 ?r = [10, 20, 30]" by code_simp
  from spsc_sequential_fifo [OF example_ring_wf run] show ?thesis
    unfolding Let_def run prod.case contents by (simp add: unat_numeral)
qed

section \<open>Initialising and attaching\<close>

text \<open>
  The memory states that \<open>init_in_place\<close> leaves behind, store by store, on zeroed memory: the
  magic is published last.
\<close>

definition init_states :: "usize \<Rightarrow> 'a SpscRing \<Rightarrow> 'a SpscRing list" where
  "init_states N r =
     [r,
      r\<lparr>capacity := N\<rparr>,
      r\<lparr>capacity := N, ring_tail := 0\<rparr>,
      r\<lparr>capacity := N, ring_tail := 0, ring_head := 0\<rparr>,
      r\<lparr>capacity := N, ring_tail := 0, ring_head := 0, magic := MAGIC\<rparr>]"

lemma init_in_place_last:
  "place_ok N ptr \<Longrightarrow> magic r = 0 \<Longrightarrow> init_in_place N ptr r = Inr (last (init_states N r))"
  by (simp add: init_in_place_def init_states_def)

lemma magic_init_states:
  "magic r = 0 \<Longrightarrow> i < 5 \<Longrightarrow> magic (init_states N r ! i) = (if i = 4 then MAGIC else 0)"
  by (auto simp: init_states_def numeral_eq_Suc less_Suc_eq)

lemma capacity_init_states:
  "i < 5 \<Longrightarrow> i \<noteq> 0 \<Longrightarrow> capacity (init_states N r ! i) = N"
  by (auto simp: init_states_def numeral_eq_Suc less_Suc_eq)

lemma MAGIC_nonzero [simp]: "MAGIC \<noteq> 0"
  by (simp add: MAGIC_def)

lemma attach_loop_Inr:
  "attach_loop N obs i n = Inr u \<Longrightarrow>
   \<exists>k. i \<le> k \<and> k < i + n \<and> obs k = (MAGIC, N) \<and> (\<forall>j. i \<le> j \<and> j < k \<longrightarrow> fst (obs j) = 0)"
proof (induction n arbitrary: i)
  case (Suc n)
  show ?case
  proof (cases "fst (obs i) = MAGIC")
    case True
    with Suc.prems show ?thesis by (intro exI [of _ i]) (auto split: prod.splits if_splits)
  next
    case False
    with Suc.prems have zero: "fst (obs i) = 0" and rest: "attach_loop N obs (Suc i) n = Inr u"
      by (auto split: prod.splits if_splits)
    from Suc.IH [OF rest] obtain k where k: "Suc i \<le> k" "k < Suc i + n" "obs k = (MAGIC, N)"
      "\<forall>j. Suc i \<le> j \<and> j < k \<longrightarrow> fst (obs j) = 0" by blast
    have "fst (obs j) = 0" if "i \<le> j" "j < k" for j
      using that zero k(4) by (cases "j = i") (simp_all add: Suc_le_eq)
    with k show ?thesis by (intro exI [of _ k]) auto
  qed
qed simp

text \<open>\<open>attach\<close> succeeds only if, within its million iterations, it has seen the magic together
  with the expected capacity, and nothing but an unwritten magic before.\<close>

theorem attach_sound:
  assumes "attach N ptr obs = Inr (Inr ())"
  shows "place_ok N ptr \<and>
    (\<exists>k<1000000. obs k = (MAGIC, N) \<and> (\<forall>j<k. fst (obs j) = 0))"
  using assms attach_loop_Inr [of N obs 0 ATTACH_SPINS]
  by (auto simp: attach_def ATTACH_SPINS_def split: if_splits)

lemma attach_loop_first: "0 < n \<Longrightarrow> obs i = (MAGIC, N) \<Longrightarrow> attach_loop N obs i n = Inr ()"
  by (cases n) simp_all

theorem attach_sound_witness:
  "\<exists>k<1000000. (\<lambda>i::nat. (MAGIC, 4096 :: usize)) k = (MAGIC, 4096)"
proof -
  have "place_ok 4096 4096" by code_simp
  then have "attach 4096 4096 (\<lambda>i. (MAGIC, 4096)) = Inr (Inr ())"
    by (simp add: attach_def attach_loop_first ATTACH_SPINS_def)
  from attach_sound [OF this] show ?thesis by blast
qed

lemma attach_loop_init:
  assumes "magic r = 0" and "\<And>i. m i \<le> c i" and "\<And>i. c i < 5"
    and "obs = (\<lambda>i. (magic (init_states N r ! m i), capacity (init_states N r ! c i)))"
  shows "attach_loop N obs i n =
    (if \<exists>k. i \<le> k \<and> k < i + n \<and> m k = 4 then Inr () else Inl Uninitialized)"
proof (induction n arbitrary: i)
  case (Suc n)
  have mi: "m i < 5" using assms(2,3) le_less_trans by blast
  show ?case
  proof (cases "m i = 4")
    case True
    then have "capacity (init_states N r ! c i) = N"
      using assms(2) [of i] assms(3) [of i] by (intro capacity_init_states) auto
    moreover have "\<exists>k. i \<le> k \<and> k < i + Suc n \<and> m k = 4"
      using True by (intro exI [of _ i]) simp
    ultimately show ?thesis
      using assms(1,4) mi True by (simp add: magic_init_states)
  next
    case False
    then have "attach_loop N obs i (Suc n) = attach_loop N obs (Suc i) n"
      using assms(1,4) mi by (simp add: magic_init_states not_sym [OF MAGIC_nonzero])
    moreover have "(\<exists>k. i \<le> k \<and> k < i + Suc n \<and> m k = 4) \<longleftrightarrow>
        (\<exists>k. Suc i \<le> k \<and> k < Suc i + n \<and> m k = 4)"
      using False by (metis Suc_leD add_Suc add_Suc_right le_neq_implies_less Suc_leI)
    ultimately show ?thesis using Suc.IH [of "Suc i"] by simp
  qed
qed auto

text \<open>C17. Attaching while the peer runs \<open>init_in_place\<close> on zeroed memory is safe: whatever stores
  the two loads of each iteration happen to see (the capacity no earlier than the magic), the
  result is success if the finished magic is seen in time and \<open>uninitialized\<close> otherwise, never a
  capacity mismatch or a corrupt magic; and what is attached to is an empty ring.\<close>

theorem attach_during_init:
  assumes "place_ok N ptr" and "magic r = 0" and "\<And>i. m i \<le> c i" and "\<And>i. c i < 5"
  shows "attach N ptr (\<lambda>i. (magic (init_states N r ! m i), capacity (init_states N r ! c i))) =
      Inr (if \<exists>i<1000000. m i = 4 then Inr () else Inl Uninitialized) \<and>
    (\<exists>r'. init_in_place N ptr r = Inr r' \<and> r' = init_states N r ! 4 \<and> ring_contents N r' = [] \<and>
          init_in_place N ptr r' = Inr r')"
  using assms(1,2) attach_loop_init [OF assms(2-4) refl, where N = N and i = 0 and n = ATTACH_SPINS]
  by (simp add: attach_def ATTACH_SPINS_def init_in_place_def init_states_def ring_contents_def
      window_def)

theorem attach_during_init_witness:
  "let r = \<lparr>magic = 0, capacity = 0, ring_tail = 0, ring_head = 0, slots = [0, 0 :: nat]\<rparr>
   in attach 2 256 (\<lambda>i. (magic (init_states 2 r ! (if i < 3 then i else 4)),
                         capacity (init_states 2 r ! 4))) = Inr (Inr ())"
proof -
  let ?r = "\<lparr>magic = 0, capacity = 0, ring_tail = 0, ring_head = 0, slots = [0, 0 :: nat]\<rparr>"
  have place: "place_ok 2 256" by code_simp
  have "\<exists>i<1000000. (if i < 3 then i else 4 :: nat) = 4" by (rule exI [of _ 3]) simp
  with attach_during_init [OF place, where r = ?r and m = "\<lambda>i. if i < 3 then i else 4" and c = "\<lambda>i. 4"]
  show ?thesis by simp
qed

end
