(* ===== verification/Channel_Rings.thy ===== *)
theory Channel_Rings
  imports Protocol Spsc_Ring
begin

text \<open>
  The rings as both channel crates instantiate them, with \<open>RING_CAPACITY\<close> slots, and freshly
  initialised ones.
\<close>

lemma unat_RING_CAPACITY: "unat RING_CAPACITY = 4096"
  by (simp add: RING_CAPACITY_def)

lemma RING_CAPACITY_power: "is_power_of_two RING_CAPACITY"
proof -
  have "RING_CAPACITY = 2 ^ 12" by (simp add: RING_CAPACITY_def)
  moreover have "(12::nat) < 64" by simp
  ultimately show ?thesis unfolding is_power_of_two_iff by blast
qed

definition fresh_ring :: "'a \<Rightarrow> 'a SpscRing" where
  "fresh_ring x = \<lparr>magic = MAGIC, capacity = RING_CAPACITY, ring_tail = 0, ring_head = 0,
     slots = replicate 4096 x\<rparr>"

lemma spsc_open_ring [simp]: "sp_ring (spsc_open r) = r"
  by (simp add: spsc_open_def)

lemma fresh_ring_wf [simp]:
  "ring_wf RING_CAPACITY (fresh_ring x)" "window (fresh_ring x) = 0" "ring_contents RING_CAPACITY (fresh_ring x) = []"
  using RING_CAPACITY_power
  by (simp_all add: ring_wf_def fresh_ring_def window_def unat_RING_CAPACITY ring_contents_def)

lemma fresh_spsc [simp]:
  "spsc_wf RING_CAPACITY (spsc_open (fresh_ring x))"
  "spsc_contents RING_CAPACITY (spsc_open (fresh_ring x)) = []"
  by (simp_all add: spsc_wf_open spsc_contents_def)

end
