(* ===== verification/Service_Channel.thy ===== *)
theory Service_Channel
  imports Channel_Rings
begin

text \<open>
  \<open>atlas-service/src/channel.rs\<close> (and the ring ends of \<open>atlas-client/src/channel.rs\<close>): one instance's
  two rings as the service uses them once they are mapped and joined (theories Shm_Setup and
  Shm_Handshake hold that part). A channel holds the service's ends and, because the rings are shared,
  the client's ends as well: \<open>sc_req\<close> is the request ring with the client's producer \<open>req_tx\<close> and the
  service's consumer \<open>req_rx\<close>, \<open>sc_resp\<close> the response ring with \<open>resp_tx\<close> and \<open>resp_rx\<close>.
\<close>

section \<open>The channel\<close>

text \<open>
  \<open>sc_taken\<close> records the responses the client has popped, and \<open>sc_moves\<close> how many it pops at each of
  the coming yields of a service that waits for room. Neither is read by the code.
\<close>

record ServiceChannel =
  sc_req :: "IoRequest spsc"
  sc_resp :: "IoResponse spsc"
  sc_instance :: u32
  sc_taken :: "IoResponse list"
  sc_moves :: "nat list"

definition poll_request :: "ServiceChannel \<Rightarrow> IoRequest option \<times> ServiceChannel" where
  "poll_request c =
     (case spsc_deq RING_CAPACITY (sc_req c) of (out, q) \<Rightarrow> (out, c\<lparr>sc_req := q\<rparr>))"

text \<open>The peer at work: it pops up to \<open>k\<close> responses.\<close>

primrec client_takes :: "nat \<Rightarrow> ServiceChannel \<Rightarrow> ServiceChannel" where
  "client_takes 0 c = c"
| "client_takes (Suc k) c =
     (case spsc_deq RING_CAPACITY (sc_resp c) of
        (None, q) \<Rightarrow> c\<lparr>sc_resp := q\<rparr>
      | (Some r, q) \<Rightarrow> client_takes k (c\<lparr>sc_resp := q, sc_taken := sc_taken c @ [r]\<rparr>))"

text \<open>The loop of \<open>send_response\<close>. When the ring is full the service yields and the peer makes its
  next move; a service that waits for a peer that never moves again spins for ever.\<close>

fun send_loop :: "nat list \<Rightarrow> IoResponse \<Rightarrow> ServiceChannel \<Rightarrow> ServiceChannel exec" where
  "send_loop moves resp c =
     (case spsc_enq RING_CAPACITY resp (sc_resp c) of
        (Inr _, q) \<Rightarrow> Inr (c\<lparr>sc_resp := q, sc_moves := moves\<rparr>)
      | (Inl _, q) \<Rightarrow>
          (case moves of
             [] \<Rightarrow> Inl Spin
           | k # ks \<Rightarrow> send_loop ks resp (client_takes k (c\<lparr>sc_resp := q\<rparr>))))"

declare send_loop.simps [simp del]

definition send_response :: "IoResponse \<Rightarrow> ServiceChannel \<Rightarrow> ServiceChannel exec" where
  "send_response resp c = send_loop (sc_moves c) resp c"

text \<open>The first loop body of the client's \<open>send_request\<close>: one attempt to push the request.\<close>

definition client_push :: "IoRequest \<Rightarrow> ServiceChannel \<Rightarrow> (RingFull + unit) \<times> ServiceChannel" where
  "client_push req c =
     (case spsc_enq RING_CAPACITY req (sc_req c) of (out, q) \<Rightarrow> (out, c\<lparr>sc_req := q\<rparr>))"

section \<open>Invariant and contents\<close>

definition chan_wf :: "ServiceChannel \<Rightarrow> bool" where
  "chan_wf c \<longleftrightarrow> spsc_wf RING_CAPACITY (sc_req c) \<and> spsc_wf RING_CAPACITY (sc_resp c)"

abbreviation requests :: "ServiceChannel \<Rightarrow> IoRequest list" where
  "requests c \<equiv> spsc_contents RING_CAPACITY (sc_req c)"

text \<open>Every response ever sent on the channel, in order.\<close>

definition resp_log :: "ServiceChannel \<Rightarrow> IoResponse list" where
  "resp_log c = sc_taken c @ spsc_contents RING_CAPACITY (sc_resp c)"

text \<open>How many responses can certainly be sent: the free slots, and one for each of the peer's moves
  that takes something.\<close>

definition credit :: "ServiceChannel \<Rightarrow> nat" where
  "credit c = (unat RING_CAPACITY - length (spsc_contents RING_CAPACITY (sc_resp c))) +
     length (filter (\<lambda>k. 0 < k) (sc_moves c))"

lemma client_takes_spec:
  assumes "spsc_wf RING_CAPACITY (sc_resp c)"
  shows "spsc_wf RING_CAPACITY (sc_resp (client_takes k c)) \<and>
    resp_log (client_takes k c) = resp_log c \<and> sc_req (client_takes k c) = sc_req c \<and>
    sc_instance (client_takes k c) = sc_instance c \<and>
    length (spsc_contents RING_CAPACITY (sc_resp (client_takes k c))) =
      length (spsc_contents RING_CAPACITY (sc_resp c)) - k"
  using assms
proof (induction k arbitrary: c)
  case (Suc k)
  obtain out q where d: "spsc_deq RING_CAPACITY (sc_resp c) = (out, q)" by force
  have wf: "spsc_wf RING_CAPACITY q" using Suc.prems d by (rule spscq.invar_step(2))
  show ?case
  proof (cases out)
    case None
    then show ?thesis
      using d wf spscq.deq_cases [OF Suc.prems d] by (auto simp: resp_log_def)
  next
    case (Some r)
    then have "spsc_contents RING_CAPACITY (sc_resp c) = r # spsc_contents RING_CAPACITY q"
      using spscq.deq_cases [OF Suc.prems d] by auto
    then show ?thesis
      using d Some Suc.IH [of "c\<lparr>sc_resp := q, sc_taken := sc_taken c @ [r]\<rparr>"] wf
      by (simp add: resp_log_def)
  qed
qed simp

lemma send_loop_spec:
  assumes "chan_wf c" "send_loop moves resp c = Inr c'"
  shows "chan_wf c' \<and> resp_log c' = resp_log c @ [resp] \<and> sc_req c' = sc_req c \<and>
    sc_instance c' = sc_instance c"
  using assms
proof (induction moves arbitrary: c)
  case Nil
  obtain out q where e: "spsc_enq RING_CAPACITY resp (sc_resp c) = (out, q)" by force
  have wf: "spsc_wf RING_CAPACITY (sc_resp c)" using Nil.prems(1) by (simp add: chan_wf_def)
  from Nil.prems(2) e obtain u where "out = Inr u" "c' = c\<lparr>sc_resp := q, sc_moves := []\<rparr>"
    by (auto simp: send_loop.simps [of "[]"] split: sum.splits)
  then show ?case
    using Nil.prems(1) spscq.enq_cases [OF wf e] spscq.invar_step(1) [OF wf e]
    by (auto simp: chan_wf_def resp_log_def)
next
  case (Cons k ks)
  obtain out q where e: "spsc_enq RING_CAPACITY resp (sc_resp c) = (out, q)" by force
  have wf: "spsc_wf RING_CAPACITY (sc_resp c)" using Cons.prems(1) by (simp add: chan_wf_def)
  have wfq: "spsc_wf RING_CAPACITY q" using wf e by (rule spscq.invar_step(1))
  show ?case
  proof (cases out)
    case (Inr u)
    then have "c' = c\<lparr>sc_resp := q, sc_moves := k # ks\<rparr>"
      using Cons.prems(2) e by (simp add: send_loop.simps [of "k # ks"])
    then show ?thesis
      using Cons.prems(1) spscq.enq_cases [OF wf e] wfq Inr by (auto simp: chan_wf_def resp_log_def)
  next
    case (Inl f)
    let ?c = "c\<lparr>sc_resp := q\<rparr>"
    have same: "resp_log ?c = resp_log c"
      using spscq.enq_cases [OF wf e] Inl by (auto simp: resp_log_def)
    note t = client_takes_spec [of ?c k]
    have "chan_wf (client_takes k ?c)" using Cons.prems(1) t wfq by (simp add: chan_wf_def)
    moreover have "send_loop ks resp (client_takes k ?c) = Inr c'"
      using Cons.prems(2) e Inl by (simp add: send_loop.simps [of "k # ks"])
    ultimately show ?thesis using Cons.IH t wfq same by auto
  qed
qed

lemma send_loop_credit:
  assumes "chan_wf c" "0 < credit (c\<lparr>sc_moves := moves\<rparr>)"
  shows "\<exists>c'. send_loop moves resp c = Inr c' \<and> credit (c\<lparr>sc_moves := moves\<rparr>) \<le> Suc (credit c')"
  using assms
proof (induction moves arbitrary: c)
  case Nil
  obtain out q where e: "spsc_enq RING_CAPACITY resp (sc_resp c) = (out, q)" by force
  have wf: "spsc_wf RING_CAPACITY (sc_resp c)" using Nil.prems(1) by (simp add: chan_wf_def)
  have "length (spsc_contents RING_CAPACITY (sc_resp c)) < unat RING_CAPACITY"
    using Nil.prems(2) by (simp add: credit_def)
  then have "out = Inr ()" "spsc_contents RING_CAPACITY q = spsc_contents RING_CAPACITY (sc_resp c) @ [resp]"
    using spscq.enq_cases [OF wf e] by auto
  then show ?case
    using e by (simp add: send_loop.simps [of "[]"] credit_def)
next
  case (Cons k ks)
  obtain out q where e: "spsc_enq RING_CAPACITY resp (sc_resp c) = (out, q)" by force
  have wf: "spsc_wf RING_CAPACITY (sc_resp c)" using Cons.prems(1) by (simp add: chan_wf_def)
  have wfq: "spsc_wf RING_CAPACITY q" using wf e by (rule spscq.invar_step(1))
  show ?case
  proof (cases out)
    case (Inr u)
    then have "spsc_contents RING_CAPACITY q = spsc_contents RING_CAPACITY (sc_resp c) @ [resp]"
      using spscq.enq_cases [OF wf e] by auto
    then show ?thesis
      using e Inr by (simp add: send_loop.simps [of "k # ks"] credit_def)
  next
    case (Inl f)
    let ?c = "client_takes k (c\<lparr>sc_resp := q\<rparr>)"
    have full: "length (spsc_contents RING_CAPACITY q) = unat RING_CAPACITY"
      "length (spsc_contents RING_CAPACITY (sc_resp c)) = unat RING_CAPACITY"
      using spscq.enq_cases [OF wf e] Inl by auto
    note t = client_takes_spec [of "c\<lparr>sc_resp := q\<rparr>" k]
    have wf': "chan_wf ?c" using Cons.prems(1) t wfq by (simp add: chan_wf_def)
    have cr: "credit (c\<lparr>sc_moves := k # ks\<rparr>) \<le> credit (?c\<lparr>sc_moves := ks\<rparr>)"
      using t wfq full by (simp add: credit_def unat_RING_CAPACITY) arith
    with Cons.prems(2) have "0 < credit (?c\<lparr>sc_moves := ks\<rparr>)" by simp
    from Cons.IH [OF wf' this] cr show ?thesis
      using e Inl by (auto simp: send_loop.simps [of "k # ks"])
  qed
qed

lemma send_response_spec:
  "chan_wf c \<Longrightarrow> send_response resp c = Inr c' \<Longrightarrow>
   chan_wf c' \<and> resp_log c' = resp_log c @ [resp] \<and> sc_req c' = sc_req c \<and>
   sc_instance c' = sc_instance c"
  using send_loop_spec by (simp add: send_response_def)

lemma send_response_credit:
  "chan_wf c \<Longrightarrow> 0 < credit c \<Longrightarrow> \<exists>c'. send_response resp c = Inr c' \<and> credit c \<le> Suc (credit c')"
  using send_loop_credit [of c "sc_moves c" resp] by (simp add: send_response_def)

section \<open>Sending to one of many channels\<close>

text \<open>What a sequence of sends adds to the log of channel \<open>k\<close>.\<close>

definition sent :: "(nat \<times> IoResponse) list \<Rightarrow> nat \<Rightarrow> IoResponse list" where
  "sent xs k = map snd (filter (\<lambda>x. fst x = k) xs)"

lemma sent_simps [simp]:
  "sent [] k = []" "sent (xs @ ys) k = sent xs k @ sent ys k"
  "sent (x # xs) k = (if fst x = k then snd x # sent xs k else sent xs k)"
  by (simp_all add: sent_def)

text \<open>
  The interface of whatever responses are sent to: an append-only log per channel. It is what the
  service's proofs use of the channels.
\<close>

locale response_sink =
  fixes send :: "nat \<Rightarrow> IoResponse \<Rightarrow> 's \<Rightarrow> 's exec"
    and log :: "'s \<Rightarrow> nat \<Rightarrow> IoResponse list"
    and rest :: "'s \<Rightarrow> 'r"
    and room :: "'s \<Rightarrow> nat \<Rightarrow> nat"
    and valid :: "'s \<Rightarrow> nat \<Rightarrow> bool"
    and invar :: "'s \<Rightarrow> bool"
  assumes send_log: "invar s \<Longrightarrow> send k r s = Inr s' \<Longrightarrow>
      valid s k \<and> invar s' \<and> log s' = (log s)(k := log s k @ [r]) \<and> rest s' = rest s"
    and send_room: "invar s \<Longrightarrow> valid s k \<Longrightarrow> 0 < room s k \<Longrightarrow> \<exists>s'. send k r s = Inr s'"
    and send_cost: "invar s \<Longrightarrow> send k r s = Inr s' \<Longrightarrow>
      room s j \<le> room s' j + (if j = k then 1 else 0)"
    and valid_rest: "rest s' = rest s \<Longrightarrow> valid s' = valid s"
begin

lemma sends_log:
  assumes "fold_exec (\<lambda>s x. send (fst x) (snd x) s) s xs = Inr s'" "invar s"
  shows "invar s' \<and> rest s' = rest s \<and> (\<forall>k. log s' k = log s k @ sent xs k) \<and>
    (\<forall>k. room s k \<le> room s' k + length (sent xs k))"
  using assms
proof (induction xs arbitrary: s)
  case (Cons x xs)
  from Cons.prems(1) obtain t where t: "send (fst x) (snd x) s = Inr t"
    and r: "fold_exec (\<lambda>s x. send (fst x) (snd x) s) t xs = Inr s'"
    by (auto elim: and_then_InrE)
  note l = send_log [OF Cons.prems(2) t]
  have "room s k \<le> room s' k + length (sent (x # xs) k)" for k
    using send_cost [OF Cons.prems(2) t, of k] Cons.IH [OF r] l
    by (auto split: if_splits dest!: spec [of _ k])
  with Cons.IH [OF r] l show ?case by simp
qed simp

lemma sends_total:
  assumes "invar s" "\<forall>x \<in> set xs. valid s (fst x)"
    and "\<forall>k. length (sent xs k) \<le> room s k"
  shows "\<exists>s'. fold_exec (\<lambda>s x. send (fst x) (snd x) s) s xs = Inr s'"
  using assms
proof (induction xs arbitrary: s)
  case (Cons x xs)
  have "0 < length (sent (x # xs) (fst x))" by simp
  then have "0 < room s (fst x)" using Cons.prems(3) le_trans less_le_trans by blast
  from send_room [OF Cons.prems(1) _ this, of "snd x"] Cons.prems(2) obtain t
    where t: "send (fst x) (snd x) s = Inr t" by auto
  note rm = send_cost [OF Cons.prems(1) t]
  note l = send_log [OF Cons.prems(1) t]
  have v: "valid t = valid s" using l by (intro valid_rest) simp
  have le: "length (sent xs k) \<le> room t k" for k
    using rm [of k] Cons.prems(3) [rule_format, of k] by (auto split: if_splits)
  have "\<exists>s'. fold_exec (\<lambda>s x. send (fst x) (snd x) s) t xs = Inr s'"
    using Cons.IH [of t] l le v Cons.prems(2) by auto
  with t show ?case by auto
qed simp

end

definition send_to :: "nat \<Rightarrow> IoResponse \<Rightarrow> ServiceChannel list \<Rightarrow> ServiceChannel list exec" where
  "send_to k resp cs =
     (if k < length cs then
        and_then (send_response resp (cs ! k)) (\<lambda>c. Inr (cs[k := c]))
      else Inl Index_Range)"

definition chans_wf :: "ServiceChannel list \<Rightarrow> bool" where
  "chans_wf cs \<longleftrightarrow> (\<forall>c \<in> set cs. chan_wf c)"

definition chan_log :: "ServiceChannel list \<Rightarrow> nat \<Rightarrow> IoResponse list" where
  "chan_log cs k = (if k < length cs then resp_log (cs ! k) else [])"

definition chan_rest :: "ServiceChannel list \<Rightarrow> (IoRequest spsc \<times> u32) list" where
  "chan_rest cs = map (\<lambda>c. (sc_req c, sc_instance c)) cs"

definition chan_credit :: "ServiceChannel list \<Rightarrow> nat \<Rightarrow> nat" where
  "chan_credit cs k = (if k < length cs then credit (cs ! k) else 0)"

lemma chan_rest_length: "chan_rest cs' = chan_rest cs \<Longrightarrow> length cs' = length cs"
  by (metis chan_rest_def length_map)

lemma chan_rest_update:
  assumes "k < length cs" "sc_req c = sc_req (cs ! k)" "sc_instance c = sc_instance (cs ! k)"
  shows "chan_rest (cs[k := c]) = chan_rest cs"
proof (rule nth_equalityI)
  fix i assume "i < length (chan_rest (cs[k := c]))"
  then show "chan_rest (cs[k := c]) ! i = chan_rest cs ! i"
    using assms(2,3) by (cases "i = k") (simp_all add: chan_rest_def)
qed (simp add: chan_rest_def)

lemma chans_wf_update: "chans_wf cs \<Longrightarrow> chan_wf c \<Longrightarrow> chans_wf (cs[k := c])"
  using set_update_subset_insert [of cs k c] by (auto simp: chans_wf_def)

interpretation chans: response_sink send_to chan_log chan_rest chan_credit
  "\<lambda>cs k. k < length cs" chans_wf
proof
  fix cs k r cs'
  assume wf: "chans_wf cs" and s: "send_to k r cs = Inr cs'"
  then obtain c where k: "k < length cs" and c: "send_response r (cs ! k) = Inr c"
    and cs': "cs' = cs[k := c]" by (auto simp: send_to_def elim: and_then_InrE split: if_splits)
  have "chan_wf (cs ! k)" using wf k by (simp add: chans_wf_def)
  note sp = send_response_spec [OF this c]
  have "chan_rest cs' = chan_rest cs"
    unfolding cs' using k sp by (intro chan_rest_update) simp_all
  moreover have "chans_wf cs'"
    unfolding cs' using wf sp by (intro chans_wf_update) simp_all
  moreover have "chan_log cs' = (chan_log cs)(k := chan_log cs k @ [r])"
    using sp k by (auto simp: chan_log_def cs' nth_list_update fun_eq_iff)
  ultimately show "k < length cs \<and> chans_wf cs' \<and> chan_log cs' = (chan_log cs)(k := chan_log cs k @ [r]) \<and>
    chan_rest cs' = chan_rest cs" using k by simp
next
  fix cs k r
  assume wf: "chans_wf cs" and k: "k < length cs" and cr: "0 < chan_credit cs k"
  have "chan_wf (cs ! k)" using wf k by (simp add: chans_wf_def)
  moreover have "0 < credit (cs ! k)" using cr k by (simp add: chan_credit_def)
  ultimately obtain c where "send_response r (cs ! k) = Inr c" using send_response_credit by blast
  with k show "\<exists>s'. send_to k r cs = Inr s'" by (simp add: send_to_def)
next
  fix cs k r cs' j
  assume wf: "chans_wf cs" and s: "send_to k r cs = Inr cs'"
  then obtain c where k: "k < length cs" and c: "send_response r (cs ! k) = Inr c"
    and cs': "cs' = cs[k := c]" by (auto simp: send_to_def elim: and_then_InrE split: if_splits)
  have "chan_wf (cs ! k)" using wf k by (simp add: chans_wf_def)
  then have "credit (cs ! k) \<le> Suc (credit c)"
    using send_response_credit [of "cs ! k" r] c by (cases "credit (cs ! k)") auto
  then show "chan_credit cs j \<le> chan_credit cs' j + (if j = k then 1 else 0)"
    using k by (simp add: chan_credit_def cs' nth_list_update)
next
  fix cs cs' :: "ServiceChannel list"
  assume "chan_rest cs' = chan_rest cs"
  then show "(\<lambda>k. k < length cs') = (\<lambda>k. k < length cs)"
    using chan_rest_length [of cs' cs] by simp
qed

section \<open>Polling\<close>

definition polls_left :: "ServiceChannel \<Rightarrow> nat" where
  "polls_left c = pops_left (sc_req c)"

lemma poll_request_decreases: "poll_request c = (Some r, c') \<Longrightarrow> polls_left c' < polls_left c"
  by (auto simp: poll_request_def polls_left_def split: prod.splits dest: spsc_deq_decreases)

lemma poll_request_spec:
  assumes "chan_wf c" "poll_request c = (out, c')"
  shows "chan_wf c' \<and> resp_log c' = resp_log c \<and> credit c' = credit c \<and>
    (case out of None \<Rightarrow> requests c = [] \<and> requests c' = []
     | Some r \<Rightarrow> requests c = r # requests c')"
proof -
  obtain q where d: "spsc_deq RING_CAPACITY (sc_req c) = (out, q)" and c': "c' = c\<lparr>sc_req := q\<rparr>"
    using assms(2) by (auto simp: poll_request_def split: prod.splits)
  have wf: "spsc_wf RING_CAPACITY (sc_req c)" using assms(1) by (simp add: chan_wf_def)
  show ?thesis
    using assms(1) spscq.deq_cases [OF wf d] spscq.invar_step(2) [OF wf d]
    by (auto simp: c' chan_wf_def resp_log_def credit_def split: option.splits)
qed

lemma client_push_spec:
  assumes "chan_wf c" "client_push r c = (out, c')"
  shows "chan_wf c' \<and> resp_log c' = resp_log c \<and> credit c' = credit c \<and>
    (case out of Inr _ \<Rightarrow> requests c' = requests c @ [r] | Inl _ \<Rightarrow> requests c' = requests c)"
proof -
  obtain q where d: "spsc_enq RING_CAPACITY r (sc_req c) = (out, q)" and c': "c' = c\<lparr>sc_req := q\<rparr>"
    using assms(2) by (auto simp: client_push_def split: prod.splits)
  have wf: "spsc_wf RING_CAPACITY (sc_req c)" using assms(1) by (simp add: chan_wf_def)
  show ?thesis
    using assms(1) spscq.enq_cases [OF wf d] spscq.invar_step(1) [OF wf d]
    by (auto simp: c' chan_wf_def resp_log_def credit_def split: sum.splits)
qed

section \<open>The clients between two iterations\<close>

text \<open>A client pushes a request (it retries when the ring is full) or takes responses.\<close>

datatype client_move = Pushes nat IoRequest | Takes nat nat

definition client_move :: "client_move \<Rightarrow> ServiceChannel list \<Rightarrow> ServiceChannel list" where
  "client_move m cs =
     (case m of
        Pushes k r \<Rightarrow> if k < length cs then cs[k := snd (client_push r (cs ! k))] else cs
      | Takes k n \<Rightarrow> if k < length cs then cs[k := client_takes n (cs ! k)] else cs)"

text \<open>The requests a move puts into the ring of channel \<open>k\<close>.\<close>

definition move_accepted :: "client_move \<Rightarrow> ServiceChannel list \<Rightarrow> nat \<Rightarrow> IoRequest list" where
  "move_accepted m cs k =
     (case m of
        Pushes j r \<Rightarrow> if j = k \<and> j < length cs \<and> fst (client_push r (cs ! j)) = Inr () then [r] else []
      | Takes _ _ \<Rightarrow> [])"

primrec client_moves :: "client_move list \<Rightarrow> ServiceChannel list \<Rightarrow> ServiceChannel list" where
  "client_moves [] cs = cs"
| "client_moves (m # ms) cs = client_moves ms (client_move m cs)"

primrec accepted :: "client_move list \<Rightarrow> ServiceChannel list \<Rightarrow> nat \<Rightarrow> IoRequest list" where
  "accepted [] cs k = []"
| "accepted (m # ms) cs k = move_accepted m cs k @ accepted ms (client_move m cs) k"

lemma client_move_spec:
  assumes "chans_wf cs"
  shows "chans_wf (client_move m cs) \<and> length (client_move m cs) = length cs \<and>
    chan_log (client_move m cs) = chan_log cs \<and>
    (\<forall>k < length cs. requests (client_move m cs ! k) = requests (cs ! k) @ move_accepted m cs k)"
proof (cases m)
  case (Pushes j r)
  obtain out c where p: "client_push r (cs ! j) = (out, c)" by force
  show ?thesis
  proof (cases "j < length cs")
    case True
    have "chan_wf (cs ! j)" using assms True by (simp add: chans_wf_def)
    note sp = client_push_spec [OF this p]
    have "chan_log (cs[j := c]) = chan_log cs"
      using sp True by (auto simp: chan_log_def nth_list_update fun_eq_iff)
    moreover have "requests (cs[j := c] ! k) = requests (cs ! k) @ move_accepted m cs k" if "k < length cs" for k
      using sp True p Pushes by (cases "j = k") (auto simp: move_accepted_def split: sum.splits)
    ultimately show ?thesis
      using True Pushes p chans_wf_update [OF assms, of c j] sp by (simp add: client_move_def)
  qed (use Pushes assms in \<open>auto simp: client_move_def move_accepted_def\<close>)
next
  case (Takes j n)
  show ?thesis
  proof (cases "j < length cs")
    case True
    have wf: "chan_wf (cs ! j)" using assms True by (simp add: chans_wf_def)
    let ?c = "client_takes n (cs ! j)"
    have sp: "chan_wf ?c" "resp_log ?c = resp_log (cs ! j)" "sc_req ?c = sc_req (cs ! j)"
      using client_takes_spec [of "cs ! j" n] wf by (auto simp: chan_wf_def)
    have "chan_log (cs[j := ?c]) = chan_log cs"
      using sp True by (auto simp: chan_log_def nth_list_update fun_eq_iff)
    moreover have "requests (cs[j := ?c] ! k) = requests (cs ! k)" if "k < length cs" for k
      using sp True by (cases "j = k") auto
    ultimately show ?thesis
      using True Takes chans_wf_update [OF assms sp(1), of j] by (simp add: client_move_def move_accepted_def)
  qed (use Takes assms in \<open>auto simp: client_move_def move_accepted_def\<close>)
qed

lemma client_moves_spec:
  assumes "chans_wf cs"
  shows "chans_wf (client_moves ms cs) \<and> length (client_moves ms cs) = length cs \<and>
    chan_log (client_moves ms cs) = chan_log cs \<and>
    (\<forall>k < length cs. requests (client_moves ms cs ! k) = requests (cs ! k) @ accepted ms cs k)"
  using assms
proof (induction ms arbitrary: cs)
  case (Cons m ms)
  note sp = client_move_spec [OF Cons.prems, of m]
  from Cons.IH [of "client_move m cs"] sp show ?case by auto
qed simp

end
