(* ===== verification/Service.thy ===== *)
theory Service
  imports Pipeline Executor Service_Channel
begin

text \<open>
  \<open>atlas-service/src/service.rs\<close>: the service state, the handlers, the execution of one drained
  round and the polling loop. The executor and the pipeline stage are arguments, as they are type
  parameters of the struct; \<open>'w\<close> is the executor's state (with the files and the mapped memory it
  acts on), \<open>'s\<close> the stage's.
\<close>

section \<open>State\<close>

record ('w, 's) AtlasService =
  channels :: "ServiceChannel list"
  fd_table :: "u64 \<Rightarrow> i32 option"
  next_fd :: u64
  stage :: 's
  executor :: 'w

definition with_pipeline :: "'w \<Rightarrow> 's \<Rightarrow> ('w, 's) AtlasService" where
  "with_pipeline w s =
     \<lparr>channels = [], fd_table = (\<lambda>_. None), next_fd = 1, stage = s, executor = w\<rparr>"

text \<open>\<open>AtlasService::new\<close>: no batching unless a stage is chosen.\<close>

definition AtlasService_new :: "'w \<Rightarrow> ('w, PassThrough) AtlasService" where
  "AtlasService_new w = with_pipeline w PassThrough_new"

text \<open>\<open>register\<close>, given what joining the instance's segments yields.\<close>

definition register ::
  "'e + ServiceChannel \<Rightarrow> ('w, 's) AtlasService \<Rightarrow> ('e + unit) \<times> ('w, 's) AtlasService" where
  "register joined_ch svc =
     (case joined_ch of
        Inl e \<Rightarrow> (Inl e, svc)
      | Inr c \<Rightarrow> (Inr (), svc\<lparr>channels := channels svc @ [c]\<rparr>))"

definition svc_send :: "nat \<Rightarrow> IoResponse \<Rightarrow> ('w, 's) AtlasService \<Rightarrow> ('w, 's) AtlasService exec" where
  "svc_send k resp svc =
     and_then (send_to k resp (channels svc)) (\<lambda>cs. Inr (svc\<lparr>channels := cs\<rparr>))"

text \<open>The loop \<open>for (id, _, _) in &op.sources\<close> that reports one error to every source.\<close>

definition send_errors :: "MergedOp \<Rightarrow> i32 \<Rightarrow> ('w, 's) AtlasService \<Rightarrow> ('w, 's) AtlasService exec" where
  "send_errors op st svc =
     fold_exec (\<lambda>svc src. svc_send (mo_channel op) (IoResponse_err (fst src) st) svc) svc (mo_sources op)"

section \<open>Structural operations\<close>

definition handle_open ::
  "profile \<Rightarrow> 'w IoExecutor \<Rightarrow> IoRequest \<Rightarrow> ('w, 's) AtlasService \<Rightarrow>
   (IoResponse \<times> ('w, 's) AtlasService) exec" where
  "handle_open p E req svc =
     (case ex_open E (executor svc) (path_str req) (rq_len req) 420 of (rc, w) \<Rightarrow>
        let svc1 = svc\<lparr>executor := w\<rparr> in
        if negative rc then Inr (IoResponse_err (rq_id req) (i64_as_i32 rc), svc1)
        else
          let vfd = next_fd svc1 in
          and_then (uadd p (next_fd svc1) 1) (\<lambda>nf.
            Inr ((IoResponse_ok (rq_id req))\<lparr>rs_fd := vfd\<rparr>,
                 svc1\<lparr>next_fd := nf, fd_table := (fd_table svc1)(vfd \<mapsto> i64_as_i32 rc)\<rparr>)))"

definition handle_close ::
  "'w IoExecutor \<Rightarrow> IoRequest \<Rightarrow> ('w, 's) AtlasService \<Rightarrow> IoResponse \<times> ('w, 's) AtlasService" where
  "handle_close E req svc =
     (case fd_table svc (rq_fd req) of
        None \<Rightarrow> (IoResponse_err (rq_id req) (- EBADF), svc)
      | Some real_fd \<Rightarrow>
          let svc1 = svc\<lparr>fd_table := (fd_table svc)(rq_fd req := None)\<rparr> in
          case ex_close E (executor svc1) real_fd of (rc, w) \<Rightarrow>
            let svc2 = svc1\<lparr>executor := w\<rparr> in
            if negative rc then (IoResponse_err (rq_id req) (i64_as_i32 rc), svc2)
            else (IoResponse_ok (rq_id req), svc2))"

section \<open>Data operations\<close>

text \<open>The buffer is \<open>data.ptr().add(req.data_offset)\<close> of the operation's channel; the offset and the
  length are not compared with the size of the region. Indexing the vector of channels can panic.\<close>

definition data_buf :: "MergedOp \<Rightarrow> ('w, 's) AtlasService \<Rightarrow> buf exec" where
  "data_buf op svc =
     (if mo_channel op < length (channels svc)
      then Inr (mo_channel op, unat (rq_data_offset (mo_req op))) else Inl Index_Range)"

definition prepare_read ::
  "MergedOp \<Rightarrow> ('w, 's) AtlasService \<Rightarrow> (BatchOp option \<times> ('w, 's) AtlasService) exec" where
  "prepare_read op svc =
     (case fd_table svc (rq_fd (mo_req op)) of
        None \<Rightarrow> and_then (send_errors op (- EBADF) svc) (\<lambda>svc1. Inr (None, svc1))
      | Some real_fd \<Rightarrow> and_then (data_buf op svc) (\<lambda>b.
          Inr (Some (BatchOp_new (Pread real_fd b (as_u64 (rq_len (mo_req op))) (rq_offset (mo_req op)))),
               svc)))"

definition prepare_write ::
  "MergedOp \<Rightarrow> ('w, 's) AtlasService \<Rightarrow> (BatchOp option \<times> ('w, 's) AtlasService) exec" where
  "prepare_write op svc =
     (case fd_table svc (rq_fd (mo_req op)) of
        None \<Rightarrow> and_then (send_errors op (- EBADF) svc) (\<lambda>svc1. Inr (None, svc1))
      | Some real_fd \<Rightarrow> and_then (data_buf op svc) (\<lambda>b.
          Inr (Some (BatchOp_new (Pwrite real_fd b (as_u64 (rq_len (mo_req op))) (rq_offset (mo_req op)))),
               svc)))"

definition prepare_fsync ::
  "MergedOp \<Rightarrow> ('w, 's) AtlasService \<Rightarrow> (BatchOp option \<times> ('w, 's) AtlasService) exec" where
  "prepare_fsync op svc =
     (case fd_table svc (rq_fd (mo_req op)) of
        None \<Rightarrow> and_then
          (svc_send (mo_channel op) (IoResponse_err (rq_id (mo_req op)) (- EBADF)) svc)
          (\<lambda>svc1. Inr (None, svc1))
      | Some real_fd \<Rightarrow> Inr (Some (BatchOp_new (Fsync real_fd)), svc))"

section \<open>Responses\<close>

text \<open>One response of the success branch of \<open>send_read_responses\<close>, for a read that returned \<open>n\<close>.\<close>

definition read_response ::
  "profile \<Rightarrow> IoRequest \<Rightarrow> i64 \<Rightarrow> u64 \<times> u32 \<times> u32 \<Rightarrow> IoResponse exec" where
  "read_response p req n src =
     (case src of (i, offset_within, orig_len) \<Rightarrow>
        and_then (uadd p (rq_data_offset req) offset_within) (\<lambda>doff.
        and_then
          (if sint (as_u64 offset_within) < sint n
           then and_then (usub p (as_u32 n) offset_within) (\<lambda>left. Inr (min left orig_len))
           else Inr 0)
          (\<lambda>dlen. Inr ((IoResponse_ok i)\<lparr>rs_data_offset := doff, rs_data_len := dlen\<rparr>))))"

definition send_read_responses ::
  "profile \<Rightarrow> MergedOp \<Rightarrow> i64 \<Rightarrow> ('w, 's) AtlasService \<Rightarrow> ('w, 's) AtlasService exec" where
  "send_read_responses p op n svc =
     (if negative n then send_errors op (i64_as_i32 n) svc
      else fold_exec (\<lambda>svc src. and_then (read_response p (mo_req op) n src)
                                  (\<lambda>resp. svc_send (mo_channel op) resp svc))
             svc (mo_sources op))"

text \<open>One response of the success branch of \<open>send_write_responses\<close>.\<close>

definition write_response :: "u64 \<times> u32 \<times> u32 \<Rightarrow> IoResponse" where
  "write_response src = (case src of (i, _, orig_len) \<Rightarrow> (IoResponse_ok i)\<lparr>rs_data_len := orig_len\<rparr>)"

definition send_write_responses ::
  "MergedOp \<Rightarrow> i64 \<Rightarrow> ('w, 's) AtlasService \<Rightarrow> ('w, 's) AtlasService exec" where
  "send_write_responses op n svc =
     (if negative n then send_errors op (i64_as_i32 n) svc
      else fold_exec (\<lambda>svc src. svc_send (mo_channel op) (write_response src) svc) svc (mo_sources op))"

definition send_fsync_response ::
  "MergedOp \<Rightarrow> i64 \<Rightarrow> ('w, 's) AtlasService \<Rightarrow> ('w, 's) AtlasService exec" where
  "send_fsync_response op n svc =
     svc_send (mo_channel op)
       (if negative n then IoResponse_err (rq_id (mo_req op)) (i64_as_i32 n)
        else IoResponse_ok (rq_id (mo_req op))) svc"

section \<open>A round\<close>

text \<open>The state of the first loop: the service, the batch, and for each batch entry the index of its
  operation in the round.\<close>

type_synonym ('w, 's) round_state = "('w, 's) AtlasService \<times> BatchOp list \<times> nat list"

definition keep ::
  "nat \<Rightarrow> BatchOp list \<Rightarrow> nat list \<Rightarrow> BatchOp option \<times> ('w, 's) AtlasService \<Rightarrow> ('w, 's) round_state" where
  "keep i batch origin r =
     (case r of
        (Some bop, svc) \<Rightarrow> (svc, batch @ [bop], origin @ [i])
      | (None, svc) \<Rightarrow> (svc, batch, origin))"

definition round_step ::
  "profile \<Rightarrow> 'w IoExecutor \<Rightarrow> ('w, 's) round_state \<Rightarrow> nat \<times> MergedOp \<Rightarrow> ('w, 's) round_state exec" where
  "round_step p E st x =
     (case st of (svc, batch, origin) \<Rightarrow> case x of (i, op) \<Rightarrow>
        (case op_from_u8 (rq_op (mo_req op)) of
           Some Open \<Rightarrow>
             and_then (handle_open p E (mo_req op) svc) (\<lambda>r. case r of (resp, svc1) \<Rightarrow>
             and_then (svc_send (mo_channel op) resp svc1) (\<lambda>svc2. Inr (svc2, batch, origin)))
         | Some Close \<Rightarrow>
             (case handle_close E (mo_req op) svc of (resp, svc1) \<Rightarrow>
             and_then (svc_send (mo_channel op) resp svc1) (\<lambda>svc2. Inr (svc2, batch, origin)))
         | Some Read \<Rightarrow> and_then (prepare_read op svc) (\<lambda>r. Inr (keep i batch origin r))
         | Some Write \<Rightarrow> and_then (prepare_write op svc) (\<lambda>r. Inr (keep i batch origin r))
         | Some Sync \<Rightarrow> and_then (prepare_fsync op svc) (\<lambda>r. Inr (keep i batch origin r))
         | None \<Rightarrow>
             and_then (svc_send (mo_channel op) (IoResponse_err (rq_id (mo_req op)) (- 1)) svc)
               (\<lambda>svc1. Inr (svc1, batch, origin))))"

definition finish_step ::
  "profile \<Rightarrow> MergedOp list \<Rightarrow> ('w, 's) AtlasService \<Rightarrow> BatchOp \<times> nat \<Rightarrow> ('w, 's) AtlasService exec" where
  "finish_step p ops svc x =
     (case x of (bop, orig_idx) \<Rightarrow>
        if orig_idx < length ops then
          (let op = ops ! orig_idx in
           case bo_kind bop of
             Pread _ _ _ _ \<Rightarrow> send_read_responses p op (bo_result bop) svc
           | Pwrite _ _ _ _ \<Rightarrow> send_write_responses op (bo_result bop) svc
           | Fsync _ \<Rightarrow> send_fsync_response op (bo_result bop) svc)
        else Inl Index_Range)"

definition execute_round ::
  "profile \<Rightarrow> 'w IoExecutor \<Rightarrow> MergedOp list \<Rightarrow> ('w, 's) AtlasService \<Rightarrow> ('w, 's) AtlasService exec" where
  "execute_round p E ops svc =
     and_then (fold_exec (round_step p E) (svc, [], []) (enumerate 0 ops)) (\<lambda>st.
       case st of (svc1, batch, origin) \<Rightarrow>
         if batch = [] then Inr svc1
         else and_then (ex_batch E (executor svc1) batch) (\<lambda>r. case r of (batch', w) \<Rightarrow>
           fold_exec (finish_step p ops) (svc1\<lparr>executor := w\<rparr>) (zip batch' origin)))"

section \<open>The polling loop\<close>

text \<open>The inner \<open>while let\<close>: it ends because each request popped uses up what the consumer may pop.
  (A client that refilled the ring as fast as it is emptied could keep the loop going; here the
  requests that arrive during the loop are those that are in the ring when it begins.)\<close>

function poll_channel ::
  "('s \<Rightarrow> IoRequest \<Rightarrow> nat \<Rightarrow> 's) \<Rightarrow> nat \<Rightarrow> ServiceChannel \<Rightarrow> 's \<Rightarrow> bool \<Rightarrow> ServiceChannel \<times> 's \<times> bool" where
  "poll_channel add i c s did_work =
     (case poll_request c of
        (None, c') \<Rightarrow> (c', s, did_work)
      | (Some req, c') \<Rightarrow> poll_channel add i c' (add s req i) True)"
  by pat_completeness auto
termination
  by (relation "measure (\<lambda>(add, i, c, s, w). polls_left c)") (auto dest!: poll_request_decreases [OF sym])

declare poll_channel.simps [simp del]

primrec poll_channels ::
  "'s Pipeline \<Rightarrow> nat list \<Rightarrow> ('w, 's) AtlasService \<Rightarrow> bool \<Rightarrow> ('w, 's) AtlasService \<times> bool" where
  "poll_channels Pl [] svc did_work = (svc, did_work)"
| "poll_channels Pl (i # is) svc did_work =
     (case poll_channel (pl_add Pl) i (channels svc ! i) (stage svc) did_work of
        (c, s, d) \<Rightarrow> poll_channels Pl is (svc\<lparr>channels := (channels svc)[i := c], stage := s\<rparr>) d)"

text \<open>One iteration of \<open>run\<close>; the flag says whether it found work.\<close>

definition serve_round ::
  "profile \<Rightarrow> 'w IoExecutor \<Rightarrow> 's Pipeline \<Rightarrow> ('w, 's) AtlasService \<Rightarrow>
   (('w, 's) AtlasService \<times> bool) exec" where
  "serve_round p E Pl svc =
     (case poll_channels Pl [0..<length (channels svc)] svc False of (svc1, did_work) \<Rightarrow>
      and_then
        (if \<not> pl_is_empty Pl (stage svc1) then
           and_then (pl_drain Pl p (stage svc1)) (\<lambda>r. case r of (ops, s) \<Rightarrow>
             execute_round p E ops (svc1\<lparr>stage := s\<rparr>))
         else Inr svc1)
        (\<lambda>svc2. Inr (svc2, did_work)))"

text \<open>\<open>run\<close> until the flag is cleared: before each iteration that finds it set, the environment (the
  clients) acts on the channels.\<close>

primrec run_service ::
  "profile \<Rightarrow> 'w IoExecutor \<Rightarrow> 's Pipeline \<Rightarrow> client_move list list \<Rightarrow>
   ('w, 's) AtlasService \<Rightarrow> ('w, 's) AtlasService exec" where
  "run_service p E Pl [] svc = Inr svc"
| "run_service p E Pl (ms # mss) svc =
     and_then (serve_round p E Pl (svc\<lparr>channels := client_moves ms (channels svc)\<rparr>))
       (\<lambda>r. run_service p E Pl mss (fst r))"

text \<open>The requests that the ring of channel \<open>k\<close> accepts in the course of a run.\<close>

primrec run_accepted ::
  "profile \<Rightarrow> 'w IoExecutor \<Rightarrow> 's Pipeline \<Rightarrow> client_move list list \<Rightarrow> ('w, 's) AtlasService \<Rightarrow> nat \<Rightarrow>
   IoRequest list" where
  "run_accepted p E Pl [] svc k = []"
| "run_accepted p E Pl (ms # mss) svc k =
     accepted ms (channels svc) k @
       (case serve_round p E Pl (svc\<lparr>channels := client_moves ms (channels svc)\<rparr>) of
          Inl _ \<Rightarrow> []
        | Inr r \<Rightarrow> run_accepted p E Pl mss (fst r) k)"

end
