(* ===== verification/Service_Answers.thy ===== *)
theory Service_Answers
  imports Service
begin

text \<open>
  What the operations of the service send: every handler, both loops of a round and the whole iteration
  are accounted for as lists of responses, one for each source of each operation.
\<close>

section \<open>What the operations send\<close>

text \<open>\<open>emits svc xs svc'\<close>: between the two states exactly the responses \<open>xs\<close> were sent, each on its
  channel and in this order, the requests waiting in the channels were left alone, and each
  response used up at most one unit of its channel's credit.\<close>

definition emits ::
  "('w, 's) AtlasService \<Rightarrow> (nat \<times> IoResponse) list \<Rightarrow> ('w, 's) AtlasService \<Rightarrow> bool" where
  "emits svc xs svc' \<longleftrightarrow> chans_wf (channels svc') \<and>
     chan_rest (channels svc') = chan_rest (channels svc) \<and>
     (\<forall>k. chan_log (channels svc') k = chan_log (channels svc) k @ sent xs k) \<and>
     (\<forall>k. chan_credit (channels svc) k \<le> chan_credit (channels svc') k + length (sent xs k))"

text \<open>All of the state but the channels.\<close>

definition same_core :: "('w, 's) AtlasService \<Rightarrow> ('w, 's) AtlasService \<Rightarrow> bool" where
  "same_core svc svc' \<longleftrightarrow> fd_table svc' = fd_table svc \<and> next_fd svc' = next_fd svc \<and>
     stage svc' = stage svc \<and> executor svc' = executor svc"

lemma same_core_trans: "same_core a b \<Longrightarrow> same_core b c \<Longrightarrow> same_core a c"
  by (simp add: same_core_def)

lemma emits_wf: "emits svc xs svc' \<Longrightarrow> chans_wf (channels svc')"
  by (simp add: emits_def)

lemma emits_length: "emits svc xs svc' \<Longrightarrow> length (channels svc') = length (channels svc)"
  by (auto simp: emits_def dest: chan_rest_length)

lemma emits_Nil: "chans_wf (channels svc) \<Longrightarrow> channels svc' = channels svc \<Longrightarrow> emits svc [] svc'"
  by (simp add: emits_def)

lemma emits_trans: "emits a xs b \<Longrightarrow> emits b ys c \<Longrightarrow> emits a (xs @ ys) c"
  unfolding emits_def by (intro conjI allI) (auto simp: algebra_simps intro: order_trans dest!: spec)

lemma emits_channels:
  "channels a = channels a' \<Longrightarrow> channels b = channels b' \<Longrightarrow> emits a xs b = emits a' xs b'"
  by (simp add: emits_def)

text \<open>Every function that answers sends a list of responses.\<close>

definition send_list ::
  "(nat \<times> IoResponse) list \<Rightarrow> ('w, 's) AtlasService \<Rightarrow> ('w, 's) AtlasService exec" where
  "send_list xs svc = fold_exec (\<lambda>svc x. svc_send (fst x) (snd x) svc) svc xs"

lemma send_list_simps [simp]:
  "send_list [] svc = Inr svc"
  "send_list (x # xs) svc = and_then (svc_send (fst x) (snd x) svc) (send_list xs)"
  by (simp_all add: send_list_def and_then_def split: sum.split)

lemma send_list_channels:
  "send_list xs svc =
     and_then (fold_exec (\<lambda>cs x. send_to (fst x) (snd x) cs) (channels svc) xs)
       (\<lambda>cs. Inr (svc\<lparr>channels := cs\<rparr>))"
proof (induction xs arbitrary: svc)
  case (Cons x xs)
  show ?case
    by (cases "send_to (fst x) (snd x) (channels svc)") (simp_all add: svc_send_def Cons.IH)
qed simp

lemma send_list_emits:
  assumes "chans_wf (channels svc)" "send_list xs svc = Inr svc'"
  shows "emits svc xs svc' \<and> same_core svc svc'"
proof -
  from assms(2) obtain cs where
    f: "fold_exec (\<lambda>cs x. send_to (fst x) (snd x) cs) (channels svc) xs = Inr cs"
    and svc': "svc' = svc\<lparr>channels := cs\<rparr>"
    unfolding send_list_channels by (auto elim: and_then_InrE)
  from chans.sends_log [OF f assms(1)] show ?thesis
    by (simp add: emits_def same_core_def svc')
qed

lemma send_list_total:
  assumes "chans_wf (channels svc)" "\<forall>x \<in> set xs. fst x < length (channels svc)"
    and "\<forall>k. length (sent xs k) \<le> chan_credit (channels svc) k"
  shows "\<exists>svc'. send_list xs svc = Inr svc'"
  using chans.sends_total [OF assms] by (auto simp: send_list_channels)

lemma svc_send_list: "svc_send k r svc = send_list [(k, r)] svc"
  by (cases "svc_send k r svc") simp_all

lemma send_errors_list:
  "send_errors op st svc =
     send_list (map (\<lambda>src. (mo_channel op, IoResponse_err (fst src) st)) (mo_sources op)) svc"
proof -
  have "fold_exec (\<lambda>svc src. svc_send k (IoResponse_err (fst src) st) svc) svc ss =
      send_list (map (\<lambda>src. (k, IoResponse_err (fst src) st)) ss) svc" for k and ss :: "(u64 \<times> u32 \<times> u32) list"
    by (induction ss arbitrary: svc) (auto simp: and_then_def split: sum.splits)
  then show ?thesis by (simp add: send_errors_def)
qed

lemma send_write_list:
  "send_write_responses op n svc =
     (if negative n then send_errors op (i64_as_i32 n) svc
      else send_list (map (\<lambda>src. (mo_channel op, write_response src)) (mo_sources op)) svc)"
proof -
  have "fold_exec (\<lambda>svc src. svc_send k (write_response src) svc) svc ss =
      send_list (map (\<lambda>src. (k, write_response src)) ss) svc" for k ss
    by (induction ss arbitrary: svc) (auto simp: and_then_def split: sum.splits)
  then show ?thesis by (simp add: send_write_responses_def)
qed

lemma send_read_list:
  assumes "fold_exec (\<lambda>svc src. and_then (read_response p req n src) (\<lambda>resp. svc_send k resp svc)) svc ss
    = Inr svc'"
  shows "\<exists>rs. list_all2 (\<lambda>src r. read_response p req n src = Inr r) ss rs \<and>
    send_list (map (Pair k) rs) svc = Inr svc'"
  using assms
proof (induction ss arbitrary: svc)
  case (Cons s ss)
  from Cons.prems obtain r t where r: "read_response p req n s = Inr r" and t: "svc_send k r svc = Inr t"
    and rest: "fold_exec (\<lambda>svc src. and_then (read_response p req n src)
      (\<lambda>resp. svc_send k resp svc)) t ss = Inr svc'"
    by (auto elim!: and_then_InrE)
  from Cons.IH [OF rest] obtain rs where "list_all2 (\<lambda>src r. read_response p req n src = Inr r) ss rs"
    "send_list (map (Pair k) rs) t = Inr svc'" by blast
  with r t show ?case by (intro exI [of _ "r # rs"]) simp
qed simp

lemma send_read_list_eq:
  assumes "\<forall>src \<in> set ss. read_response p req n src = Inr (f src)"
  shows "fold_exec (\<lambda>svc src. and_then (read_response p req n src) (\<lambda>resp. svc_send k resp svc)) svc ss =
    send_list (map (\<lambda>src. (k, f src)) ss) svc"
  using assms by (induction ss arbitrary: svc) (auto simp: and_then_def split: sum.splits)

lemma read_response_id: "read_response p req n src = Inr r \<Longrightarrow> rs_id r = fst src"
  by (auto simp: read_response_def split: prod.splits elim!: and_then_InrE)

section \<open>One answer per source\<close>

definition op_keys :: "MergedOp \<Rightarrow> (nat \<times> u64) list" where
  "op_keys op = map (\<lambda>src. (mo_channel op, fst src)) (mo_sources op)"

definition keys :: "(nat \<times> IoResponse) list \<Rightarrow> (nat \<times> u64) list" where
  "keys xs = map (\<lambda>x. (fst x, rs_id (snd x))) xs"

lemma keys_simps [simp]:
  "keys [] = []" "keys (x # xs) = (fst x, rs_id (snd x)) # keys xs" "keys (xs @ ys) = keys xs @ keys ys"
  by (simp_all add: keys_def)

lemma op_keys_single: "sources_ok op \<Longrightarrow> op_from_u8 (rq_op (mo_req op)) \<notin> {Some Read, Some Write} \<Longrightarrow>
    op_keys op = [(mo_channel op, rq_id (mo_req op))]"
  by (auto simp: sources_ok_def op_keys_def)

lemma send_one_emits:
  assumes "chans_wf (channels svc)" "svc_send k r svc = Inr svc'"
  shows "emits svc [(k, r)] svc'" "same_core svc svc'"
  using send_list_emits [OF assms(1) assms(2) [unfolded svc_send_list]] by blast+

lemma send_errors_emits:
  assumes "chans_wf (channels svc)" "send_errors op st svc = Inr svc'"
  shows "\<exists>xs. emits svc xs svc' \<and> keys xs = op_keys op \<and> same_core svc svc'"
  using send_list_emits [OF assms(1) assms(2) [unfolded send_errors_list]]
  by (intro exI [of _ "map (\<lambda>src. (mo_channel op, IoResponse_err (fst src) st)) (mo_sources op)"])
    (simp add: keys_def op_keys_def)

lemma send_write_emits:
  assumes "chans_wf (channels svc)" "send_write_responses op n svc = Inr svc'"
  shows "\<exists>xs. emits svc xs svc' \<and> keys xs = op_keys op \<and> same_core svc svc'"
proof (cases "negative n")
  case True
  with assms show ?thesis by (simp add: send_write_list send_errors_emits)
next
  case False
  let ?xs = "map (\<lambda>src. (mo_channel op, write_response src)) (mo_sources op)"
  have "emits svc ?xs svc' \<and> same_core svc svc'"
    using send_list_emits [OF assms(1)] assms(2) False by (simp add: send_write_list)
  moreover have "keys ?xs = op_keys op" by (auto simp: keys_def op_keys_def write_response_def)
  ultimately show ?thesis by blast
qed

lemma send_read_emits:
  assumes "chans_wf (channels svc)" "send_read_responses p op n svc = Inr svc'"
  shows "\<exists>xs. emits svc xs svc' \<and> keys xs = op_keys op \<and> same_core svc svc'"
proof (cases "negative n")
  case True
  with assms show ?thesis by (simp add: send_read_responses_def send_errors_emits)
next
  case False
  then obtain rs where rs: "list_all2 (\<lambda>src r. read_response p (mo_req op) n src = Inr r) (mo_sources op) rs"
    and s: "send_list (map (Pair (mo_channel op)) rs) svc = Inr svc'"
    using assms(2) send_read_list by (force simp: send_read_responses_def)
  have "map rs_id rs = map fst (mo_sources op)"
    using rs by (induction rule: list_all2_induct) (auto dest: read_response_id)
  then have "map (Pair (mo_channel op)) (map rs_id rs) = map (Pair (mo_channel op)) (map fst (mo_sources op))"
    by (rule arg_cong)
  then have "keys (map (Pair (mo_channel op)) rs) = op_keys op"
    by (simp add: keys_def op_keys_def o_def)
  with send_list_emits [OF assms(1) s] show ?thesis by blast
qed

lemma handle_open_frame:
  assumes "handle_open p E req svc = Inr (resp, svc')"
  shows "channels svc' = channels svc" "stage svc' = stage svc" "rs_id resp = rq_id req"
  using assms by (auto simp: handle_open_def Let_def split: prod.splits if_splits elim!: and_then_InrE)

lemma handle_close_frame:
  assumes "handle_close E req svc = (resp, svc')"
  shows "channels svc' = channels svc" "stage svc' = stage svc" "rs_id resp = rq_id req"
  using assms by (auto simp: handle_close_def Let_def split: prod.splits if_splits option.splits)

text \<open>The batch entry of a data operation on the descriptor \<open>fd\<close>.\<close>

definition entry_kind :: "MergedOp \<Rightarrow> i32 \<Rightarrow> BatchKind" where
  "entry_kind op fd =
     (let r = mo_req op; b = (mo_channel op, unat (rq_data_offset r)) in
      case op_from_u8 (rq_op r) of
        Some Read \<Rightarrow> Pread fd b (as_u64 (rq_len r)) (rq_offset r)
      | Some Write \<Rightarrow> Pwrite fd b (as_u64 (rq_len r)) (rq_offset r)
      | _ \<Rightarrow> Fsync fd)"

definition data_op :: "MergedOp \<Rightarrow> bool" where
  "data_op op \<longleftrightarrow> op_from_u8 (rq_op (mo_req op)) \<in> {Some Read, Some Write, Some Sync}"

text \<open>A preparation either answers every source and adds nothing to the batch, or sends nothing and
  adds one entry.\<close>

definition prepared ::
  "MergedOp \<Rightarrow> ('w, 's) AtlasService \<Rightarrow> BatchOp option \<times> ('w, 's) AtlasService \<Rightarrow> bool" where
  "prepared op svc r =
     (case r of
        (None, svc') \<Rightarrow> same_core svc svc' \<and> fd_table svc (rq_fd (mo_req op)) = None \<and>
          (\<exists>xs. emits svc xs svc' \<and> keys xs = op_keys op)
      | (Some bop, svc') \<Rightarrow> svc' = svc \<and>
          (\<exists>fd. fd_table svc (rq_fd (mo_req op)) = Some fd \<and> bop = BatchOp_new (entry_kind op fd)))"

lemma prepared_send:
  assumes "fd_table svc (rq_fd (mo_req op)) = None" "same_core svc svc'"
    and "emits svc xs svc'" "keys xs = op_keys op"
  shows "prepared op svc (None, svc')"
  using assms by (auto simp: prepared_def)

lemma prepared_errors:
  assumes "chans_wf (channels svc)" "fd_table svc (rq_fd (mo_req op)) = None"
    and "send_errors op st svc = Inr svc'"
  shows "prepared op svc (None, svc')"
  using send_errors_emits [OF assms(1,3)] assms(2) prepared_send by blast

lemma prepared_Some:
  "fd_table svc (rq_fd (mo_req op)) = Some fd \<Longrightarrow>
   prepared op svc (Some (BatchOp_new (entry_kind op fd)), svc)"
  by (simp add: prepared_def)

lemma prepare_prepared:
  assumes "chans_wf (channels svc)" "sources_ok op"
  shows "op_from_u8 (rq_op (mo_req op)) = Some Read \<Longrightarrow> prepare_read op svc = Inr r \<Longrightarrow> prepared op svc r"
    and "op_from_u8 (rq_op (mo_req op)) = Some Write \<Longrightarrow> prepare_write op svc = Inr r \<Longrightarrow> prepared op svc r"
    and "op_from_u8 (rq_op (mo_req op)) = Some Sync \<Longrightarrow> prepare_fsync op svc = Inr r \<Longrightarrow> prepared op svc r"
proof -
  let ?fd = "fd_table svc (rq_fd (mo_req op))"
  show "prepared op svc r" if "op_from_u8 (rq_op (mo_req op)) = Some Read" "prepare_read op svc = Inr r"
    using that prepared_errors [OF assms(1)] prepared_Some [of svc op]
    by (cases ?fd) (auto simp: prepare_read_def data_buf_def entry_kind_def Let_def split: if_splits
        elim!: and_then_InrE)
  show "prepared op svc r" if "op_from_u8 (rq_op (mo_req op)) = Some Write" "prepare_write op svc = Inr r"
    using that prepared_errors [OF assms(1)] prepared_Some [of svc op]
    by (cases ?fd) (auto simp: prepare_write_def data_buf_def entry_kind_def Let_def split: if_splits
        elim!: and_then_InrE)
  assume k: "op_from_u8 (rq_op (mo_req op)) = Some Sync" and f: "prepare_fsync op svc = Inr r"
  show "prepared op svc r"
  proof (cases ?fd)
    case None
    with f obtain svc1 where r: "r = (None, svc1)"
      and s: "svc_send (mo_channel op) (IoResponse_err (rq_id (mo_req op)) (- EBADF)) svc = Inr svc1"
      by (auto simp: prepare_fsync_def elim!: and_then_InrE)
    show ?thesis
      unfolding r by (rule prepared_send [OF None send_one_emits(2,1) [OF assms(1) s]])
        (use op_keys_single [OF assms(2)] k in simp)
  next
    case (Some fd)
    with f k show ?thesis
      using prepared_Some [OF Some] by (auto simp: prepare_fsync_def entry_kind_def Let_def)
  qed
qed

text \<open>One step of the first loop: an operation is answered at once, or deferred with its entry.\<close>

definition deferred ::
  "MergedOp \<Rightarrow> ('w, 's) AtlasService \<Rightarrow> BatchOp \<Rightarrow> bool" where
  "deferred op svc bop \<longleftrightarrow> data_op op \<and>
     (\<exists>fd. fd_table svc (rq_fd (mo_req op)) = Some fd \<and> bop = BatchOp_new (entry_kind op fd))"

text \<open>One step of the first loop either sends an answer at once or keeps what \<open>prepare_*\<close> returned.\<close>

lemma round_stepE:
  assumes "round_step p E (svc, batch, origin) (i, op) = Inr (svc', batch', origin')"
  obtains (sent) resp svc1 where "svc_send (mo_channel op) resp svc1 = Inr svc'"
      "channels svc1 = channels svc" "stage svc1 = stage svc" "rs_id resp = rq_id (mo_req op)"
      "op_from_u8 (rq_op (mo_req op)) \<notin> {Some Read, Some Write}" "batch' = batch" "origin' = origin"
      "svc1 = svc \<or> handle_open p E (mo_req op) svc = Inr (resp, svc1) \<or> handle_close E (mo_req op) svc = (resp, svc1)"
  | (kept) r where "data_op op" "keep i batch origin r = (svc', batch', origin')"
      "op_from_u8 (rq_op (mo_req op)) = Some Read \<and> prepare_read op svc = Inr r \<or>
       op_from_u8 (rq_op (mo_req op)) = Some Write \<and> prepare_write op svc = Inr r \<or>
       op_from_u8 (rq_op (mo_req op)) = Some Sync \<and> prepare_fsync op svc = Inr r"
proof (cases "op_from_u8 (rq_op (mo_req op))")
  case None
  with assms show thesis
    by (intro sent [of "IoResponse_err (rq_id (mo_req op)) (- 1)" svc])
      (auto simp: round_step_def elim!: and_then_InrE)
next
  case (Some x)
  show thesis
  proof (cases x)
    case Open
    with Some assms obtain resp svc1 where "handle_open p E (mo_req op) svc = Inr (resp, svc1)"
      "svc_send (mo_channel op) resp svc1 = Inr svc'" "batch' = batch" "origin' = origin"
      by (auto simp: round_step_def elim!: and_then_InrE)
    with handle_open_frame Some Open show thesis by (intro sent [of resp svc1]) auto
  next
    case Close
    with Some assms obtain resp svc1 where "handle_close E (mo_req op) svc = (resp, svc1)"
      "svc_send (mo_channel op) resp svc1 = Inr svc'" "batch' = batch" "origin' = origin"
      by (auto simp: round_step_def split: prod.splits elim!: and_then_InrE)
    with handle_close_frame Some Close show thesis by (intro sent [of resp svc1]) auto
  qed (use assms Some kept in \<open>auto simp: round_step_def data_op_def elim!: and_then_InrE\<close>)
qed

lemma round_step_emits:
  assumes "round_step p E (svc, batch, origin) (i, op) = Inr (svc', batch', origin')"
    and "chans_wf (channels svc)" "sources_ok op"
  shows "stage svc' = stage svc \<and> (\<exists>xs. emits svc xs svc' \<and>
     ((keys xs = op_keys op \<and> batch' = batch \<and> origin' = origin) \<or>
      (xs = [] \<and> (\<exists>bop. batch' = batch @ [bop] \<and> deferred op svc bop) \<and> origin' = origin @ [i])))"
  using assms(1)
proof (cases rule: round_stepE)
  case (sent resp svc1)
  have wf: "chans_wf (channels svc1)" using assms(2) sent(2) by simp
  have "emits svc [(mo_channel op, resp)] svc'"
    using send_one_emits(1) [OF wf sent(1)] sent(2) by (simp add: emits_def)
  moreover have "keys [(mo_channel op, resp)] = op_keys op"
    using op_keys_single [OF assms(3) sent(5)] sent(4) by simp
  ultimately show ?thesis
    using sent(3,6,7) send_one_emits(2) [OF wf sent(1)] by (auto simp: same_core_def)
next
  case (kept r)
  then have "prepared op svc r" using prepare_prepared [OF assms(2,3)] by blast
  with kept(1,2) emits_Nil [OF assms(2)] show ?thesis
    by (cases r) (auto simp: prepared_def deferred_def keep_def same_core_def split: option.splits)
qed

definition entry_for :: "MergedOp \<Rightarrow> BatchOp \<Rightarrow> bool" where
  "entry_for op bop \<longleftrightarrow> data_op op \<and> (\<exists>fd. bop = BatchOp_new (entry_kind op fd))"

lemma deferred_entry: "deferred op svc bop \<Longrightarrow> entry_for op bop"
  by (auto simp: deferred_def entry_for_def)

text \<open>The first loop over the operations \<open>all\<close> from index \<open>n\<close>: what is not answered is deferred.\<close>

lemma first_loop_emits:
  assumes "fold_exec (round_step p E) (svc, batch, origin) (enumerate n ops) = Inr (svc', batch', origin')"
    and "chans_wf (channels svc)" "\<forall>op \<in> set ops. sources_ok op" "ops = drop n all"
  shows "\<exists>xs idx bs. emits svc xs svc' \<and> batch' = batch @ bs \<and> origin' = origin @ idx \<and>
    list_all2 (\<lambda>j b. j < length all \<and> entry_for (all ! j) b) idx bs \<and>
    mset (keys xs) + mset (concat (map (\<lambda>j. op_keys (all ! j)) idx)) = mset (concat (map op_keys ops)) \<and>
    stage svc' = stage svc"
  using assms
proof (induction ops arbitrary: n svc batch origin)
  case Nil
  then show ?case by (auto intro!: exI [of _ "[]"] emits_Nil)
next
  case (Cons op ops)
  from Cons.prems(1) obtain svc1 b1 o1 where
    s: "round_step p E (svc, batch, origin) (n, op) = Inr (svc1, b1, o1)"
    and rest: "fold_exec (round_step p E) (svc1, b1, o1) (enumerate (Suc n) ops) = Inr (svc', batch', origin')"
    by (auto elim!: and_then_InrE)
  have n: "n < length all" "all ! n = op" "ops = drop (Suc n) all"
    using Cons.prems(4) by (metis drop_eq_Nil leI list.distinct(1), metis nth_via_drop,
        metis drop_Suc list.sel(3) tl_drop)
  have "sources_ok op" using Cons.prems(3) by simp
  from round_step_emits [OF s Cons.prems(2) this] obtain ys where st: "stage svc1 = stage svc"
    and ys: "emits svc ys svc1" and alt:
      "(keys ys = op_keys op \<and> b1 = batch \<and> o1 = origin) \<or>
       (ys = [] \<and> (\<exists>bop. b1 = batch @ [bop] \<and> deferred op svc bop) \<and> o1 = origin @ [n])" by blast
  from Cons.IH [OF rest emits_wf [OF ys] _ n(3)] Cons.prems(3) obtain xs idx bs where
    ih: "emits svc1 xs svc'" "batch' = b1 @ bs" "origin' = o1 @ idx"
      "list_all2 (\<lambda>j b. j < length all \<and> entry_for (all ! j) b) idx bs"
      "mset (keys xs) + mset (concat (map (\<lambda>j. op_keys (all ! j)) idx)) = mset (concat (map op_keys ops))"
      "stage svc' = stage svc1" by auto
  have em: "emits svc (ys @ xs) svc'" using ys ih(1) by (rule emits_trans)
  from alt show ?case
  proof (elim disjE conjE exE)
    assume "keys ys = op_keys op" "b1 = batch" "o1 = origin"
    with em ih st show ?thesis
      by (intro exI [of _ "ys @ xs"] exI [of _ idx] exI [of _ bs]) (simp add: add.assoc)
  next
    fix bop
    assume "ys = []" "b1 = batch @ [bop]" "deferred op svc bop" "o1 = origin @ [n]"
    with em ih st n show ?thesis
      by (intro exI [of _ xs] exI [of _ "n # idx"] exI [of _ "bop # bs"])
        (simp add: deferred_entry add.left_commute)
  qed
qed

text \<open>The second loop answers every deferred operation. The batch comes back with the kinds it was
  given (the executor's contract), and the kind decides which function answers.\<close>

lemma finish_step_emits:
  assumes "finish_step p all svc (bop, j) = Inr svc'" "chans_wf (channels svc)"
    and "\<forall>op \<in> set all. sources_ok op" "bo_kind bop = bo_kind b" "entry_for (all ! j) b"
  shows "j < length all \<and> same_core svc svc' \<and> (\<exists>xs. emits svc xs svc' \<and> keys xs = op_keys (all ! j))"
proof -
  have j: "j < length all" using assms(1) by (simp add: finish_step_def split: if_splits)
  then have ok: "sources_ok (all ! j)" using assms(3) by simp
  obtain fd where k: "bo_kind bop = entry_kind (all ! j) fd" and d: "data_op (all ! j)"
    using assms(4,5) by (auto simp: entry_for_def BatchOp_new_def)
  have fsync: ?thesis if "op_from_u8 (rq_op (mo_req (all ! j))) = Some Sync"
    "send_fsync_response (all ! j) (bo_result bop) svc = Inr svc'"
  proof -
    from that(2) obtain r where s: "svc_send (mo_channel (all ! j)) r svc = Inr svc'"
      and id: "rs_id r = rq_id (mo_req (all ! j))"
      by (auto simp: send_fsync_response_def split: if_splits)
    show ?thesis
      using j send_one_emits [OF assms(2) s] op_keys_single [OF ok] that(1) id
      by (auto intro!: exI [of _ "[(mo_channel (all ! j), r)]"])
  qed
  from d consider (r) "op_from_u8 (rq_op (mo_req (all ! j))) = Some Read"
    | (w) "op_from_u8 (rq_op (mo_req (all ! j))) = Some Write"
    | (f) "op_from_u8 (rq_op (mo_req (all ! j))) = Some Sync" by (auto simp: data_op_def)
  then show ?thesis
  proof cases
    case r
    with assms(1) j k have "send_read_responses p (all ! j) (bo_result bop) svc = Inr svc'"
      by (simp add: finish_step_def entry_kind_def Let_def)
    from send_read_emits [OF assms(2) this] j show ?thesis by blast
  next
    case w
    with assms(1) j k have "send_write_responses (all ! j) (bo_result bop) svc = Inr svc'"
      by (simp add: finish_step_def entry_kind_def Let_def)
    from send_write_emits [OF assms(2) this] j show ?thesis by blast
  next
    case f
    with assms(1) j k have "send_fsync_response (all ! j) (bo_result bop) svc = Inr svc'"
      by (simp add: finish_step_def entry_kind_def Let_def)
    with f show ?thesis by (rule fsync)
  qed
qed

lemma second_loop_emits:
  assumes "fold_exec (finish_step p all) svc (zip batch' idx) = Inr svc'" "chans_wf (channels svc)"
    and "\<forall>op \<in> set all. sources_ok op"
    and "list_all2 (\<lambda>j b. j < length all \<and> entry_for (all ! j) b) idx bs"
    and "map bo_kind batch' = map bo_kind bs"
  shows "\<exists>xs. emits svc xs svc' \<and> same_core svc svc' \<and>
    keys xs = concat (map (\<lambda>j. op_keys (all ! j)) idx)"
  using assms(4,5,1,2)
proof (induction idx bs arbitrary: svc batch' rule: list_all2_induct)
  case Nil
  then show ?case by (auto intro!: exI [of _ "[]"] emits_Nil simp: same_core_def)
next
  case (Cons j idx b bs)
  from Cons.prems(1) obtain bop batch2 where b': "batch' = bop # batch2" "bo_kind bop = bo_kind b"
    "map bo_kind batch2 = map bo_kind bs" by (cases batch') auto
  from Cons.prems(2) b' obtain svc1 where s: "finish_step p all svc (bop, j) = Inr svc1"
    and rest: "fold_exec (finish_step p all) svc1 (zip batch2 idx) = Inr svc'"
    by (auto elim!: and_then_InrE)
  from finish_step_emits [OF s Cons.prems(3) assms(3) b'(2)] Cons.hyps(1) obtain ys where
    ys: "emits svc ys svc1" "keys ys = op_keys (all ! j)" "same_core svc svc1" by auto
  from Cons.IH [OF b'(3) rest emits_wf [OF ys(1)]] obtain xs where
    "emits svc1 xs svc'" "same_core svc1 svc'" "keys xs = concat (map (\<lambda>j. op_keys (all ! j)) idx)"
    by blast
  with ys show ?case
    by (intro exI [of _ "ys @ xs"]) (auto intro: emits_trans same_core_trans)
qed

lemma execute_round_emits:
  assumes "execute_round p E ops svc = Inr svc'" "chans_wf (channels svc)"
    and "\<forall>op \<in> set ops. sources_ok op" "batch_executor (ex_batch E)"
  shows "\<exists>xs. emits svc xs svc' \<and> mset (keys xs) = mset (concat (map op_keys ops)) \<and>
    stage svc' = stage svc"
proof -
  from assms(1) obtain svc1 batch origin where
    first: "fold_exec (round_step p E) (svc, [], []) (enumerate 0 ops) = Inr (svc1, batch, origin)"
    and second: "(if batch = [] then Inr svc1
         else and_then (ex_batch E (executor svc1) batch) (\<lambda>r. case r of (batch', w) \<Rightarrow>
           fold_exec (finish_step p ops) (svc1\<lparr>executor := w\<rparr>) (zip batch' origin))) = Inr svc'"
    by (auto simp: execute_round_def elim!: and_then_InrE)
  from first_loop_emits [OF first assms(2,3), of ops] obtain xs where
    xs: "emits svc xs svc1" "stage svc1 = stage svc"
      "list_all2 (\<lambda>j b. j < length ops \<and> entry_for (ops ! j) b) origin batch"
      "mset (keys xs) + mset (concat (map (\<lambda>j. op_keys (ops ! j)) origin)) = mset (concat (map op_keys ops))"
    by auto
  show ?thesis
  proof (cases "batch = []")
    case True
    with xs second show ?thesis by auto
  next
    case False
    with second obtain batch' w where b: "ex_batch E (executor svc1) batch = Inr (batch', w)"
      and fin: "fold_exec (finish_step p ops) (svc1\<lparr>executor := w\<rparr>) (zip batch' origin) = Inr svc'"
      by (auto elim!: and_then_InrE)
    have "map bo_kind batch' = map bo_kind batch"
      using assms(4) b by (rule batch_executor.batch_kinds)
    from second_loop_emits [OF fin _ assms(3) xs(3) this] xs(1) obtain ys where
      ys: "emits (svc1\<lparr>executor := w\<rparr>) ys svc'" "stage svc' = stage svc1"
        "keys ys = concat (map (\<lambda>j. op_keys (ops ! j)) origin)"
      by (auto simp: emits_def same_core_def)
    then have "emits svc1 ys svc'" by (simp add: emits_def)
    with xs ys show ?thesis
      by (intro exI [of _ "xs @ ys"]) (auto intro: emits_trans)
  qed
qed

section \<open>Polling and the whole iteration\<close>

lemma poll_channel_spec:
  assumes "chan_wf c" "poll_channel add i c s w = (c', s', w')"
  shows "chan_wf c' \<and> requests c' = [] \<and> resp_log c' = resp_log c \<and> credit c' = credit c \<and>
    s' = fold (\<lambda>r s. add s r i) (requests c) s \<and> w' = (w \<or> requests c \<noteq> [])"
  using assms
proof (induction add i c s w rule: poll_channel.induct)
  case (1 add i c s w)
  obtain out c1 where p: "poll_request c = (out, c1)" by force
  note sp = poll_request_spec [OF 1(2) p]
  show ?case
  proof (cases out)
    case None
    with 1(3) p sp show ?thesis by (simp add: poll_channel.simps [of add i c])
  next
    case (Some r)
    with 1(3) p have "poll_channel add i c1 (add s r i) True = (c', s', w')"
      by (simp add: poll_channel.simps [of add i c])
    from 1(1) [OF p [symmetric] Some _ this] sp Some show ?thesis by simp
  qed
qed

text \<open>The requests waiting in the channels \<open>is\<close>, in the order of polling.\<close>

definition waiting :: "nat list \<Rightarrow> ServiceChannel list \<Rightarrow> (IoRequest \<times> nat) list" where
  "waiting is cs = concat (map (\<lambda>i. map (\<lambda>r. (r, i)) (requests (cs ! i))) is)"

lemma fold_add_channel:
  "fold (\<lambda>r s. pl_add Pl s r i) rs s = add_all Pl (map (\<lambda>r. (r, i)) rs) s"
  by (induction rs arbitrary: s) (simp_all add: add_all_def)

lemma add_all_append: "add_all Pl (xs @ ys) s = add_all Pl ys (add_all Pl xs s)"
  by (simp add: add_all_def)

lemma waiting_update: "i \<notin> set is \<Longrightarrow> waiting is (cs[i := c]) = waiting is cs"
proof -
  assume i: "i \<notin> set is"
  have same: "requests (cs[i := c] ! j) = requests (cs ! j)" if "j \<in> set is" for j
    using i that by (cases "i = j") simp_all
  have "map (\<lambda>j. map (\<lambda>r. (r, j)) (requests (cs[i := c] ! j))) is =
      map (\<lambda>j. map (\<lambda>r. (r, j)) (requests (cs ! j))) is"
    by (rule map_cong [OF refl]) (simp only: same)
  then show ?thesis by (simp only: waiting_def)
qed

lemma poll_channels_spec:
  assumes "poll_channels Pl is svc w = (svc', w')" "chans_wf (channels svc)" "distinct is"
    and "set is \<subseteq> {..<length (channels svc)}"
  shows "chans_wf (channels svc') \<and> length (channels svc') = length (channels svc) \<and>
    stage svc' = add_all Pl (waiting is (channels svc)) (stage svc) \<and>
    fd_table svc' = fd_table svc \<and> next_fd svc' = next_fd svc \<and> executor svc' = executor svc \<and>
    (\<forall>k. chan_log (channels svc') k = chan_log (channels svc) k \<and>
         chan_credit (channels svc') k = chan_credit (channels svc) k) \<and>
    (\<forall>k \<in> set is. requests (channels svc' ! k) = []) \<and>
    (\<forall>k. k \<notin> set is \<longrightarrow> channels svc' ! k = channels svc ! k)"
  using assms
proof (induction "is" arbitrary: svc w)
  case Nil
  then show ?case by (simp add: add_all_def waiting_def)
next
  case (Cons i "is")
  obtain c s d where p: "poll_channel (pl_add Pl) i (channels svc ! i) (stage svc) w = (c, s, d)"
    by (metis prod_cases3)
  let ?svc1 = "svc\<lparr>channels := (channels svc)[i := c], stage := s\<rparr>"
  have i: "i < length (channels svc)" "i \<notin> set is" using Cons.prems by auto
  have wfi: "chan_wf (channels svc ! i)" using Cons.prems(2) i(1) by (simp add: chans_wf_def)
  note sp = poll_channel_spec [OF wfi p]
  have rest: "poll_channels Pl is ?svc1 d = (svc', w')" using Cons.prems(1) p by simp
  have wf1: "chans_wf (channels ?svc1)"
    using chans_wf_update [OF Cons.prems(2), of c i] sp by simp
  have logs: "chan_log ((channels svc)[i := c]) k = chan_log (channels svc) k"
    "chan_credit ((channels svc)[i := c]) k = chan_credit (channels svc) k" for k
    using sp i(1) by (cases "i = k"; simp add: chan_log_def chan_credit_def)+
  have st: "add_all Pl (waiting is (channels ?svc1)) (stage ?svc1) =
      add_all Pl (waiting (i # is) (channels svc)) (stage svc)"
    using sp i(2) by (simp add: waiting_update fold_add_channel) (simp add: waiting_def add_all_append)
  from Cons.IH [OF rest wf1] Cons.prems(3,4) st logs i sp show ?case by auto
qed

lemma mset_ids_sent:
  "mset (map rs_id (sent xs k)) = image_mset snd (filter_mset (\<lambda>x. fst x = k) (mset (keys xs)))"
  by (induction xs) auto

lemma mset_op_keys:
  "mset (concat (map op_keys ops)) =
     image_mset (\<lambda>(ch, _, _, i, _). (ch, i)) (mset (concat (map op_requests ops)))"
proof (induction ops)
  case (Cons op ops)
  have "op_keys op = map (\<lambda>(ch, _, _, i, _). (ch, i)) (op_requests op)"
    by (auto simp: op_keys_def op_requests_def)
  with Cons show ?case by simp
qed simp

lemma waiting_ids:
  assumes "distinct is" "k \<in> set is"
  shows "image_mset snd (filter_mset (\<lambda>x. fst x = k)
      (mset (map (\<lambda>(r, ch). (ch, rq_id r)) (waiting is cs)))) = mset (map rq_id (requests (cs ! k)))"
  using assms
proof (induction "is")
  case (Cons i "is")
  have other: "filter_mset (\<lambda>x. fst x = k) (mset (map (\<lambda>(r, ch). (ch, rq_id r)) (waiting js cs))) = {#}"
    if "k \<notin> set js" for js
    using that by (auto simp: waiting_def filter_mset_eq_conv filter_empty_mset
        intro!: filter_mset_False)
  have "mset (map (\<lambda>(r, ch). (ch, rq_id r)) (waiting (i # is) cs)) =
      image_mset (\<lambda>r. (i, rq_id r)) (mset (requests (cs ! i))) +
      mset (map (\<lambda>(r, ch). (ch, rq_id r)) (waiting is cs))"
    by (simp add: waiting_def image_mset.compositionality o_def)
  moreover have "filter_mset (\<lambda>x. fst x = k) (image_mset (\<lambda>r. (i, rq_id r)) M) =
      (if i = k then image_mset (\<lambda>r. (i, rq_id r)) M else {#})" for M :: "IoRequest multiset"
    by (induction M) auto
  ultimately show ?case
    using Cons other [of "is"] by (cases "i = k") (auto simp: image_mset.compositionality o_def)
qed simp

text \<open>The contracts an iteration rests on, and the state between iterations: the rings are well formed
  and the stage holds nothing.\<close>

definition between_rounds ::
  "'s Pipeline \<Rightarrow> ('s \<Rightarrow> bool) \<Rightarrow> ('w, 's) AtlasService \<Rightarrow> bool" where
  "between_rounds Pl invar svc \<longleftrightarrow>
     chans_wf (channels svc) \<and> invar (stage svc) \<and> pl_is_empty Pl (stage svc)"

lemma request_id_key: "(\<lambda>(ch, _, _, i, _). (ch, i)) \<circ> (\<lambda>(r, ch). (ch, rq_op r, rq_fd r, rq_id r, rq_len r)) =
    (\<lambda>(r, ch). (ch, rq_id r))"
  by (auto simp: fun_eq_iff)

text \<open>What is known of the operations a stage hands out after polling.\<close>

lemma drained_ops:
  assumes pl: "request_pipeline (pl_add Pl) (pl_is_empty Pl) (pl_drain Pl) held invar"
    and "invar s" "pl_is_empty Pl s" "pl_drain Pl p (add_all Pl rs s) = Inr (ops, s')"
  shows "invar s' \<and> pl_is_empty Pl s' \<and> (\<forall>op \<in> set ops. sources_ok op) \<and>
    mset (concat (map op_keys ops)) = mset (map (\<lambda>(r, ch). (ch, rq_id r)) rs) \<and>
    (\<forall>op \<in> set ops. mo_channel op \<in> snd ` set rs)"
proof -
  have d: "pl_drain Pl p (fold (\<lambda>(r, ch) s. pl_add Pl s r ch) rs s) = Inr (ops, s')"
    using assms(4) by (simp add: add_all_def)
  note r = request_pipeline.round_conserves [OF pl assms(2,3) d]
  have "invar (fold (\<lambda>(r, ch) s. pl_add Pl s r ch) rs s)"
    using request_pipeline.add_all [OF pl assms(2)] by blast
  then have ok: "\<forall>op \<in> set ops. sources_ok op"
    using request_pipeline.drain_sources [OF pl _ d] by blast
  have "mset (concat (map op_keys ops)) =
      image_mset (\<lambda>(ch, _, _, i, _). (ch, i)) (mset (map (\<lambda>(r, ch). (ch, rq_op r, rq_fd r, rq_id r, rq_len r)) rs))"
    using r by (simp add: mset_op_keys)
  also have "\<dots> = mset (map (\<lambda>(r, ch). (ch, rq_id r)) rs)"
    by (simp only: mset_map image_mset.compositionality request_id_key)
  finally have m: "mset (concat (map op_keys ops)) = mset (map (\<lambda>(r, ch). (ch, rq_id r)) rs)" .
  have "mo_channel op \<in> snd ` set rs" if "op \<in> set ops" for op
  proof -
    have "op_keys op \<noteq> []" using ok that by (auto simp: op_keys_def sources_ok_def)
    then obtain x where x: "x \<in> set (op_keys op)" by (cases "op_keys op") auto
    then have ch: "fst x = mo_channel op" by (auto simp: op_keys_def)
    have "x \<in> set (concat (map op_keys ops))" using x that by auto
    then have "x \<in> set (map (\<lambda>(r, ch). (ch, rq_id r)) rs)" using m by (metis set_mset_mset)
    with ch show ?thesis by force
  qed
  with r ok m show ?thesis by blast
qed

lemma sent_ids:
  assumes "mset (keys xs) = mset (map (\<lambda>(r, ch). (ch, rq_id r)) (waiting [0..<length cs] cs))"
    and "k < length cs"
  shows "mset (map rs_id (sent xs k)) = mset (map rq_id (requests (cs ! k)))"
  unfolding mset_ids_sent assms(1) using assms(2) by (intro waiting_ids) simp_all

lemma emits_requests:
  assumes "emits a xs b" "k < length (channels a)"
  shows "requests (channels b ! k) = requests (channels a ! k)"
proof -
  have "chan_rest (channels b) ! k = chan_rest (channels a) ! k" using assms(1) by (simp add: emits_def)
  then show ?thesis using assms emits_length [OF assms(1)] by (simp add: chan_rest_def)
qed

lemma waiting_Nil_iff:
  "waiting [0..<length cs] cs = [] \<longleftrightarrow> (\<forall>k < length cs. requests (cs ! k) = [])"
  by (auto simp: waiting_def)

lemma empty_after_adds:
  assumes pl: "request_pipeline (pl_add Pl) (pl_is_empty Pl) (pl_drain Pl) held invar"
    and "invar s" "pl_is_empty Pl s"
  shows "pl_is_empty Pl (add_all Pl rs s) \<longleftrightarrow> rs = []"
  using request_pipeline.add_all [OF pl assms(2), of rs] assms
  by (auto simp: add_all_def request_pipeline.is_empty_iff [OF pl])

lemma serve_round_spec:
  assumes "serve_round p E Pl svc = Inr (svc', w)" "between_rounds Pl invar svc"
    and "batch_executor (ex_batch E)"
    and "request_pipeline (pl_add Pl) (pl_is_empty Pl) (pl_drain Pl) held invar"
  shows "between_rounds Pl invar svc' \<and> length (channels svc') = length (channels svc) \<and>
    (\<forall>k < length (channels svc). requests (channels svc' ! k) = [] \<and>
       (\<exists>new. chan_log (channels svc') k = chan_log (channels svc) k @ new \<and>
          mset (map rs_id new) = mset (map rq_id (requests (channels svc ! k)))))"
proof -
  let ?n = "length (channels svc)"
  obtain svc1 d where poll: "poll_channels Pl [0..<?n] svc False = (svc1, d)" by force
  have bt: "chans_wf (channels svc)" "invar (stage svc)" "pl_is_empty Pl (stage svc)"
    using assms(2) by (auto simp: between_rounds_def)
  have ps: "chans_wf (channels svc1)" "length (channels svc1) = ?n"
    "stage svc1 = add_all Pl (waiting [0..<?n] (channels svc)) (stage svc)"
    "\<And>k. chan_log (channels svc1) k = chan_log (channels svc) k"
    "\<And>k. k < ?n \<Longrightarrow> requests (channels svc1 ! k) = []"
    using poll_channels_spec [OF poll bt(1)] by (simp_all add: lessThan_atLeast0)
  show ?thesis
  proof (cases "pl_is_empty Pl (stage svc1)")
    case True
    then have "\<forall>k < ?n. requests (channels svc ! k) = []"
      using empty_after_adds [OF assms(4) bt(2,3)] ps(3) waiting_Nil_iff by metis
    moreover have "svc' = svc1" using assms(1) poll True by (simp add: serve_round_def)
    ultimately show ?thesis
      using ps bt True request_pipeline.add_all [OF assms(4) bt(2)]
      by (auto simp: between_rounds_def add_all_def)
  next
    case False
    with assms(1) poll obtain ops s where dr: "pl_drain Pl p (stage svc1) = Inr (ops, s)"
      and ex: "execute_round p E ops (svc1\<lparr>stage := s\<rparr>) = Inr svc'"
      by (auto simp: serve_round_def elim!: and_then_InrE)
    note d = drained_ops [OF assms(4) bt(2,3) dr [unfolded ps(3)]]
    from execute_round_emits [OF ex _ _ assms(3)] ps(1) d obtain xs where
      xs: "emits (svc1\<lparr>stage := s\<rparr>) xs svc'" "mset (keys xs) = mset (concat (map op_keys ops))"
        "stage svc' = s" by auto
    have k: "mset (keys xs) = mset (map (\<lambda>(r, ch). (ch, rq_id r)) (waiting [0..<?n] (channels svc)))"
      using xs(2) d by simp
    have "requests (channels svc' ! j) = [] \<and> chan_log (channels svc') j = chan_log (channels svc) j @ sent xs j \<and>
        mset (map rs_id (sent xs j)) = mset (map rq_id (requests (channels svc ! j)))" if "j < ?n" for j
      using emits_requests [OF xs(1), of j] ps(2,4,5) xs(1) sent_ids [OF k that] that
      by (auto simp: emits_def)
    then show ?thesis
      using xs d emits_length [OF xs(1)] ps(2) by (auto simp: between_rounds_def emits_def)
  qed
qed

end
