(* ===== verification/Single_Request.thy ===== *)
theory Single_Request
  imports Service_Answers
begin

text \<open>
  What the service does with one request alone, stated without rings, stages, rounds and batches: the
  specification \<open>answer\<close>, and the refinement of it by a whole iteration of the service.
\<close>

section \<open>The specification\<close>

text \<open>The state a request is answered in: the descriptor table, the counter and the executor.\<close>

type_synonym 'w core = "(u64 \<Rightarrow> i32 option) \<times> u64 \<times> 'w"

definition core :: "('w, 's) AtlasService \<Rightarrow> 'w core" where
  "core svc = (fd_table svc, next_fd svc, executor svc)"

definition set_core :: "'w core \<Rightarrow> ('w, 's) AtlasService \<Rightarrow> ('w, 's) AtlasService" where
  "set_core c svc = (case c of (fds, nf, w) \<Rightarrow> svc\<lparr>fd_table := fds, next_fd := nf, executor := w\<rparr>)"

lemma core_set_core [simp]: "core (set_core c svc) = c" "channels (set_core c svc) = channels svc"
  "stage (set_core c svc) = stage svc"
  by (simp_all add: core_def set_core_def split: prod.split)

text \<open>The executor's view of a data request on the descriptor \<open>fd\<close>.\<close>

fun request_kind :: "IoOp \<Rightarrow> IoRequest \<Rightarrow> nat \<Rightarrow> i32 \<Rightarrow> BatchKind" where
  "request_kind Read r k fd = Pread fd (k, unat (rq_data_offset r)) (as_u64 (rq_len r)) (rq_offset r)"
| "request_kind Write r k fd = Pwrite fd (k, unat (rq_data_offset r)) (as_u64 (rq_len r)) (rq_offset r)"
| "request_kind _ r k fd = Fsync fd"

text \<open>The answer to a data request that returned \<open>n \<ge> 0\<close>.\<close>

fun success :: "IoOp \<Rightarrow> IoRequest \<Rightarrow> i64 \<Rightarrow> IoResponse" where
  "success Read r n = (IoResponse_ok (rq_id r))\<lparr>rs_data_offset := rq_data_offset r,
     rs_data_len := (if 0 < sint n then min (as_u32 n) (rq_len r) else 0)\<rparr>"
| "success Write r n = (IoResponse_ok (rq_id r))\<lparr>rs_data_len := rq_len r\<rparr>"
| "success _ r n = IoResponse_ok (rq_id r)"

definition batch_of_one :: "'w IoExecutor \<Rightarrow> 'w \<Rightarrow> BatchKind \<Rightarrow> (i64 \<times> 'w) exec" where
  "batch_of_one E w kind =
     and_then (ex_batch E w [BatchOp_new kind]) (\<lambda>r. Inr (bo_result (hd (fst r)), snd r))"

definition answer ::
  "profile \<Rightarrow> 'w IoExecutor \<Rightarrow> nat \<Rightarrow> IoRequest \<Rightarrow> 'w core \<Rightarrow> (IoResponse \<times> 'w core) exec" where
  "answer p E k r c =
     (case c of (fds, nf, w) \<Rightarrow>
        (case io_op r of
           None \<Rightarrow> Inr (IoResponse_err (rq_id r) (- 1), c)
         | Some Open \<Rightarrow>
             (case ex_open E w (path_str r) (rq_len r) 420 of (rc, w1) \<Rightarrow>
                if negative rc then Inr (IoResponse_err (rq_id r) (i64_as_i32 rc), fds, nf, w1)
                else and_then (uadd p nf 1) (\<lambda>nf1.
                  Inr ((IoResponse_ok (rq_id r))\<lparr>rs_fd := nf\<rparr>, fds(nf \<mapsto> i64_as_i32 rc), nf1, w1)))
         | Some Close \<Rightarrow>
             (case fds (rq_fd r) of
                None \<Rightarrow> Inr (IoResponse_err (rq_id r) (- EBADF), c)
              | Some fd \<Rightarrow>
                  (case ex_close E w fd of (rc, w1) \<Rightarrow>
                     Inr (if negative rc then IoResponse_err (rq_id r) (i64_as_i32 rc)
                          else IoResponse_ok (rq_id r), fds(rq_fd r := None), nf, w1)))
         | Some op \<Rightarrow>
             (case fds (rq_fd r) of
                None \<Rightarrow> Inr (IoResponse_err (rq_id r) (- EBADF), c)
              | Some fd \<Rightarrow> and_then (batch_of_one E w (request_kind op r k fd)) (\<lambda>res.
                  Inr (if negative (fst res) then IoResponse_err (rq_id r) (i64_as_i32 (fst res))
                       else success op r (fst res), fds, nf, snd res)))))"

lemma answer_id: "answer p E k r c = Inr (resp, c') \<Longrightarrow> rs_id resp = rq_id r"
  by (cases c; cases "io_op r"; cases "the (io_op r)")
    (auto simp: answer_def IoResponse_ok_def IoResponse_err_def split: prod.splits option.splits if_splits
      elim!: and_then_InrE)

section \<open>Stages that hand out one request as it is\<close>

definition sole :: "IoRequest \<Rightarrow> nat \<Rightarrow> MergedOp" where
  "sole r k = pass_op \<lparr>tr_req = r, tr_channel = k\<rparr>"

lemma sole_simps [simp]:
  "mo_req (sole r k) = r" "mo_channel (sole r k) = k" "mo_sources (sole r k) = [(rq_id r, 0, rq_len r)]"
  by (simp_all add: sole_def pass_op_def)

text \<open>The byte range of the request does not wrap, or wrapping goes unnoticed.\<close>

definition range_fits :: "profile \<Rightarrow> IoRequest \<Rightarrow> bool" where
  "range_fits p r \<longleftrightarrow> p = Release \<or> unat (rq_offset r) + unat (rq_len r) < 2 ^ 64"

locale lone_stage = request_pipeline +
  assumes drain_sole: "invar s \<Longrightarrow> is_empty s \<Longrightarrow> range_fits p r \<Longrightarrow>
    \<exists>s'. drain p (add s r ch) = Inr ([sole r ch], s')"

interpretation lone_passthrough: lone_stage pt_add pt_is_empty pt_drain pt_held "\<lambda>_. True"
  by unfold_locales (simp add: pt_add_def pt_is_empty_def pt_drain_def sole_def)

lemma merge_one:
  assumes "range_fits p (tr_req t)"
  shows "merge_adjacent p [t] out = Inr (out @ [pass_op t])"
proof -
  have e: "uadd p (t_offset t) (as_u64 (t_len t)) = Inr (t_offset t + as_u64 (t_len t))"
    using assms by (auto simp: range_fits_def intro: uadd_no_overflow)
  have "t_offset t \<le> t_offset t + as_u64 (t_len t)" if "p = Debug"
    using assms that unat_add_no_overflow [of "t_offset t" "as_u64 (t_len t)"]
    by (simp add: range_fits_def word_le_nat_alt)
  then have s: "usub p (t_offset t + as_u64 (t_len t)) (t_offset t) = Inr (as_u64 (t_len t))"
    by (cases p) (simp_all add: usub_def)
  have "unat (as_u32 (as_u64 (t_len t))) = unat (t_len t)" by (simp add: unat_as_u32_u64)
  then have "as_u32 (as_u64 (t_len t)) = t_len t" by (simp add: word_unat_eq_iff)
  then show ?thesis using e s by (simp add: merge_adjacent_def pass_op_def)
qed

lemma drain_merged_one:
  assumes "range_fits p (tr_req t)" "pending b = [t]"
  shows "drain_merged p b = Inr ([pass_op t], b\<lparr>pending := []\<rparr>)"
proof -
  have nil: "merge_adjacent p [] out = Inr out" for out by (simp add: merge_adjacent_def)
  show ?thesis
    using assms(2) merge_one [OF assms(1)]
    by (auto simp: drain_merged_def nil split: option.split IoOp.split)
qed

lemma bt_drain_one:
  assumes "bt_is_empty s" "range_fits p r"
  shows "\<exists>s'. bt_drain p (bt_add s r ch) = Inr ([sole r ch], s')"
proof -
  let ?t = "\<lparr>tr_req = r, tr_channel = ch\<rparr>" and ?b = "bt_batch (bt_add s r ch)"
  have p: "pending ?b = [?t]" using assms(1) by (simp add: bt_is_empty_def bt_add_def batch_add_def batch_is_empty_def)
  have d: "drain_merged p ?b = Inr ([sole r ch], ?b\<lparr>pending := []\<rparr>)"
    using drain_merged_one [OF _ p] assms(2) by (simp add: sole_def)
  have "\<exists>s'. bt_drain p (bt_add s r ch) = Inr (sch_all (enqueue_all (bt_scheduler (bt_add s r ch)) [sole r ch]), s')"
    using d p by (auto simp: bt_drain_def batch_is_empty_def sch_len_all split: prod.split
        dest: sch_drain_all(1))
  moreover have "sch_all (enqueue_all (bt_scheduler (bt_add s r ch)) [sole r ch]) = [sole r ch]"
    using assms(1) by (auto simp: bt_is_empty_def sch_is_empty_def bt_add_def enqueue_def sch_all_def
        split: option.split IoPriority.split)
  ultimately show ?thesis by simp
qed

interpretation lone_batched: lone_stage bt_add bt_is_empty bt_drain bt_held bt_wf
  by unfold_locales (rule bt_drain_one)

section \<open>A round of one operation\<close>

lemma batch_single:
  assumes "batch_executor (ex_batch E)" "ex_batch E w [b] = Inr (ops, w')"
  obtains b' where "ops = [b']" "bo_kind b' = bo_kind b"
  using batch_executor.batch_kinds [OF assms] by (cases ops) auto

lemma send_errors_sole: "send_errors (sole r k) st svc = svc_send k (IoResponse_err (rq_id r) st) svc"
  by (simp add: send_errors_def and_then_def split: sum.split)

lemma read_response_sole:
  "read_response p r n (rq_id r, 0, rq_len r) = Inr (success Read r n)"
  by (simp add: read_response_def uadd_no_overflow)

lemma send_read_sole:
  "\<not> negative n \<Longrightarrow> send_read_responses p (sole r k) n svc = svc_send k (success Read r n) svc"
  by (simp add: send_read_responses_def read_response_sole and_then_def split: sum.split
      del: success.simps)

lemma send_write_sole:
  "\<not> negative n \<Longrightarrow> send_write_responses (sole r k) n svc = svc_send k (success Write r n) svc"
  by (simp add: send_write_responses_def write_response_def and_then_def split: sum.split)

lemma send_negative_sole:
  "negative n \<Longrightarrow> send_read_responses p (sole r k) n svc = svc_send k (IoResponse_err (rq_id r) (i64_as_i32 n)) svc"
  "negative n \<Longrightarrow> send_write_responses (sole r k) n svc = svc_send k (IoResponse_err (rq_id r) (i64_as_i32 n)) svc"
  by (simp_all add: send_read_responses_def send_write_responses_def send_errors_sole)

text \<open>The second loop answers the entry of a request with the request's own answer.\<close>

lemma finish_sole:
  assumes "i < length ops" "ops ! i = sole r k" "op \<in> {Read, Write, Sync}" "bo_kind b = request_kind op r k fd"
  shows "finish_step p ops svc (b, i) =
    svc_send k (if negative (bo_result b) then IoResponse_err (rq_id r) (i64_as_i32 (bo_result b))
                else success op r (bo_result b)) svc"
  using assms
  by (auto simp: finish_step_def send_read_sole send_write_sole send_negative_sole send_fsync_response_def)

text \<open>One data operation: the batch has one entry, and its result is answered.\<close>

lemma data_round_sole:
  assumes "batch_executor (ex_batch E)" "io_op r = Some op" "op \<in> {Read, Write, Sync}"
    and "fd_table svc (rq_fd r) = Some fd" "k < length (channels svc)"
  shows "execute_round p E [sole r k] svc =
    and_then (batch_of_one E (executor svc) (request_kind op r k fd)) (\<lambda>res.
      svc_send k (if negative (fst res) then IoResponse_err (rq_id r) (i64_as_i32 (fst res))
                  else success op r (fst res)) (svc\<lparr>executor := snd res\<rparr>))"
proof -
  let ?kind = "request_kind op r k fd"
  have code: "op_from_u8 (rq_op r) = Some op" using assms(2) by (simp add: io_op_def)
  have buf: "data_buf (sole r k) svc = Inr (k, unat (rq_data_offset r))"
    using assms(5) by (simp add: data_buf_def)
  have step: "round_step p E (svc, [], []) (0, sole r k) = Inr (svc, [BatchOp_new ?kind], [0])"
    using assms(3,4) code buf
    by (auto simp: round_step_def prepare_read_def prepare_write_def prepare_fsync_def keep_def)
  have finish: "finish_step p [sole r k] svc' (b, 0) =
      svc_send k (if negative (bo_result b) then IoResponse_err (rq_id r) (i64_as_i32 (bo_result b))
                  else success op r (bo_result b)) svc'" if "bo_kind b = ?kind" for b svc'
    using assms(3) that by (intro finish_sole) simp_all
  show ?thesis
  proof (cases "ex_batch E (executor svc) [BatchOp_new ?kind]")
    case (Inl e)
    then show ?thesis by (simp add: execute_round_def step batch_of_one_def)
  next
    case (Inr res)
    then obtain ops w where res: "ex_batch E (executor svc) [BatchOp_new ?kind] = Inr (ops, w)"
      by (cases res) auto
    obtain b where b: "ops = [b]" "bo_kind b = ?kind"
      using batch_single [OF assms(1) res] by (auto simp: BatchOp_new_def)
    show ?thesis
      using res by (simp add: execute_round_def step batch_of_one_def b finish [OF b(2)] and_then_def
          split: sum.split)
  qed
qed

lemma unknown_round_sole:
  assumes "io_op r = Some op" "op \<in> {Read, Write, Sync}" "fd_table svc (rq_fd r) = None"
  shows "execute_round p E [sole r k] svc = svc_send k (IoResponse_err (rq_id r) (- EBADF)) svc"
proof -
  have code: "op_from_u8 (rq_op r) = Some op" using assms(1) by (simp add: io_op_def)
  show ?thesis
    using assms(2,3) code
    by (cases "svc_send k (IoResponse_err (rq_id r) (- EBADF)) svc")
      (auto simp: execute_round_def round_step_def prepare_read_def prepare_write_def prepare_fsync_def
        keep_def send_errors_sole)
qed

text \<open>Every request: a round of it alone sends its answer and leaves the core as the specification does.\<close>

lemma data_round_answer:
  assumes "batch_executor (ex_batch E)" "k < length (channels svc)"
    and op: "io_op r = Some op" "op \<in> {Read, Write, Sync}"
  shows "execute_round p E [sole r k] svc =
    and_then (answer p E k r (core svc)) (\<lambda>a. svc_send k (fst a) (set_core (snd a) svc))"
proof (cases "fd_table svc (rq_fd r)")
  case None
  then show ?thesis
    using op unknown_round_sole [OF op None, of p E k] by (auto simp: answer_def core_def set_core_def)
next
  case (Some fd)
  show ?thesis
    unfolding data_round_sole [OF assms(1) op Some assms(2)]
    using op Some by (auto simp: answer_def core_def set_core_def and_then_def split: sum.split)
qed

lemma execute_round_sole:
  assumes "batch_executor (ex_batch E)" "k < length (channels svc)"
  shows "execute_round p E [sole r k] svc =
    and_then (answer p E k r (core svc)) (\<lambda>a. svc_send k (fst a) (set_core (snd a) svc))"
proof (cases "io_op r")
  case None
  then show ?thesis
    by (simp add: execute_round_def round_step_def io_op_def answer_def core_def set_core_def and_then_def
        split: sum.split)
next
  case (Some op)
  have code: "op_from_u8 (rq_op r) = Some op" using Some by (simp add: io_op_def)
  show ?thesis
  proof (cases "op \<in> {Read, Write, Sync}")
    case True
    then show ?thesis using data_round_answer [OF assms Some] by blast
  next
    case False
    then consider "op = Open" | "op = Close" by (cases op) auto
    then show ?thesis
    proof cases
      case 1
      obtain rc w1 where o: "ex_open E (executor svc) (path_str r) (rq_len r) 420 = (rc, w1)" by force
      have upd: "svc\<lparr>executor := w, next_fd := n, fd_table := f\<rparr> = svc\<lparr>fd_table := f, next_fd := n, executor := w\<rparr>"
        for w n f by simp
      show ?thesis
        using 1 Some code o
        by (simp add: upd execute_round_def round_step_def handle_open_def answer_def core_def set_core_def
            Let_def and_then_assoc)
    next
      case 2
      then show ?thesis
        using Some code
        by (simp add: execute_round_def round_step_def handle_close_def answer_def core_def set_core_def
            Let_def and_then_assoc split: prod.split option.split)
    qed
  qed
qed

section \<open>An iteration\<close>

lemma send_now:
  assumes "chan_wf c" "sc_moves c = []" "length (spsc_contents RING_CAPACITY (sc_resp c)) < unat RING_CAPACITY"
  obtains q where "send_response resp c = Inr (c\<lparr>sc_resp := q\<rparr>)" "spsc_wf RING_CAPACITY q"
    "spsc_contents RING_CAPACITY q = spsc_contents RING_CAPACITY (sc_resp c) @ [resp]"
proof -
  have wf: "spsc_wf RING_CAPACITY (sc_resp c)" using assms(1) by (simp add: chan_wf_def)
  obtain q where e: "spsc_enq RING_CAPACITY resp (sc_resp c) = (Inr (), q)"
    "spsc_contents RING_CAPACITY q = spsc_contents RING_CAPACITY (sc_resp c) @ [resp]"
    using spscq.enq_space [OF wf assms(3), of resp] by (cases "spsc_enq RING_CAPACITY resp (sc_resp c)") auto
  have "c\<lparr>sc_resp := q, sc_moves := []\<rparr> = c\<lparr>sc_resp := q\<rparr>" using assms(2) by simp
  then have "send_response resp c = Inr (c\<lparr>sc_resp := q\<rparr>)"
    using assms(2) e(1) by (simp add: send_response_def send_loop.simps [of "[]"])
  with that e(2) spscq.invar_step(1) [OF wf e(1)] show thesis by blast
qed

text \<open>What polling leaves alone in a channel.\<close>

definition answer_side :: "ServiceChannel \<Rightarrow> IoResponse spsc \<times> nat list \<times> IoResponse list" where
  "answer_side c = (sc_resp c, sc_moves c, sc_taken c)"

lemma poll_channel_side: "poll_channel add i c s w = (c', s', w') \<Longrightarrow> answer_side c' = answer_side c"
proof (induction add i c s w rule: poll_channel.induct)
  case (1 add i c s w)
  obtain out c1 where p: "poll_request c = (out, c1)" by force
  then have c1: "answer_side c1 = answer_side c"
    by (auto simp: poll_request_def answer_side_def split: prod.splits)
  show ?case
  proof (cases out)
    case None
    with 1(2) p c1 show ?thesis by (simp add: poll_channel.simps [of add i c])
  next
    case (Some r)
    with 1(2) p have "poll_channel add i c1 (add s r i) True = (c', s', w')"
      by (simp add: poll_channel.simps [of add i c])
    from 1(1) [OF p [symmetric] Some this] c1 show ?thesis by simp
  qed
qed

lemma poll_channels_side:
  "poll_channels Pl is svc w = (svc', w') \<Longrightarrow> map answer_side (channels svc') = map answer_side (channels svc)"
proof (induction "is" arbitrary: svc w)
  case (Cons i "is")
  obtain c s d where p: "poll_channel (pl_add Pl) i (channels svc ! i) (stage svc) w = (c, s, d)"
    by (metis prod_cases3)
  have "map answer_side ((channels svc)[i := c]) = map answer_side (channels svc)"
    using poll_channel_side [OF p] by (cases "i < length (channels svc)")
      (simp_all add: map_update list_update_same_conv list_update_beyond)
  with Cons.IH Cons.prems p show ?case by auto
qed simp

lemma poll_channels_found:
  assumes "poll_channels Pl is svc w = (svc', w')" "chans_wf (channels svc)" "distinct is"
    and "set is \<subseteq> {..<length (channels svc)}"
  shows "w' = (w \<or> waiting is (channels svc) \<noteq> [])"
  using assms
proof (induction "is" arbitrary: svc w)
  case (Cons i "is")
  obtain c s d where p: "poll_channel (pl_add Pl) i (channels svc ! i) (stage svc) w = (c, s, d)"
    by (metis prod_cases3)
  have i: "i < length (channels svc)" "i \<notin> set is" using Cons.prems by auto
  have wfi: "chan_wf (channels svc ! i)" using Cons.prems(2) i(1) by (simp add: chans_wf_def)
  note sp = poll_channel_spec [OF wfi p]
  let ?svc1 = "svc\<lparr>channels := (channels svc)[i := c], stage := s\<rparr>"
  have "w' = (d \<or> waiting is (channels ?svc1) \<noteq> [])"
    using Cons.IH [of ?svc1 d] Cons.prems p chans_wf_update [OF Cons.prems(2), of c i] sp by simp
  moreover have "waiting is (channels ?svc1) = waiting is (channels svc)"
    using i(2) by (simp add: waiting_update)
  moreover have "waiting (i # is) (channels svc) =
      map (\<lambda>r. (r, i)) (requests (channels svc ! i)) @ waiting is (channels svc)"
    by (simp add: waiting_def)
  ultimately show ?case using sp by auto
qed (simp add: waiting_def)

text \<open>The channels when \<open>r\<close> is the only request, waiting on channel \<open>k\<close>, which has room for an answer.\<close>

definition only_request :: "nat \<Rightarrow> IoRequest \<Rightarrow> ServiceChannel list \<Rightarrow> bool" where
  "only_request k r cs \<longleftrightarrow> k < length cs \<and> requests (cs ! k) = [r] \<and>
     (\<forall>j < length cs. j \<noteq> k \<longrightarrow> requests (cs ! j) = []) \<and> sc_moves (cs ! k) = [] \<and>
     length (spsc_contents RING_CAPACITY (sc_resp (cs ! k))) < unat RING_CAPACITY"

lemma concat_single:
  assumes "distinct xs" "k \<in> set xs" "\<forall>j \<in> set xs. j \<noteq> k \<longrightarrow> f j = []"
  shows "concat (map f xs) = f k"
  using assms
proof (induction xs)
  case (Cons x xs)
  show ?case
  proof (cases "x = k")
    case True
    then have "\<forall>j \<in> set xs. f j = []" using Cons.prems by auto
    then have "concat (map f xs) = []" by simp
    with True show ?thesis by simp
  next
    case False
    then show ?thesis using Cons by auto
  qed
qed simp

lemma waiting_only:
  assumes "only_request k r cs"
  shows "waiting [0..<length cs] cs = [(r, k)]"
proof -
  have "waiting [0..<length cs] cs = map (\<lambda>r. (r, k)) (requests (cs ! k))"
    unfolding waiting_def using assms by (intro concat_single) (auto simp: only_request_def)
  then show ?thesis using assms by (simp add: only_request_def)
qed

text \<open>Polling and draining: the iteration is the answer to the one request, sent on its channel.\<close>

lemma serve_round_one:
  assumes "between_rounds Pl invar svc" "batch_executor (ex_batch E)"
    and pl: "request_pipeline (pl_add Pl) (pl_is_empty Pl) (pl_drain Pl) held invar"
    and only: "only_request k r (channels svc)"
    and single: "pl_drain Pl p (pl_add Pl (stage svc) r k) = Inr ([sole r k], s')"
  obtains svc1 where "chans_wf (channels svc1)" "length (channels svc1) = length (channels svc)"
    "\<And>j. j < length (channels svc) \<Longrightarrow> requests (channels svc1 ! j) = []"
    "\<And>j. j < length (channels svc) \<Longrightarrow> answer_side (channels svc1 ! j) = answer_side (channels svc ! j)"
    "invar s' \<and> pl_is_empty Pl s'"
    "serve_round p E Pl svc =
      and_then (answer p E k r (core svc)) (\<lambda>a.
      and_then (svc_send k (fst a) (set_core (snd a) (svc1\<lparr>stage := s'\<rparr>))) (\<lambda>svc2. Inr (svc2, True)))"
proof -
  let ?n = "length (channels svc)"
  obtain svc1 d where poll: "poll_channels Pl [0..<?n] svc False = (svc1, d)" by force
  have bt: "chans_wf (channels svc)" "invar (stage svc)" "pl_is_empty Pl (stage svc)"
    using assms(1) by (auto simp: between_rounds_def)
  note wait = waiting_only [OF only]
  have k: "k < ?n" using only by (simp add: only_request_def)
  have ps: "chans_wf (channels svc1)" "length (channels svc1) = ?n"
    "stage svc1 = pl_add Pl (stage svc) r k" "core svc1 = core svc"
    "\<And>j. j < ?n \<Longrightarrow> requests (channels svc1 ! j) = []"
    using poll_channels_spec [OF poll bt(1)] wait
    by (simp_all add: lessThan_atLeast0 add_all_def core_def)
  have found: "d" using poll_channels_found [OF poll bt(1)] wait by (simp add: lessThan_atLeast0)
  have side: "answer_side (channels svc1 ! j) = answer_side (channels svc ! j)" if "j < ?n" for j
    using poll_channels_side [OF poll] ps(2) that by (metis nth_map)
  have busy: "\<not> pl_is_empty Pl (stage svc1)"
    using empty_after_adds [OF pl bt(2,3), of "[(r, k)]"] ps(3) by (simp add: add_all_def)
  have drained: "invar s' \<and> pl_is_empty Pl s'"
    using drained_ops [OF pl bt(2,3), of p "[(r, k)]"] single by (simp add: add_all_def)
  have round: "serve_round p E Pl svc =
      and_then (answer p E k r (core svc)) (\<lambda>a.
      and_then (svc_send k (fst a) (set_core (snd a) (svc1\<lparr>stage := s'\<rparr>))) (\<lambda>svc2. Inr (svc2, True)))"
    using poll busy single ps(2,3,4) found k execute_round_sole [OF assms(2), of k "svc1\<lparr>stage := s'\<rparr>" p r]
    by (simp add: serve_round_def and_then_assoc core_def)
  from that [OF ps(1,2,5) side drained round] show thesis by blast
qed

lemma serve_round_sole:
  assumes "between_rounds Pl invar svc" "batch_executor (ex_batch E)"
    and pl: "request_pipeline (pl_add Pl) (pl_is_empty Pl) (pl_drain Pl) held invar"
    and only: "only_request k r (channels svc)"
    and single: "pl_drain Pl p (pl_add Pl (stage svc) r k) = Inr ([sole r k], s')"
  shows "case answer p E k r (core svc) of
      Inl e \<Rightarrow> serve_round p E Pl svc = Inl e
    | Inr (resp, c) \<Rightarrow> (\<exists>svc'. serve_round p E Pl svc = Inr (svc', True) \<and> core svc' = c \<and>
        between_rounds Pl invar svc' \<and> stage svc' = s' \<and> length (channels svc') = length (channels svc) \<and>
        (\<forall>j < length (channels svc). requests (channels svc' ! j) = [] \<and>
           sc_moves (channels svc' ! j) = sc_moves (channels svc ! j) \<and>
           spsc_contents RING_CAPACITY (sc_resp (channels svc' ! j)) =
             spsc_contents RING_CAPACITY (sc_resp (channels svc ! j)) @ (if j = k then [resp] else [])))"
proof -
  let ?n = "length (channels svc)"
  obtain svc1 where ps: "chans_wf (channels svc1)" "length (channels svc1) = ?n"
      "\<And>j. j < ?n \<Longrightarrow> requests (channels svc1 ! j) = []"
    and side: "\<And>j. j < ?n \<Longrightarrow> answer_side (channels svc1 ! j) = answer_side (channels svc ! j)"
    and drained: "invar s' \<and> pl_is_empty Pl s'"
    and round: "serve_round p E Pl svc =
      and_then (answer p E k r (core svc)) (\<lambda>a.
      and_then (svc_send k (fst a) (set_core (snd a) (svc1\<lparr>stage := s'\<rparr>))) (\<lambda>svc2. Inr (svc2, True)))"
    by (rule serve_round_one [OF assms]) blast
  have k: "k < ?n" using only by (simp add: only_request_def)
  show ?thesis
  proof (cases "answer p E k r (core svc)")
    case (Inl e)
    with round show ?thesis by simp
  next
    case (Inr a)
    obtain resp c where a: "a = (resp, c)" by (rule surj_pair [THEN exE, of a]) blast
    let ?ch = "channels svc1 ! k"
    have ch: "chan_wf ?ch" "sc_moves ?ch = []" "sc_resp ?ch = sc_resp (channels svc ! k)"
      "length (spsc_contents RING_CAPACITY (sc_resp ?ch)) < unat RING_CAPACITY"
      using ps(1,2) k side [OF k] only by (auto simp: chans_wf_def answer_side_def only_request_def)
    obtain q where q: "send_response resp ?ch = Inr (?ch\<lparr>sc_resp := q\<rparr>)" "spsc_wf RING_CAPACITY q"
      "spsc_contents RING_CAPACITY q = spsc_contents RING_CAPACITY (sc_resp ?ch) @ [resp]"
      using send_now [OF ch(1,2,4)] .
    let ?cs = "(channels svc1)[k := ?ch\<lparr>sc_resp := q\<rparr>]"
    let ?svc' = "(set_core c (svc1\<lparr>stage := s'\<rparr>))\<lparr>channels := ?cs\<rparr>"
    have r: "serve_round p E Pl svc = Inr (?svc', True)"
      using round Inr a q(1) k ps(2) by (simp add: svc_send_def send_to_def)
    have "chans_wf ?cs" using ps(1) ch(1) q(2) by (intro chans_wf_update) (simp_all add: chan_wf_def)
    moreover have "core ?svc' = c" by (simp add: core_def set_core_def split: prod.split)
    moreover have "stage ?svc' = s'" by (simp add: set_core_def split: prod.split)
    moreover have "requests (?cs ! j) = [] \<and> sc_moves (?cs ! j) = sc_moves (channels svc ! j) \<and>
        spsc_contents RING_CAPACITY (sc_resp (?cs ! j)) =
          spsc_contents RING_CAPACITY (sc_resp (channels svc ! j)) @ (if j = k then [resp] else [])"
      if "j < ?n" for j
      using ps(2,3) side [OF that] ch q(3) that by (cases "j = k") (simp_all add: answer_side_def)
    ultimately show ?thesis
      using Inr a r drained ps(2) by (auto simp: between_rounds_def)
  qed
qed

end
