(* ===== verification/Service_Completion.thy ===== *)
theory Service_Completion
  imports Service_Answers
begin

text \<open>
  When an iteration of the service returns, and a run as a sequence of iterations.
\<close>

section \<open>Completion\<close>

text \<open>How many of the keys belong to channel \<open>k\<close>.\<close>

definition need :: "nat \<Rightarrow> (nat \<times> u64) list \<Rightarrow> nat" where
  "need k ks = length (filter (\<lambda>x. fst x = k) ks)"

lemma need_simps [simp]:
  "need k [] = 0" "need k (xs @ ys) = need k xs + need k ys"
  "need k (x # xs) = (if fst x = k then Suc (need k xs) else need k xs)"
  by (simp_all add: need_def)

lemma length_sent: "length (sent xs k) = need k (keys xs)"
  by (induction xs) simp_all

lemma need_mset: "mset xs = mset ys \<Longrightarrow> need k xs = need k ys"
  unfolding need_def by (metis mset_filter size_mset)

definition affordable :: "(nat \<times> u64) list \<Rightarrow> ('w, 's) AtlasService \<Rightarrow> bool" where
  "affordable ks svc \<longleftrightarrow> (\<forall>k. need k ks \<le> chan_credit (channels svc) k)"

lemma affordable_append:
  assumes "affordable (xs @ ys) svc"
  shows "affordable xs svc" "affordable ys svc"
proof -
  have "need k xs + need k ys \<le> chan_credit (channels svc) k" for k
    using assms by (simp add: affordable_def)
  then show "affordable xs svc" "affordable ys svc"
    unfolding affordable_def by (meson add_leD1, meson add_leD2)
qed

lemma affordable_rest:
  assumes "affordable ks svc" "emits svc xs svc'" "mset ks = mset (keys xs) + mset ys"
  shows "affordable ys svc'"
  unfolding affordable_def
proof
  fix k
  have "need k ks = need k (keys xs) + need k ys"
    using need_mset [of ks "keys xs @ ys" k] assms(3) by simp
  moreover have "need k ks \<le> chan_credit (channels svc) k" using assms(1) by (simp add: affordable_def)
  moreover have "chan_credit (channels svc) k \<le> chan_credit (channels svc') k + need k (keys xs)"
    using assms(2) by (simp add: emits_def length_sent)
  ultimately show "need k ys \<le> chan_credit (channels svc') k" by simp
qed

text \<open>An operation that can be answered: its channel exists and has room for its sources.\<close>

definition answerable :: "MergedOp \<Rightarrow> ('w, 's) AtlasService \<Rightarrow> bool" where
  "answerable op svc \<longleftrightarrow> chans_wf (channels svc) \<and> mo_channel op < length (channels svc) \<and>
     sources_ok op \<and> affordable (op_keys op) svc"

lemma answer_list_total:
  assumes "answerable op svc"
  shows "\<exists>svc'. send_list (map (\<lambda>src. (mo_channel op, f src)) (mo_sources op)) svc = Inr svc'"
proof (rule send_list_total)
  have "map fst (map (\<lambda>src. (mo_channel op, f src)) (mo_sources op)) = map fst (op_keys op)"
    by (simp add: op_keys_def)
  then have "length (sent (map (\<lambda>src. (mo_channel op, f src)) (mo_sources op)) k) = need k (op_keys op)" for k
    unfolding sent_def need_def op_keys_def by (simp add: filter_map o_def)
  then show "\<forall>k. length (sent (map (\<lambda>src. (mo_channel op, f src)) (mo_sources op)) k)
      \<le> chan_credit (channels svc) k"
    using assms by (simp add: answerable_def affordable_def)
qed (use assms in \<open>auto simp: answerable_def\<close>)

lemma answer_one_total:
  assumes "answerable op svc"
  shows "\<exists>svc'. svc_send (mo_channel op) r svc = Inr svc'"
proof -
  have "0 < need (mo_channel op) (op_keys op)"
    using assms by (cases "mo_sources op") (auto simp: answerable_def sources_ok_def op_keys_def)
  then have "1 \<le> chan_credit (channels svc) (mo_channel op)"
    using assms by (auto simp: answerable_def affordable_def Suc_le_eq intro: less_le_trans)
  then have "\<exists>svc'. send_list [(mo_channel op, r)] svc = Inr svc'"
    using assms by (intro send_list_total) (auto simp: answerable_def)
  then show ?thesis unfolding svc_send_list .
qed

lemma send_errors_total: "answerable op svc \<Longrightarrow> \<exists>svc'. send_errors op st svc = Inr svc'"
  unfolding send_errors_list by (rule answer_list_total)

lemma answerable_channels: "channels svc' = channels svc \<Longrightarrow> answerable op svc' = answerable op svc"
  by (simp add: answerable_def affordable_def)

lemma handle_open_Release:
  "\<exists>resp svc'. handle_open Release E req svc = Inr (resp, svc') \<and> channels svc' = channels svc"
  by (cases "ex_open E (executor svc) (path_str req) (rq_len req) 420")
    (simp add: handle_open_def Let_def)

lemma triple_ex: "\<exists>a b c. x = (a, b, c)"
  by (cases x) auto

lemma round_step_total:
  assumes "answerable op svc"
  shows "\<exists>r. round_step Release E (svc, batch, origin) (i, op) = Inr r"
proof -
  have errs: "\<exists>r. prepare_read op svc = Inr r" "\<exists>r. prepare_write op svc = Inr r"
    using send_errors_total [OF assms, of "- EBADF"] assms
    by (auto simp: prepare_read_def prepare_write_def data_buf_def answerable_def split: option.splits)
  have sync: "\<exists>r. prepare_fsync op svc = Inr r"
    using answer_one_total [OF assms] by (auto simp: prepare_fsync_def split: option.splits)
      (metis and_then_simps(2))
  obtain resp svc1 where o: "handle_open Release E (mo_req op) svc = Inr (resp, svc1)"
    "channels svc1 = channels svc"
    using handle_open_Release by blast
  obtain resp' svc1' where c: "handle_close E (mo_req op) svc = (resp', svc1')" by force
  have c': "channels svc1' = channels svc" using handle_close_frame(1) [OF c] .
  have "answerable op svc1" "answerable op svc1'" using assms answerable_channels o(2) c' by blast+
  with answer_one_total obtain t t' where "svc_send (mo_channel op) resp svc1 = Inr t"
    "svc_send (mo_channel op) resp' svc1' = Inr t'" by blast
  with errs sync o(1) c answer_one_total [OF assms, of "IoResponse_err (rq_id (mo_req op)) (- 1)"]
  show ?thesis
    by (auto simp: round_step_def triple_ex split: option.splits IoOp.splits)
qed

lemma answerable_Cons:
  assumes "affordable (concat (map op_keys (op # ops))) svc" "chans_wf (channels svc)"
    and "\<forall>op \<in> set (op # ops). sources_ok op \<and> mo_channel op < length (channels svc)"
  shows "answerable op svc"
  using assms affordable_append(1) [of "op_keys op"] by (simp add: answerable_def)

lemma first_loop_total:
  assumes "affordable (concat (map op_keys ops)) svc" "chans_wf (channels svc)"
    and "\<forall>op \<in> set ops. sources_ok op \<and> mo_channel op < length (channels svc)"
  shows "\<exists>r. fold_exec (round_step Release E) (svc, batch, origin) (enumerate n ops) = Inr r"
  using assms
proof (induction ops arbitrary: n svc batch origin)
  case (Cons op ops)
  from round_step_total [OF answerable_Cons [OF Cons.prems]] obtain svc1 b1 o1 where
    s: "round_step Release E (svc, batch, origin) (n, op) = Inr (svc1, b1, o1)" by (metis prod_cases3)
  have "sources_ok op" using Cons.prems(3) by simp
  from round_step_emits [OF s Cons.prems(2) this] obtain xs where xs: "emits svc xs svc1"
    and alt: "keys xs = op_keys op \<or> xs = []" by blast
  have "affordable (concat (map op_keys ops)) svc1"
    using alt
  proof
    assume "keys xs = op_keys op"
    then show ?thesis by (intro affordable_rest [OF Cons.prems(1) xs]) simp
  next
    assume "xs = []"
    then have "affordable (concat (map op_keys (op # ops))) svc1"
      by (intro affordable_rest [OF Cons.prems(1) xs]) simp
    then show ?thesis using affordable_append(2) [of "op_keys op"] by simp
  qed
  from Cons.IH [OF this emits_wf [OF xs]] Cons.prems(3) emits_length [OF xs] s
  show ?case by auto
qed simp

lemma read_response_Release: "\<exists>r. read_response Release req n src = Inr r"
  by (cases src) (simp add: read_response_def)

lemma send_read_total:
  assumes "answerable op svc"
  shows "\<exists>svc'. send_read_responses Release op n svc = Inr svc'"
proof -
  let ?f = "\<lambda>src. projr (read_response Release (mo_req op) n src)"
  have f: "\<forall>src \<in> set (mo_sources op). read_response Release (mo_req op) n src = Inr (?f src)"
    using read_response_Release by (metis sum.sel(2))
  show ?thesis
    unfolding send_read_responses_def send_read_list_eq [OF f]
    using answer_list_total [OF assms] send_errors_total [OF assms] by (auto split: if_splits)
qed

lemma send_write_total:
  assumes "answerable op svc"
  shows "\<exists>svc'. send_write_responses op n svc = Inr svc'"
  unfolding send_write_list
  using answer_list_total [OF assms] send_errors_total [OF assms] by (auto split: if_splits)

lemma finish_step_total:
  assumes "answerable (all ! j) svc" "j < length all"
  shows "\<exists>svc'. finish_step Release all svc (bop, j) = Inr svc'"
proof (cases "bo_kind bop")
  case Pread
  with assms send_read_total show ?thesis by (simp add: finish_step_def)
next
  case Pwrite
  with assms send_write_total show ?thesis by (simp add: finish_step_def)
next
  case Fsync
  with answer_one_total [OF assms(1)] assms(2) show ?thesis
    by (simp add: finish_step_def send_fsync_response_def Let_def)
qed

lemma second_loop_total:
  assumes "list_all2 (\<lambda>j b. j < length all \<and> entry_for (all ! j) b) idx bs"
    and "map bo_kind batch' = map bo_kind bs" "chans_wf (channels svc)"
    and "affordable (concat (map (\<lambda>j. op_keys (all ! j)) idx)) svc"
    and "\<forall>op \<in> set all. sources_ok op \<and> mo_channel op < length (channels svc)"
  shows "\<exists>svc'. fold_exec (finish_step Release all) svc (zip batch' idx) = Inr svc'"
  using assms
proof (induction idx bs arbitrary: svc batch' rule: list_all2_induct)
  case (Cons j idx b bs)
  from Cons.prems(1) obtain bop batch2 where b': "batch' = bop # batch2" "bo_kind bop = bo_kind b"
    "map bo_kind batch2 = map bo_kind bs" by (cases batch') auto
  have j: "j < length all" using Cons.hyps(1) by simp
  have "affordable (op_keys (all ! j)) svc" using affordable_append(1) Cons.prems(3) by fastforce
  then have ans: "answerable (all ! j) svc"
    using Cons.prems(2,4) j by (simp add: answerable_def)
  from finish_step_total [OF this j] obtain svc1 where
    s: "finish_step Release all svc (bop, j) = Inr svc1" by blast
  have ok: "\<forall>op \<in> set all. sources_ok op" using Cons.prems(4) by blast
  from finish_step_emits [OF s Cons.prems(2) ok b'(2)] Cons.hyps(1) obtain ys where
    ys: "emits svc ys svc1" "keys ys = op_keys (all ! j)" by auto
  have "affordable (concat (map (\<lambda>j. op_keys (all ! j)) idx)) svc1"
    using ys(2) by (intro affordable_rest [OF Cons.prems(3) ys(1)]) simp
  from Cons.IH [OF b'(3) emits_wf [OF ys(1)] this] Cons.prems(4) emits_length [OF ys(1)]
  show ?case using s b'(1) by auto
qed simp

lemma execute_round_total:
  assumes "chans_wf (channels svc)" "affordable (concat (map op_keys ops)) svc"
    and ok: "\<forall>op \<in> set ops. sources_ok op \<and> mo_channel op < length (channels svc)"
    and be: "batch_executor (ex_batch E)" and tot: "\<And>w b. \<exists>r. ex_batch E w b = Inr r"
  shows "\<exists>svc'. execute_round Release E ops svc = Inr svc'"
proof -
  from first_loop_total [OF assms(2,1) ok] obtain svc1 batch origin where
    first: "fold_exec (round_step Release E) (svc, [], []) (enumerate 0 ops) = Inr (svc1, batch, origin)"
    by (metis prod_cases3)
  have ok': "\<forall>op \<in> set ops. sources_ok op" using ok by blast
  from first_loop_emits [OF first assms(1) ok', of ops] obtain xs where
    xs: "emits svc xs svc1" "list_all2 (\<lambda>j b. j < length ops \<and> entry_for (ops ! j) b) origin batch"
      "mset (keys xs) + mset (concat (map (\<lambda>j. op_keys (ops ! j)) origin)) = mset (concat (map op_keys ops))"
    by auto
  have aff: "affordable (concat (map (\<lambda>j. op_keys (ops ! j)) origin)) svc1"
    by (rule affordable_rest [OF assms(2) xs(1) xs(3) [symmetric]])
  obtain batch' w where b: "ex_batch E (executor svc1) batch = Inr (batch', w)" using tot by (metis surj_pair)
  have kinds: "map bo_kind batch' = map bo_kind batch" using be b by (rule batch_executor.batch_kinds)
  have "affordable (concat (map (\<lambda>j. op_keys (ops ! j)) origin)) (svc1\<lparr>executor := w\<rparr>)"
    using aff by (simp add: affordable_def)
  with second_loop_total [OF xs(2) kinds, of "svc1\<lparr>executor := w\<rparr>"] ok emits_length [OF xs(1)]
    emits_wf [OF xs(1)]
  have "\<exists>svc'. fold_exec (finish_step Release ops) (svc1\<lparr>executor := w\<rparr>) (zip batch' origin) = Inr svc'"
    by simp
  then show ?thesis using first b by (auto simp: execute_round_def)
qed

lemma need_waiting:
  assumes "k < length cs"
  shows "need k (map (\<lambda>(r, ch). (ch, rq_id r)) (waiting [0..<length cs] cs)) = length (requests (cs ! k))"
proof -
  let ?ks = "map (\<lambda>(r, ch). (ch, rq_id r)) (waiting [0..<length cs] cs)"
  have "need k ?ks = size (image_mset snd (filter_mset (\<lambda>x. fst x = k) (mset ?ks)))"
    by (simp only: need_def size_image_mset) (simp only: mset_filter [symmetric] size_mset)
  also have "\<dots> = size (mset (map rq_id (requests (cs ! k))))"
    using waiting_ids [of "[0..<length cs]" k cs] assms by simp
  finally show ?thesis by simp
qed

lemma need_outside: "(\<forall>x \<in> set ks. fst x \<noteq> k) \<Longrightarrow> need k ks = 0"
  by (induction ks) auto

text \<open>What a drain hands out can be answered when there is room for the answers to what was polled.\<close>

lemma drained_affordable:
  assumes keys: "mset (concat (map op_keys ops)) = mset (map (\<lambda>(r, ch). (ch, rq_id r)) w)"
    and "w = waiting [0..<length cs] cs"
    and "\<forall>k < length cs. length (requests (cs ! k)) \<le> chan_credit cs k"
  shows "need k (concat (map op_keys ops)) \<le> chan_credit cs k"
proof -
  have need: "need k (concat (map op_keys ops)) = need k (map (\<lambda>(r, ch). (ch, rq_id r)) w)"
    using keys by (rule need_mset)
  show ?thesis
  proof (cases "k < length cs")
    case True
    with assms(2,3) need need_waiting show ?thesis by simp
  next
    case False
    with assms(2) have "need k (map (\<lambda>(r, ch). (ch, rq_id r)) w) = 0"
      by (intro need_outside) (auto simp: waiting_def)
    with need show ?thesis by simp
  qed
qed

lemma serve_round_total:
  assumes bt: "between_rounds Pl invar svc"
    and room: "\<forall>k < length (channels svc). length (requests (channels svc ! k)) \<le> chan_credit (channels svc) k"
    and be: "batch_executor (ex_batch E)" and tot: "\<And>w b. \<exists>r. ex_batch E w b = Inr r"
    and pl: "request_pipeline (pl_add Pl) (pl_is_empty Pl) (pl_drain Pl) held invar"
  shows "\<exists>r. serve_round Release E Pl svc = Inr r"
proof -
  let ?n = "length (channels svc)" and ?w = "waiting [0..<length (channels svc)] (channels svc)"
  obtain svc1 d where poll: "poll_channels Pl [0..<?n] svc False = (svc1, d)" by force
  have st: "chans_wf (channels svc)" "invar (stage svc)" "pl_is_empty Pl (stage svc)"
    using bt by (auto simp: between_rounds_def)
  have ps: "chans_wf (channels svc1)" "length (channels svc1) = ?n"
    "stage svc1 = add_all Pl ?w (stage svc)"
    "\<And>k. chan_credit (channels svc1) k = chan_credit (channels svc) k"
    using poll_channels_spec [OF poll st(1)] by (simp_all add: lessThan_atLeast0)
  show ?thesis
  proof (cases "pl_is_empty Pl (stage svc1)")
    case False
    have "invar (stage svc1)"
      using request_pipeline.add_all [OF pl st(2)] by (simp add: ps(3) add_all_def)
    from request_pipeline.drain_release [OF pl this] obtain ops s where
      dr: "pl_drain Pl Release (stage svc1) = Inr (ops, s)" by (metis surj_pair)
    note d = drained_ops [OF pl st(2,3) dr [unfolded ps(3)]]
    have ch: "\<forall>x \<in> set ?w. snd x < ?n" by (auto simp: waiting_def)
    have "need k (concat (map op_keys ops)) \<le> chan_credit (channels svc) k" for k
      using d room by (intro drained_affordable [OF _ refl]) simp_all
    then have "affordable (concat (map op_keys ops)) (svc1\<lparr>stage := s\<rparr>)"
      using ps(4) by (simp add: affordable_def)
    moreover have "\<forall>op \<in> set ops. sources_ok op \<and> mo_channel op < length (channels (svc1\<lparr>stage := s\<rparr>))"
    proof
      fix op assume op: "op \<in> set ops"
      then have "mo_channel op \<in> snd ` set ?w" using d by blast
      then have "mo_channel op < ?n" using ch by force
      then show "sources_ok op \<and> mo_channel op < length (channels (svc1\<lparr>stage := s\<rparr>))"
        using d op ps(2) by simp
    qed
    ultimately have "\<exists>svc'. execute_round Release E ops (svc1\<lparr>stage := s\<rparr>) = Inr svc'"
      using ps(1) by (intro execute_round_total be tot) simp_all
    then show ?thesis using poll False dr by (auto simp: serve_round_def)
  qed (use poll in \<open>simp add: serve_round_def\<close>)
qed

section \<open>A run\<close>

lemma run_service_spec:
  assumes "run_service p E Pl mss svc = Inr svc'" "between_rounds Pl invar svc"
    and "batch_executor (ex_batch E)"
    and "request_pipeline (pl_add Pl) (pl_is_empty Pl) (pl_drain Pl) held invar"
    and "\<forall>k < length (channels svc). requests (channels svc ! k) = []"
  shows "between_rounds Pl invar svc' \<and> length (channels svc') = length (channels svc) \<and>
    (\<forall>k < length (channels svc). requests (channels svc' ! k) = [] \<and>
       (\<exists>new. chan_log (channels svc') k = chan_log (channels svc) k @ new \<and>
          mset (map rs_id new) = mset (map rq_id (run_accepted p E Pl mss svc k))))"
  using assms(1,2,5)
proof (induction mss arbitrary: svc)
  case (Cons ms mss)
  let ?svc = "svc\<lparr>channels := client_moves ms (channels svc)\<rparr>"
  from Cons.prems(1) obtain svc1 w where s: "serve_round p E Pl ?svc = Inr (svc1, w)"
    and r: "run_service p E Pl mss svc1 = Inr svc'" by (auto elim!: and_then_InrE)
  have wf: "chans_wf (channels svc)" using Cons.prems(2) by (simp add: between_rounds_def)
  note cm = client_moves_spec [OF wf, of ms]
  have bt: "between_rounds Pl invar ?svc" using Cons.prems(2) cm by (simp add: between_rounds_def)
  note sp = serve_round_spec [OF s bt assms(3,4)]
  note ih = Cons.IH [OF r]
  have len: "length (channels svc1) = length (channels svc)" using sp cm by simp
  have "requests (channels svc' ! k) = [] \<and>
       (\<exists>new. chan_log (channels svc') k = chan_log (channels svc) k @ new \<and>
          mset (map rs_id new) = mset (map rq_id (run_accepted p E Pl (ms # mss) svc k)))"
    if k: "k < length (channels svc)" for k
  proof -
    obtain n1 where n1: "chan_log (channels svc1) k = chan_log (channels svc) k @ n1"
      "mset (map rs_id n1) = mset (map rq_id (accepted ms (channels svc) k))"
      using sp cm k Cons.prems(3) by auto
    obtain n2 where n2: "chan_log (channels svc') k = chan_log (channels svc1) k @ n2"
      "mset (map rs_id n2) = mset (map rq_id (run_accepted p E Pl mss svc1 k))"
      "requests (channels svc' ! k) = []"
      using ih sp cm k len by auto
    show ?thesis
      using n1 n2 s by (intro conjI exI [of _ "n1 @ n2"]) simp_all
  qed
  then show ?case using ih sp cm len by simp
qed simp

end
