(* ===== verification/Service_Descriptors.thy ===== *)
theory Service_Descriptors
  imports Service_Answers
begin

text \<open>
  The descriptor table across a round, operations on unknown descriptors, and the exact responses to a
  read.
\<close>

section \<open>The descriptor table\<close>

text \<open>Every virtual descriptor in the table was handed out before: it is below the counter.\<close>

definition fd_inv :: "('w, 's) AtlasService \<Rightarrow> bool" where
  "fd_inv svc \<longleftrightarrow> 0 < next_fd svc \<and> (\<forall>v fd. fd_table svc v = Some fd \<longrightarrow> 0 < v \<and> v < next_fd svc)"

lemma fd_inv_fresh: "fd_inv svc \<Longrightarrow> fd_table svc (next_fd svc) = None"
  unfolding fd_inv_def by (cases "fd_table svc (next_fd svc)") auto

lemma svc_send_core: "svc_send k r svc = Inr svc' \<Longrightarrow> same_core svc svc'"
  by (auto simp: svc_send_def same_core_def elim!: and_then_InrE)

lemma same_core_refl: "same_core svc svc"
  by (simp add: same_core_def)

lemma send_list_core: "send_list xs svc = Inr svc' \<Longrightarrow> same_core svc svc'"
proof (induction xs arbitrary: svc)
  case (Cons x xs)
  then show ?case by (auto elim!: and_then_InrE dest!: svc_send_core intro: same_core_trans)
qed (simp add: same_core_refl)

lemma responses_core:
  "send_errors op st svc = Inr svc' \<Longrightarrow> same_core svc svc'"
  "send_write_responses op n svc = Inr svc' \<Longrightarrow> same_core svc svc'"
  "send_read_responses p op n svc = Inr svc' \<Longrightarrow> same_core svc svc'"
  "send_fsync_response op n svc = Inr svc' \<Longrightarrow> same_core svc svc'"
  using send_list_core send_read_list
  by (auto simp: send_errors_list send_write_list send_read_responses_def send_fsync_response_def
      split: if_splits dest!: svc_send_core) blast+

lemma prepare_core:
  "prepare_read op svc = Inr (b, svc') \<Longrightarrow> same_core svc svc'"
  "prepare_write op svc = Inr (b, svc') \<Longrightarrow> same_core svc svc'"
  "prepare_fsync op svc = Inr (b, svc') \<Longrightarrow> same_core svc svc'"
  using responses_core(1) svc_send_core
  by (auto simp: prepare_read_def prepare_write_def prepare_fsync_def same_core_refl
      split: option.splits elim!: and_then_InrE)

lemma finish_step_core: "finish_step p all svc (bop, j) = Inr svc' \<Longrightarrow> same_core svc svc'"
  by (auto simp: finish_step_def Let_def split: if_splits BatchKind.splits dest: responses_core)

lemma unat_Suc_word:
  fixes a :: u64
  shows "p = Debug \<and> uadd p a 1 = Inr b \<or> Suc (unat a) < 2 ^ 64 \<and> uadd p a 1 = Inr b \<Longrightarrow>
    b = a + 1 \<and> unat b = Suc (unat a)"
  using unat_add_no_overflow [of a 1] by (auto simp: uadd_def split: if_splits)

lemma handle_open_spec:
  assumes "handle_open p E req svc = Inr (resp, svc')" "fd_inv svc"
    and "p = Debug \<or> Suc (unat (next_fd svc)) < 2 ^ 64"
  shows "fd_inv svc' \<and> unat (next_fd svc) \<le> unat (next_fd svc') \<and>
    unat (next_fd svc') \<le> Suc (unat (next_fd svc))"
proof -
  obtain rc w where rc: "ex_open E (executor svc) (path_str req) (rq_len req) 420 = (rc, w)" by force
  show ?thesis
  proof (cases "negative rc")
    case True
    with assms rc show ?thesis by (auto simp: handle_open_def fd_inv_def Let_def)
  next
    case False
    with assms(1) rc obtain nf where nf: "uadd p (next_fd svc) 1 = Inr nf"
      and svc': "next_fd svc' = nf" "fd_table svc' = (fd_table svc)(next_fd svc \<mapsto> i64_as_i32 rc)"
      by (auto simp: handle_open_def Let_def elim!: and_then_InrE)
    have u: "unat nf = Suc (unat (next_fd svc))"
      using unat_Suc_word [of p "next_fd svc" nf] nf assms(3) by blast
    then have lt: "next_fd svc < nf" by (simp add: word_less_nat_alt)
    have "0 < nf" using u by (simp add: word_less_nat_alt)
    then show ?thesis
      using assms(2) u lt svc' by (auto simp: fd_inv_def intro: less_trans split: if_splits)
  qed
qed

lemma handle_close_fds:
  assumes "handle_close E req svc = (resp, svc')" "fd_inv svc"
  shows "fd_inv svc' \<and> next_fd svc' = next_fd svc"
  using assms by (auto simp: handle_close_def fd_inv_def Let_def split: option.splits prod.splits if_splits)

lemma same_core_fds: "same_core svc svc' \<Longrightarrow> fd_inv svc \<Longrightarrow> fd_inv svc' \<and> next_fd svc' = next_fd svc"
  by (simp add: same_core_def fd_inv_def)

lemma round_step_fds:
  assumes "round_step p E (svc, batch, origin) (i, op) = Inr (svc', batch', origin')" "fd_inv svc"
    and "p = Debug \<or> Suc (unat (next_fd svc)) < 2 ^ 64"
  shows "fd_inv svc' \<and> unat (next_fd svc) \<le> unat (next_fd svc') \<and>
    unat (next_fd svc') \<le> Suc (unat (next_fd svc))"
  using assms(1)
proof (cases rule: round_stepE)
  case (sent resp svc1)
  note s = same_core_fds [OF svc_send_core [OF sent(1)]]
  from sent(8) consider "svc1 = svc" | "handle_open p E (mo_req op) svc = Inr (resp, svc1)"
    | "handle_close E (mo_req op) svc = (resp, svc1)" by blast
  then show ?thesis
  proof cases
    case 1
    then show ?thesis using s assms(2) by simp
  next
    case 2
    then show ?thesis using handle_open_spec [OF 2 assms(2,3)] s by simp
  next
    case 3
    then show ?thesis using handle_close_fds [OF 3 assms(2)] s by simp
  qed
next
  case (kept r)
  then have "same_core svc svc'"
    by (cases r) (auto simp: keep_def split: option.splits dest: prepare_core)
  from same_core_fds [OF this assms(2)] show ?thesis by simp
qed

lemma first_loop_fds:
  assumes "fold_exec (round_step p E) (svc, batch, origin) (enumerate n ops) = Inr (svc', batch', origin')"
    and "fd_inv svc" "p = Debug \<or> unat (next_fd svc) + length ops < 2 ^ 64"
  shows "fd_inv svc' \<and> unat (next_fd svc) \<le> unat (next_fd svc')"
  using assms
proof (induction ops arbitrary: n svc batch origin)
  case (Cons op ops)
  from Cons.prems(1) obtain svc1 b1 o1 where
    s: "round_step p E (svc, batch, origin) (n, op) = Inr (svc1, b1, o1)"
    and rest: "fold_exec (round_step p E) (svc1, b1, o1) (enumerate (Suc n) ops) = Inr (svc', batch', origin')"
    by (auto elim!: and_then_InrE)
  have "p = Debug \<or> Suc (unat (next_fd svc)) < 2 ^ 64" using Cons.prems(3) by auto
  note st = round_step_fds [OF s Cons.prems(2) this]
  have "p = Debug \<or> unat (next_fd svc1) + length ops < 2 ^ 64" using Cons.prems(3) st by auto
  with Cons.IH [OF rest] st show ?case by auto
qed simp

lemma execute_round_fds:
  assumes "execute_round p E ops svc = Inr svc'" "fd_inv svc"
    and "p = Debug \<or> unat (next_fd svc) + length ops < 2 ^ 64"
  shows "fd_inv svc' \<and> unat (next_fd svc) \<le> unat (next_fd svc')"
proof -
  from assms(1) obtain svc1 batch origin where
    first: "fold_exec (round_step p E) (svc, [], []) (enumerate 0 ops) = Inr (svc1, batch, origin)"
    and second: "(if batch = [] then Inr svc1
         else and_then (ex_batch E (executor svc1) batch) (\<lambda>r. case r of (batch', w) \<Rightarrow>
           fold_exec (finish_step p ops) (svc1\<lparr>executor := w\<rparr>) (zip batch' origin))) = Inr svc'"
    by (auto simp: execute_round_def elim!: and_then_InrE)
  note f = first_loop_fds [OF first assms(2,3)]
  have "fd_table svc' = fd_table svc1 \<and> next_fd svc' = next_fd svc1"
  proof (cases "batch = []")
    case False
    with second obtain batch' w where
      fin: "fold_exec (finish_step p ops) (svc1\<lparr>executor := w\<rparr>) (zip batch' origin) = Inr svc'"
      by (auto elim!: and_then_InrE)
    have "same_core (svc1\<lparr>executor := w\<rparr>) svc'"
    proof (rule fold_exec_invariant [OF fin, of "same_core (svc1\<lparr>executor := w\<rparr>)"])
      show "same_core (svc1\<lparr>executor := w\<rparr>) (svc1\<lparr>executor := w\<rparr>)" by (rule same_core_refl)
      fix s x t
      assume "same_core (svc1\<lparr>executor := w\<rparr>) s" "finish_step p ops s x = Inr t"
      then show "same_core (svc1\<lparr>executor := w\<rparr>) t"
        using finish_step_core same_core_trans by (cases x) blast
    qed
    then show ?thesis by (simp add: same_core_def)
  qed (use second in simp)
  with f show ?thesis by (simp add: fd_inv_def)
qed

section \<open>Unknown descriptors\<close>

lemma refused_step:
  assumes "round_step p E (svc, batch, origin) (i, op) = Inr (svc', batch', origin')"
    and wf: "chans_wf (channels svc)" and ok: "sources_ok op"
    and k: "op_from_u8 (rq_op (mo_req op)) \<in> {Some Read, Some Write, Some Sync, Some Close}"
    and none: "fd_table svc (rq_fd (mo_req op)) = None"
  shows "batch' = batch \<and> origin' = origin \<and> same_core svc svc' \<and>
    emits svc (map (\<lambda>src. (mo_channel op, IoResponse_err (fst src) (- EBADF))) (mo_sources op)) svc'"
proof -
  let ?xs = "map (\<lambda>src. (mo_channel op, IoResponse_err (fst src) (- EBADF))) (mo_sources op)"
  have list: ?thesis if "send_list ?xs svc = Inr svc'" "batch' = batch" "origin' = origin"
    using send_list_emits [OF wf that(1)] that by simp
  have one: "svc_send (mo_channel op) (IoResponse_err (rq_id (mo_req op)) (- EBADF)) svc = send_list ?xs svc"
    if "op_from_u8 (rq_op (mo_req op)) \<in> {Some Sync, Some Close}"
  proof -
    have "map fst (mo_sources op) = [rq_id (mo_req op)]" using ok that by (auto simp: sources_ok_def)
    then have "?xs = [(mo_channel op, IoResponse_err (rq_id (mo_req op)) (- EBADF))]" by auto
    then show ?thesis by (simp only: svc_send_list)
  qed
  from k consider "op_from_u8 (rq_op (mo_req op)) = Some Read" | "op_from_u8 (rq_op (mo_req op)) = Some Write"
    | "op_from_u8 (rq_op (mo_req op)) = Some Sync" | "op_from_u8 (rq_op (mo_req op)) = Some Close" by auto
  then show ?thesis
  proof cases
    case 1
    with assms(1) none show ?thesis
      by (intro list) (auto simp: round_step_def prepare_read_def send_errors_list keep_def elim!: and_then_InrE)
  next
    case 2
    with assms(1) none show ?thesis
      by (intro list) (auto simp: round_step_def prepare_write_def send_errors_list keep_def elim!: and_then_InrE)
  next
    case 3
    with assms(1) none one show ?thesis
      by (intro list) (auto simp: round_step_def prepare_fsync_def keep_def elim!: and_then_InrE)
  next
    case 4
    with assms(1) none one show ?thesis
      by (intro list) (auto simp: round_step_def handle_close_def elim!: and_then_InrE)
  qed
qed

section \<open>Reads\<close>

text \<open>The response for one source, when no sum overflows and the read returned \<open>n\<close> bytes of the span.\<close>

lemma read_response_exact:
  assumes "unat (rq_data_offset req) + span < 2 ^ 32" "unat within + unat l \<le> span" "n \<le> span"
  shows "\<exists>r. read_response p req (of_nat n) (i, within, l) = Inr r \<and> rs_id r = i \<and> rs_status r = 0 \<and>
    unat (rs_data_offset r) = unat (rq_data_offset req) + unat within \<and>
    unat (rs_data_len r) = min (unat l) (n - unat within)"
proof -
  have n: "n < 2 ^ 32" using assms(1,3) by simp
  have n64: "unat (of_nat n :: u64) = n" using n by (simp add: unat_of_nat)
  have sn: "sint (of_nat n :: u64) = int n"
  proof -
    have "unat (of_nat n :: u64) < 2 ^ 63" unfolding n64 using n by simp
    then have "sint (of_nat n :: u64) = int (unat (of_nat n :: u64))" by (rule sint_u64_small)
    then show ?thesis by (simp only: n64)
  qed
  have n32: "unat (as_u32 (of_nat n :: u64)) = n" using n n64 by (simp only: unat_as_u32_small)
  have sum: "unat (rq_data_offset req) + unat within < 2 ^ 32" using assms(1,2) by simp
  then have add: "uadd p (rq_data_offset req) within = Inr (rq_data_offset req + within)"
    by (intro uadd_no_overflow) simp
  have off: "unat (rq_data_offset req + within) = unat (rq_data_offset req) + unat within"
    using sum by (intro unat_add_no_overflow) simp
  show ?thesis
  proof (cases "unat within < n")
    case True
    then have le: "within \<le> as_u32 (of_nat n :: u64)" by (simp only: word_le_nat_alt n32)
    then have "unat (as_u32 (of_nat n :: u64) - within) = n - unat within" by (simp only: unat_sub n32)
    then have "unat (min (as_u32 (of_nat n :: u64) - within) l) = min (n - unat within) (unat l)"
      by (simp add: min_def word_le_nat_alt)
    moreover have "uint within < int n"
    proof -
      have "int (unat within) < int n" using True by (simp only: of_nat_less_iff)
      then show ?thesis by simp
    qed
    ultimately show ?thesis
      using True le add off by (simp add: read_response_def sn sint_as_u64_u32 min.commute)
  next
    case False
    then have "int n \<le> int (unat within)" by (simp only: of_nat_le_iff not_less)
    then have "\<not> uint within < int n" by simp
    then show ?thesis
      using False add off by (simp add: read_response_def sn sint_as_u64_u32)
  qed
qed

end
