(* ===== verification/Service_Properties.thy ===== *)
theory Service_Properties
  imports Service_Completion Service_Descriptors
begin

text \<open>
  The properties of the service: what an iteration and a run answer, that they return, and what happens to
  descriptors; and, on a concrete C library, behaviours of the service that its documentation does not
  lead one to expect.
\<close>

section \<open>A concrete C library and a concrete service\<close>

text \<open>A library that records its calls; \<open>n\<close> gives the number of bytes a transfer reports.\<close>

datatype call =
    COpen "u8 list" i32 u32
  | CClose i32
  | CRead i32 buf usize i64
  | CWrite i32 buf usize i64
  | CSync i32

definition demo_libc :: "(usize \<Rightarrow> i64) \<Rightarrow> call list LibC" where
  "demo_libc n =
     \<lparr>c_open = (\<lambda>w path flags mode. (of_nat (3 + length w), w @ [COpen path flags mode])),
      c_close = (\<lambda>w fd. (0, w @ [CClose fd])),
      c_pread = (\<lambda>w fd b l off. (n l, w @ [CRead fd b l off])),
      c_pwrite = (\<lambda>w fd b l off. (n l, w @ [CWrite fd b l off])),
      c_fsync = (\<lambda>w fd. (0, w @ [CSync fd])),
      c_last_os_error = (\<lambda>w. Some EBADF)\<rparr>"

lemma demo_libc_simps [simp]:
  "c_close (demo_libc n) w fd = (0, w @ [CClose fd])"
  "c_pread (demo_libc n) w fd b l off = (n l, w @ [CRead fd b l off])"
  "c_pwrite (demo_libc n) w fd b l off = (n l, w @ [CWrite fd b l off])"
  "c_fsync (demo_libc n) w fd = (0, w @ [CSync fd])"
  "c_last_os_error (demo_libc n) w = Some EBADF"
  by (simp_all add: demo_libc_def)

lemma posix_batch_total: "\<exists>r. ex_batch (PosixExecutor L) w b = Inr r"
  by (simp add: PosixExecutor_def posix_batch_def)

lemma pass_through_pipeline:
  "request_pipeline (pl_add pass_through) (pl_is_empty pass_through) (pl_drain pass_through)
     pt_held (\<lambda>_. True)"
  using passthrough.request_pipeline_axioms by (simp add: pass_through_def)

lemma batched_pipeline:
  "request_pipeline (pl_add batched) (pl_is_empty batched) (pl_drain batched) bt_held bt_wf"
  using batched_stage.request_pipeline_axioms by (simp add: batched_def)

text \<open>A fresh channel: two freshly initialised rings.\<close>

definition fresh_channel :: "u32 \<Rightarrow> ServiceChannel" where
  "fresh_channel i =
     \<lparr>sc_req = spsc_open (fresh_ring (IoRequest_new 0 Open Low)),
      sc_resp = spsc_open (fresh_ring (IoResponse_ok 0)), sc_instance = i, sc_taken = [], sc_moves = []\<rparr>"

definition fresh_service :: "('w, 's) AtlasService \<Rightarrow> nat \<Rightarrow> ('w, 's) AtlasService" where
  "fresh_service svc n = svc\<lparr>channels := map (\<lambda>i. fresh_channel (of_nat i)) [0..<n]\<rparr>"

lemma fresh_channel_wf [simp]:
  "chan_wf (fresh_channel i)" "requests (fresh_channel i) = []" "resp_log (fresh_channel i) = []"
  "credit (fresh_channel i) = 4096"
  by (simp_all add: chan_wf_def fresh_channel_def spsc_wf_open resp_log_def spsc_contents_def
      credit_def unat_RING_CAPACITY)

lemma fresh_service_simps [simp]:
  "length (channels (fresh_service svc n)) = n" "chans_wf (channels (fresh_service svc n))"
  "k < n \<Longrightarrow> requests (channels (fresh_service svc n) ! k) = []"
  "k < n \<Longrightarrow> chan_log (channels (fresh_service svc n)) k = []"
  "k < n \<Longrightarrow> chan_credit (channels (fresh_service svc n)) k = 4096"
  "stage (fresh_service svc n) = stage svc" "fd_table (fresh_service svc n) = fd_table svc"
  "next_fd (fresh_service svc n) = next_fd svc" "executor (fresh_service svc n) = executor svc"
  by (auto simp: fresh_service_def chans_wf_def chan_log_def chan_credit_def)

section \<open>Answers\<close>

text \<open>C1. One iteration of the service loop, with any executor and stage that keep their contracts,
  empties every request ring and sends on each channel exactly one response for each request that
  was waiting in it, with that request's id: no request is dropped, answered twice or answered on
  another channel, whatever was merged, reordered, refused or failed.\<close>

theorem serve_round_answers:
  assumes "serve_round p E Pl svc = Inr (svc', w)" "between_rounds Pl invar svc"
    and "batch_executor (ex_batch E)"
    and "request_pipeline (pl_add Pl) (pl_is_empty Pl) (pl_drain Pl) held invar"
  shows "between_rounds Pl invar svc' \<and> length (channels svc') = length (channels svc) \<and>
    (\<forall>k < length (channels svc). requests (channels svc' ! k) = [] \<and>
       (\<exists>new. chan_log (channels svc') k = chan_log (channels svc) k @ new \<and>
          mset (map rs_id new) = mset (map rq_id (requests (channels svc ! k)))))"
  using assms by (rule serve_round_spec)

text \<open>The example: two channels, a request waiting in the second.\<close>

definition example_service :: "(call list, Batched) AtlasService" where
  "example_service =
     (let svc = fresh_service (with_pipeline [] Batched_new) 2
      in svc\<lparr>channels := client_moves [Pushes 1 (mk_req 7 Sync 10 0 0 0)] (channels svc)\<rparr>)"

lemma push_fresh: "fst (client_push r (fresh_channel i)) = Inr ()"
proof -
  have "spsc_wf RING_CAPACITY (sc_req (fresh_channel i))"
    using fresh_channel_wf(1) [of i] by (simp add: chan_wf_def)
  from spscq.enq_space [OF this, of r] have "fst (spsc_enq RING_CAPACITY r (sc_req (fresh_channel i))) = Inr ()"
    by (simp add: unat_RING_CAPACITY)
  then show ?thesis by (auto simp: client_push_def split: prod.splits)
qed

lemma fresh_nth: "k < n \<Longrightarrow> channels (fresh_service svc n) ! k = fresh_channel (of_nat k)"
  by (simp add: fresh_service_def)

lemma example_service_facts:
  "between_rounds batched bt_wf example_service" "length (channels example_service) = 2"
  "requests (channels example_service ! 0) = []"
  "requests (channels example_service ! 1) = [mk_req 7 Sync 10 0 0 0]"
proof -
  let ?cs = "channels (fresh_service (with_pipeline ([] :: call list) Batched_new) 2)"
  have wf: "chans_wf ?cs" by simp
  note cm = client_moves_spec [OF wf, of "[Pushes 1 (mk_req 7 Sync 10 0 0 0)]"]
  show "between_rounds batched bt_wf example_service"
    using cm bt_new_wf by (simp add: between_rounds_def example_service_def Let_def with_pipeline_def batched_def)
  show "length (channels example_service) = 2" using cm by (simp add: example_service_def Let_def)
  show "requests (channels example_service ! 0) = []"
    using cm by (simp add: example_service_def Let_def move_accepted_def)
  show "requests (channels example_service ! 1) = [mk_req 7 Sync 10 0 0 0]"
    using cm push_fresh by (simp add: example_service_def Let_def move_accepted_def fresh_nth)
qed

lemma example_credit: "k < 2 \<Longrightarrow> chan_credit (channels example_service) k = 4096"
proof -
  assume k: "k < 2"
  let ?c = "fresh_channel 1" and ?r = "mk_req 7 Sync 10 0 0 0"
  have "credit (snd (client_push ?r ?c)) = 4096"
    using client_push_spec [of ?c ?r] by (metis fresh_channel_wf(1,4) surj_pair snd_conv)
  with k show ?thesis
    by (auto simp: example_service_def Let_def chan_credit_def client_move_def fresh_nth nth_list_update
        less_2_cases_iff)
qed

lemma example_room:
  "\<forall>k < length (channels example_service). length (requests (channels example_service ! k))
     \<le> chan_credit (channels example_service) k"
  using example_service_facts example_credit by (auto simp: less_2_cases_iff)

theorem serve_round_answers_witness:
  "\<exists>svc' w new. serve_round Release (PosixExecutor (demo_libc id)) batched example_service = Inr (svc', w) \<and>
     chan_log (channels svc') 1 = chan_log (channels example_service) 1 @ new \<and>
     mset (map rs_id new) = {#7#}"
proof -
  obtain svc' w where s: "serve_round Release (PosixExecutor (demo_libc id)) batched example_service = Inr (svc', w)"
    using serve_round_total [OF example_service_facts(1) example_room posix_batch_executor
        posix_batch_total batched_pipeline] by (metis surj_pair)
  from serve_round_answers [OF s example_service_facts(1) posix_batch_executor batched_pipeline]
  obtain new where "chan_log (channels svc') 1 = chan_log (channels example_service) 1 @ new"
    "mset (map rs_id new) = {#7#}"
    using example_service_facts(2,4) by (auto dest!: spec [of _ 1])
  with s show ?thesis by (intro exI conjI)
qed

text \<open>The same over a whole run of the loop, with the clients pushing requests and taking
  responses between iterations: when the run stops after its last iteration, the responses sent on
  each channel are, one for one, those of the requests its ring accepted.\<close>

theorem run_answers_exactly_once:
  assumes "run_service p E Pl mss svc = Inr svc'" "between_rounds Pl invar svc"
    and "batch_executor (ex_batch E)"
    and "request_pipeline (pl_add Pl) (pl_is_empty Pl) (pl_drain Pl) held invar"
    and "\<forall>k < length (channels svc). requests (channels svc ! k) = []"
  shows "between_rounds Pl invar svc' \<and>
    (\<forall>k < length (channels svc). requests (channels svc' ! k) = [] \<and>
       (\<exists>new. chan_log (channels svc') k = chan_log (channels svc) k @ new \<and>
          mset (map rs_id new) = mset (map rq_id (run_accepted p E Pl mss svc k))))"
  using run_service_spec [OF assms] by blast

lemma fresh_between_rounds:
  "between_rounds batched bt_wf (fresh_service (with_pipeline w Batched_new) n)"
  "between_rounds pass_through (\<lambda>_. True) (fresh_service (AtlasService_new w) n)"
  using bt_new_wf
  by (simp_all add: between_rounds_def with_pipeline_def AtlasService_new_def batched_def
      pass_through_def PassThrough_new_def pt_is_empty_def)

theorem run_answers_exactly_once_witness:
  "let svc = fresh_service (with_pipeline [] Batched_new) 2;
       mss = [[Pushes 1 (mk_req 7 Sync 10 0 0 0)]] in
   \<exists>svc' new. run_service Release (PosixExecutor (demo_libc id)) batched mss svc = Inr svc' \<and>
     chan_log (channels svc') 1 = chan_log (channels svc) 1 @ new \<and> mset (map rs_id new) = {#7#}"
proof -
  let ?svc = "fresh_service (with_pipeline ([] :: call list) Batched_new) 2"
    and ?ms = "[Pushes 1 (mk_req 7 Sync 10 0 0 0)]" and ?E = "PosixExecutor (demo_libc id)"
  have ex: "?svc\<lparr>channels := client_moves ?ms (channels ?svc)\<rparr> = example_service"
    by (simp add: example_service_def Let_def)
  obtain svc' w where s: "serve_round Release ?E batched example_service = Inr (svc', w)"
    using serve_round_total [OF example_service_facts(1) example_room posix_batch_executor
        posix_batch_total batched_pipeline] by (metis surj_pair)
  then have r: "run_service Release ?E batched [?ms] ?svc = Inr svc'"
    by (simp only: run_service.simps ex and_then_simps fst_conv)
  have acc: "run_accepted Release ?E batched [?ms] ?svc 1 = [mk_req 7 Sync 10 0 0 0]"
    unfolding run_accepted.simps ex s by (simp add: move_accepted_def fresh_nth push_fresh)
  from run_answers_exactly_once [OF r fresh_between_rounds(1) posix_batch_executor batched_pipeline]
  obtain new where "chan_log (channels svc') 1 = chan_log (channels ?svc) 1 @ new"
    "mset (map rs_id new) = mset (map rq_id (run_accepted Release ?E batched [?ms] ?svc 1))"
    by (auto simp del: run_accepted.simps dest!: spec [of _ 1])
  with r acc show ?thesis unfolding Let_def by (intro exI conjI) simp_all
qed

text \<open>C2. In the release profile an iteration returns whenever each channel has room, now or by the
  client's next takes, for the answers to its waiting requests (a blocking client has at most one):
  the polling loop ends, no index is out of range, no arithmetic panics, no send spins for ever.\<close>

theorem serve_round_completes:
  assumes "between_rounds Pl invar svc"
    and "\<forall>k < length (channels svc).
      length (requests (channels svc ! k)) \<le> chan_credit (channels svc) k"
    and "batch_executor (ex_batch E)" and "\<forall>w b. \<exists>r. ex_batch E w b = Inr r"
    and "request_pipeline (pl_add Pl) (pl_is_empty Pl) (pl_drain Pl) held invar"
  shows "\<exists>svc' w. serve_round Release E Pl svc = Inr (svc', w)"
  using serve_round_total [OF assms(1-3) _ assms(5)] assms(4) by auto

theorem serve_round_completes_witness:
  "\<exists>svc' w. serve_round Release (PosixExecutor (demo_libc id)) batched example_service = Inr (svc', w)"
  by (intro serve_round_completes [OF example_service_facts(1) example_room posix_batch_executor _
        batched_pipeline] allI posix_batch_total)

section \<open>Descriptors\<close>

text \<open>C26. The descriptor table is sound across a round: every virtual descriptor in it is nonzero and
  below the counter, and the counter never goes back. So a descriptor that is handed out is never
  one that is or was in use, even after closes. (Without overflow checks this needs the 64-bit
  counter not to wrap.)\<close>

theorem descriptors_stay_fresh:
  assumes "execute_round p E ops svc = Inr svc'" "fd_inv svc"
    and "p = Debug \<or> unat (next_fd svc) + length ops < 2 ^ 64"
  shows "fd_inv svc' \<and> next_fd svc \<le> next_fd svc' \<and> fd_table svc' (next_fd svc') = None"
  using execute_round_fds [OF assms] by (auto simp: word_le_nat_alt fd_inv_fresh)

text \<open>The rounds of the examples.\<close>

definition open_req :: IoRequest where
  "open_req = set_path (IoRequest_new 1 Open High) [47, 97]"

definition req_op :: "IoRequest \<Rightarrow> nat \<Rightarrow> MergedOp" where
  "req_op r k = \<lparr>mo_req = r, mo_channel = k, mo_sources = [(rq_id r, 0, rq_len r)]\<rparr>"

lemma sources_ok_req_op [simp]: "sources_ok (req_op r k)"
  by (simp add: req_op_def sources_ok_def)

lemma op_keys_req_op [simp]: "op_keys (req_op r k) = [(k, rq_id r)]"
  by (simp add: req_op_def op_keys_def)

lemma req_op_simps [simp]:
  "mo_req (req_op r k) = r" "mo_channel (req_op r k) = k" "mo_sources (req_op r k) = [(rq_id r, 0, rq_len r)]"
  by (simp_all add: req_op_def)

lemma rounds_return:
  assumes "\<forall>(r, k) \<in> set rs. k < n" "length rs \<le> 4096"
  shows "\<exists>svc'. execute_round Release (PosixExecutor L) (map (\<lambda>(r, k). req_op r k) rs)
      ((fresh_service svc n)\<lparr>fd_table := f\<rparr>) = Inr svc'"
proof (rule execute_round_total)
  let ?svc = "(fresh_service svc n)\<lparr>fd_table := f\<rparr>"
  show "affordable (concat (map op_keys (map (\<lambda>(r, k). req_op r k) rs))) ?svc"
    unfolding affordable_def
  proof
    fix k
    have "need k (concat (map op_keys (map (\<lambda>(r, k). req_op r k) rs))) \<le> length rs"
      by (induction rs) auto
    moreover have "k < n \<or> need k (concat (map op_keys (map (\<lambda>(r, k). req_op r k) rs))) = 0"
      using assms(1) by (cases "k < n") (force intro!: need_outside)+
    ultimately show "need k (concat (map op_keys (map (\<lambda>(r, k). req_op r k) rs))) \<le> chan_credit (channels ?svc) k"
      using assms(2) by auto
  qed
  show "batch_executor (ex_batch (PosixExecutor L))" by (rule posix_batch_executor)
  show "\<exists>r. ex_batch (PosixExecutor L) w b = Inr r" for w b by (rule posix_batch_total)
qed (use assms(1) in auto)

theorem descriptors_stay_fresh_witness:
  "\<exists>svc'. execute_round Release (PosixExecutor (demo_libc id)) [req_op open_req 0]
      (fresh_service (AtlasService_new []) 1) = Inr svc' \<and> fd_inv svc' \<and>
    1 \<le> next_fd svc' \<and> fd_table svc' (next_fd svc') = None"
proof -
  let ?svc = "fresh_service (AtlasService_new ([] :: call list)) 1"
  have "?svc\<lparr>fd_table := \<lambda>_. None\<rparr> = ?svc"
    by (simp add: fresh_service_def AtlasService_new_def with_pipeline_def)
  then obtain svc' where s: "execute_round Release (PosixExecutor (demo_libc id)) [req_op open_req 0] ?svc = Inr svc'"
    using rounds_return [where rs = "[(open_req, 0)]" and n = 1 and L = "demo_libc id"
        and svc = "AtlasService_new []" and f = "\<lambda>_. None"] by auto
  have "fd_inv ?svc" by (simp add: fd_inv_def AtlasService_new_def with_pipeline_def)
  from descriptors_stay_fresh [OF s this] s show ?thesis
    by (simp add: AtlasService_new_def with_pipeline_def)
qed

text \<open>A read, write, sync or close of a descriptor that is not in the table is refused: each of
  its sources gets \<open>EBADF\<close> on its channel, nothing is added to the batch, and neither the executor
  nor the table is touched.\<close>

theorem unknown_descriptor_refused:
  assumes "round_step p E (svc, batch, origin) (i, op) = Inr (svc', batch', origin')"
    and "chans_wf (channels svc)" "sources_ok op"
    and "op_from_u8 (rq_op (mo_req op)) \<in> {Some Read, Some Write, Some Sync, Some Close}"
    and "fd_table svc (rq_fd (mo_req op)) = None"
  shows "batch' = batch \<and> executor svc' = executor svc \<and> fd_table svc' = fd_table svc \<and>
    emits svc (map (\<lambda>src. (mo_channel op, IoResponse_err (fst src) (- EBADF))) (mo_sources op)) svc'"
  using refused_step [OF assms] by (simp add: same_core_def)

lemma fresh_answerable:
  assumes "k < n"
  shows "answerable (req_op r k) ((fresh_service svc n)\<lparr>fd_table := f\<rparr>)"
  using assms by (auto simp: answerable_def affordable_def)

theorem unknown_descriptor_refused_witness:
  "let svc = (fresh_service (AtlasService_new []) 2)\<lparr>fd_table := \<lambda>_. None\<rparr> in
   \<exists>svc'. round_step Release (PosixExecutor (demo_libc id)) (svc, [], []) (0, req_op (mk_req 7 Close 10 0 0 0) 1) =
      Inr (svc', [], []) \<and> executor svc' = [] \<and> emits svc [(1, IoResponse_err 7 (- EBADF))] svc'"
proof -
  let ?svc = "(fresh_service (AtlasService_new ([] :: call list)) 2)\<lparr>fd_table := \<lambda>_. None\<rparr>"
    and ?op = "req_op (mk_req 7 Close 10 0 0 0) 1" and ?E = "PosixExecutor (demo_libc id)"
  have "answerable ?op ?svc" by (rule fresh_answerable) simp
  then obtain svc' b o1 where s: "round_step Release ?E (?svc, [], []) (0, ?op) = Inr (svc', b, o1)"
    using round_step_total by (metis prod_cases3)
  have "b = [] \<and> executor svc' = executor ?svc \<and> fd_table svc' = fd_table ?svc \<and>
      emits ?svc (map (\<lambda>src. (mo_channel ?op, IoResponse_err (fst src) (- EBADF))) (mo_sources ?op)) svc'"
    by (rule unknown_descriptor_refused [OF s]) (simp_all add: op_from_u8_def)
  moreover have "o1 = []" using refused_step [OF s] by (simp add: op_from_u8_def)
  ultimately show ?thesis
    using s by (simp add: AtlasService_new_def with_pipeline_def)
qed

section \<open>Behaviours worth knowing\<close>

text \<open>C29. A round runs its closes before its reads: when a read and then a close of the same
  descriptor are drained together, the file is closed first, and the read goes to a descriptor
  number that is no longer open (or already belongs to another file).\<close>

theorem close_overtakes_read:
  assumes "execute_round p (PosixExecutor (demo_libc n)) [req_op rd k, req_op cl k'] svc = Inr svc'"
    and "op_from_u8 (rq_op rd) = Some Read" "op_from_u8 (rq_op cl) = Some Close"
    and "rq_fd cl = rq_fd rd" "fd_table svc (rq_fd rd) = Some fd"
  shows "executor svc' = executor svc @
    [CClose fd, CRead fd (k, unat (rq_data_offset rd)) (as_u64 (rq_len rd)) (rq_offset rd)]"
proof -
  let ?E = "PosixExecutor (demo_libc n)" and ?ops = "[req_op rd k, req_op cl k']"
  let ?bop = "BatchOp_new (Pread fd (k, unat (rq_data_offset rd)) (as_u64 (rq_len rd)) (rq_offset rd))"
  from assms obtain svc1 where k: "k < length (channels svc)"
    and c: "round_step p ?E (svc, [?bop], [0]) (1, req_op cl k') = Inr (svc1, [?bop], [0])"
    and rest: "and_then (ex_batch ?E (executor svc1) [?bop]) (\<lambda>r. case r of (batch', w) \<Rightarrow>
           fold_exec (finish_step p ?ops) (svc1\<lparr>executor := w\<rparr>) (zip batch' [0])) = Inr svc'"
    by (auto simp: execute_round_def round_step_def prepare_read_def data_buf_def keep_def
        split: if_splits prod.splits elim!: and_then_InrE)
  from c assms(3-5) obtain resp svc0 where h: "handle_close ?E cl svc = (resp, svc0)"
    and s: "svc_send k' resp svc0 = Inr svc1"
    by (auto simp: round_step_def split: prod.splits elim!: and_then_InrE)
  have "executor svc0 = executor svc @ [CClose fd]"
    using h assms(4,5) by (auto simp: handle_close_def PosixExecutor_def posix_close_def split: if_splits)
  then have w1: "executor svc1 = executor svc @ [CClose fd]"
    using svc_send_core [OF s] by (simp add: same_core_def)
  from rest obtain b where "finish_step p ?ops (svc1\<lparr>executor := executor svc1 @
      [CRead fd (k, unat (rq_data_offset rd)) (as_u64 (rq_len rd)) (rq_offset rd)]\<rparr>) (b, 0) = Inr svc'"
    by (auto simp: PosixExecutor_def posix_batch_def run_kind_def BatchOp_new_def posix_pread_def
        split: if_splits elim!: and_then_InrE)
  from finish_step_core [OF this] w1 show ?thesis by (simp add: same_core_def)
qed

theorem close_overtakes_read_witness:
  "\<exists>svc'. execute_round Release (PosixExecutor (demo_libc id))
       [req_op (mk_req 1 Read 5 0 4096 0) 0, req_op (mk_req 2 Close 5 0 0 0) 1]
       ((fresh_service (AtlasService_new []) 2)\<lparr>fd_table := [5 \<mapsto> 3]\<rparr>) = Inr svc' \<and>
     executor svc' = [CClose 3, CRead 3 (0, 0) 4096 0]"
proof -
  let ?svc = "(fresh_service (AtlasService_new ([] :: call list)) 2)\<lparr>fd_table := [5 \<mapsto> 3]\<rparr>"
  obtain svc' where s: "execute_round Release (PosixExecutor (demo_libc id))
      [req_op (mk_req 1 Read 5 0 4096 0) 0, req_op (mk_req 2 Close 5 0 0 0) 1] ?svc = Inr svc'"
    using rounds_return [where rs = "[(mk_req 1 Read 5 0 4096 0, 0), (mk_req 2 Close 5 0 0 0, 1)]" and n = 2
        and L = "demo_libc id" and svc = "AtlasService_new []" and f = "[5 \<mapsto> 3]"] by auto
  from close_overtakes_read [OF s, of 3] s show ?thesis
    by (simp add: op_from_u8_def AtlasService_new_def with_pipeline_def)
qed

text \<open>C39. Descriptors are not private to the client that opened them: a client on another channel that
  names the number closes the file.\<close>

theorem descriptors_not_isolated:
  assumes "execute_round p (PosixExecutor (demo_libc n)) [req_op cl k'] svc = Inr svc'"
    and "execute_round p (PosixExecutor (demo_libc n)) [req_op opn k] svc0 = Inr svc" "executor svc0 = []"
    and "op_from_u8 (rq_op opn) = Some Open" "op_from_u8 (rq_op cl) = Some Close"
    and "rq_fd cl = next_fd svc0" "0 \<notin> set (path_str opn)"
  shows "executor svc' = [COpen (path_str opn) (rq_len opn) 420, CClose 3] \<and>
    fd_table svc' (next_fd svc0) = None"
proof -
  let ?E = "PosixExecutor (demo_libc n)"
  from assms(2,4) obtain resp svc1 where o: "handle_open p ?E opn svc0 = Inr (resp, svc1)"
    and s: "svc_send k resp svc1 = Inr svc"
    by (auto simp: execute_round_def round_step_def elim!: and_then_InrE)
  have three: "\<not> negative (3 :: i32)" "\<not> negative (i32_as_i64 3)" "i64_as_i32 (i32_as_i64 3) = 3" by simp_all
  from o assms(3,7) have "executor svc1 = [COpen (path_str opn) (rq_len opn) 420]"
    "fd_table svc1 (next_fd svc0) = Some 3"
    by (auto simp: handle_open_def PosixExecutor_def posix_open_def demo_libc_def Let_def
        split: if_splits elim!: and_then_InrE)
  then have st: "executor svc = [COpen (path_str opn) (rq_len opn) 420]" "fd_table svc (next_fd svc0) = Some 3"
    using svc_send_core [OF s] by (simp_all add: same_core_def)
  from assms(1,5) obtain resp' svc2 where c: "handle_close ?E cl svc = (resp', svc2)"
    and s2: "svc_send k' resp' svc2 = Inr svc'"
    by (auto simp: execute_round_def round_step_def split: prod.splits elim!: and_then_InrE)
  from c st assms(6) have "executor svc2 = executor svc @ [CClose 3]" "fd_table svc2 (next_fd svc0) = None"
    by (auto simp: handle_close_def PosixExecutor_def posix_close_def split: if_splits)
  then show ?thesis using svc_send_core [OF s2] st by (simp add: same_core_def)
qed

lemma path_open_req: "path_str open_req = [47, 97]" "op_from_u8 (rq_op open_req) = Some Open"
    "rq_len open_req = 0"
proof -
  have "request_shape (IoRequest_new 1 Open High)" by simp
  then show "path_str open_req = [47, 97]"
    by (simp add: open_req_def path_str_eq path_after_set_path MAX_PATH_LEN_def Let_def
        utf8_valid.simps(2))
qed (simp_all add: open_req_def op_from_u8_def)

text \<open>A second round on the same channels, after one operation.\<close>

lemma second_round_returns:
  assumes "execute_round Release (PosixExecutor L) [req_op r k] (fresh_service svc0 n) = Inr svc"
    and "k' < n"
  shows "\<exists>svc'. execute_round Release (PosixExecutor L) [req_op r' k'] svc = Inr svc'"
proof (rule execute_round_total)
  from execute_round_emits [OF assms(1) _ _ posix_batch_executor] obtain xs where
    xs: "emits (fresh_service svc0 n) xs svc" "mset (keys xs) = mset [(k, rq_id r)]" by auto
  show "chans_wf (channels svc)" using xs(1) by (rule emits_wf)
  have "chan_credit (channels svc) k' \<noteq> 0"
  proof -
    have "4096 \<le> chan_credit (channels svc) k' + need k' (keys xs)"
      using xs(1) assms(2) by (auto simp: emits_def length_sent dest: spec [of _ k'])
    moreover have "need k' (keys xs) \<le> 1" using need_mset [OF xs(2), of k'] by simp
    ultimately show ?thesis by simp
  qed
  then show "affordable (concat (map op_keys [req_op r' k'])) svc" by (auto simp: affordable_def)
  show "\<forall>op \<in> set [req_op r' k']. sources_ok op \<and> mo_channel op < length (channels svc)"
    using emits_length [OF xs(1)] assms(2) by simp
qed (rule posix_batch_executor posix_batch_total)+

theorem descriptors_not_isolated_witness:
  "\<exists>svc svc'. execute_round Release (PosixExecutor (demo_libc id)) [req_op open_req 0]
      (fresh_service (AtlasService_new []) 2) = Inr svc \<and>
    execute_round Release (PosixExecutor (demo_libc id)) [req_op (mk_req 2 Close 1 0 0 0) 1] svc = Inr svc' \<and>
    executor svc' = [COpen [47, 97] 0 420, CClose 3]"
proof -
  let ?svc0 = "fresh_service (AtlasService_new ([] :: call list)) 2"
  have "?svc0\<lparr>fd_table := \<lambda>_. None\<rparr> = ?svc0"
    by (simp add: fresh_service_def AtlasService_new_def with_pipeline_def)
  then obtain svc where s: "execute_round Release (PosixExecutor (demo_libc id)) [req_op open_req 0] ?svc0 = Inr svc"
    using rounds_return [where rs = "[(open_req, 0)]" and n = 2 and L = "demo_libc id"
        and svc = "AtlasService_new []" and f = "\<lambda>_. None"] by auto
  from second_round_returns [OF s, of 1 "mk_req 2 Close 1 0 0 0"] obtain svc' where
    s': "execute_round Release (PosixExecutor (demo_libc id)) [req_op (mk_req 2 Close 1 0 0 0) 1] svc = Inr svc'"
    by auto
  have cl: "op_from_u8 (rq_op (mk_req 2 Close 1 0 0 0)) = Some Close" by (simp add: op_from_u8_def)
  have "executor svc' = [COpen (path_str open_req) (rq_len open_req) 420, CClose 3]"
    using descriptors_not_isolated [OF s' s _ path_open_req(2) cl]
    by (simp add: path_open_req AtlasService_new_def with_pipeline_def)
  with s s' show ?thesis by (auto simp: path_open_req)
qed

end
