(* ===== verification/Round_Order.thy ===== *)
theory Round_Order
  imports Single_Request Service_Properties
begin

text \<open>
  A round of many requests against a sequential server. The stage of the daemon hands the requests of a
  round to the service one by one in polling order; the service answers some of them at once and the others
  in a batch at the end. This theory shows that, with an executor that runs a batch entry by entry, the
  outcome is that of answering the same requests one after another by \<open>answer\<close>, first those
  answered at once and then the others, each group in polling order, as long as no open or close of
  the round touches a descriptor that a data request of the round names.
\<close>

section \<open>Executors that run a batch entry by entry\<close>

locale sequential_executor = batch_executor +
  assumes batch_Nil: "batch w [] = Inr ([], w)"
    and batch_Cons: "batch w (b # bs) =
      and_then (batch w [b]) (\<lambda>r. and_then (batch (snd r) bs) (\<lambda>s. Inr (fst r @ fst s, snd s)))"
interpretation sequential_posix: sequential_executor "posix_batch L" for L :: "'o LibC"
proof
  fix w :: 'o and b :: BatchOp and bs :: "BatchOp list"
  let ?run = "run_kind (posix_pread L) (posix_pwrite L) (posix_fsync L)"
  show "posix_batch L w [] = Inr ([], w)" by (simp add: posix_batch_def)
  obtain res w1 where one: "?run w (bo_kind b) = (res, w1)" by force
  obtain ops w2 where rest: "default_batch ?run w1 bs = (ops, w2)" by force
  show "posix_batch L w (b # bs) =
      and_then (posix_batch L w [b]) (\<lambda>r. and_then (posix_batch L (snd r) bs) (\<lambda>s. Inr (fst r @ fst s, snd s)))"
    using rest one by (simp add: posix_batch_def)
qed

lemma posix_sequential: "sequential_executor (ex_batch (PosixExecutor L))"
  using sequential_posix.sequential_executor_axioms by (simp add: PosixExecutor_def)

section \<open>The order in which a round is served\<close>

definition is_data :: "IoRequest \<Rightarrow> bool" where
  "is_data r \<longleftrightarrow> io_op r \<in> {Some Read, Some Write, Some Sync}"

text \<open>Structural and malformed requests, and data requests on unknown descriptors, are answered in the
  first loop.\<close>

definition at_once :: "(u64 \<Rightarrow> i32 option) \<Rightarrow> IoRequest \<times> nat \<Rightarrow> bool" where
  "at_once fds x \<longleftrightarrow> \<not> is_data (fst x) \<or> fds (rq_fd (fst x)) = None"

definition service_order ::
  "(u64 \<Rightarrow> i32 option) \<Rightarrow> (IoRequest \<times> nat) list \<Rightarrow> (IoRequest \<times> nat) list" where
  "service_order fds rs = filter (at_once fds) rs @ filter (\<lambda>x. \<not> at_once fds x) rs"

definition opens :: "(IoRequest \<times> nat) list \<Rightarrow> nat" where
  "opens rs = length (filter (\<lambda>x. io_op (fst x) = Some Open) rs)"

text \<open>No data request names a descriptor that a close of the round closes or an open of it may assign.\<close>

definition undisturbed :: "u64 \<Rightarrow> (IoRequest \<times> nat) list \<Rightarrow> bool" where
  "undisturbed nf rs \<longleftrightarrow> (\<forall>x \<in> set rs. is_data (fst x) \<longrightarrow>
     (\<forall>y \<in> set rs. io_op (fst y) = Some Close \<longrightarrow> rq_fd (fst y) \<noteq> rq_fd (fst x)) \<and>
     (\<forall>i < opens rs. rq_fd (fst x) \<noteq> nf + of_nat i))"

text \<open>The sequential server: one answer after the other.\<close>

fun answer_all ::
  "profile \<Rightarrow> 'w IoExecutor \<Rightarrow> (IoRequest \<times> nat) list \<Rightarrow> 'w core \<Rightarrow>
   ((nat \<times> IoResponse) list \<times> 'w core) exec" where
  "answer_all p E [] c = Inr ([], c)"
| "answer_all p E ((r, k) # rs) c =
     and_then (answer p E k r c) (\<lambda>a.
     and_then (answer_all p E rs (snd a)) (\<lambda>b. Inr ((k, fst a) # fst b, snd b)))"

lemma undisturbed_tail:
  assumes "undisturbed nf (x # rs)"
    and "nf' = nf \<or> (io_op (fst x) = Some Open \<and> nf' = nf + 1)"
  shows "undisturbed nf' rs"
proof -
  have "rq_fd (fst y) \<noteq> nf' + of_nat i"
    if y: "y \<in> set rs" "is_data (fst y)" and i: "i < opens rs" for y i
  proof -
    from assms(2) show ?thesis
    proof
      assume "nf' = nf"
      moreover have "i < opens (x # rs)" using i by (simp add: opens_def)
      ultimately show ?thesis using assms(1) y by (auto simp: undisturbed_def)
    next
      assume o: "io_op (fst x) = Some Open \<and> nf' = nf + 1"
      then have "Suc i < opens (x # rs)" using i by (simp add: opens_def)
      then have "rq_fd (fst y) \<noteq> nf + of_nat (Suc i)"
        using assms(1) y unfolding undisturbed_def by (blast intro: list.set_intros)
      with o show ?thesis by (simp add: ac_simps)
    qed
  qed
  with assms(1) show ?thesis by (auto simp: undisturbed_def)
qed

section \<open>A request in a round of its own\<close>

definition serve_alone ::
  "profile \<Rightarrow> 'w IoExecutor \<Rightarrow> ('w, 's) AtlasService \<Rightarrow> IoRequest \<times> nat \<Rightarrow> ('w, 's) AtlasService exec" where
  "serve_alone p E svc x = execute_round p E [sole (fst x) (snd x)] svc"

abbreviation serve_each ::
  "profile \<Rightarrow> 'w IoExecutor \<Rightarrow> ('w, 's) AtlasService \<Rightarrow> (IoRequest \<times> nat) list \<Rightarrow> ('w, 's) AtlasService exec" where
  "serve_each p E \<equiv> fold_exec (serve_alone p E)"

text \<open>What an answer does to the descriptors.\<close>

lemma answer_descriptors:
  assumes "answer p E k r (fds, nf, w) = Inr (resp, fds', nf', w')"
  shows "(fds' = fds \<and> nf' = nf) \<or>
    (io_op r = Some Open \<and> nf' = nf + 1 \<and> (\<exists>fd. fds' = fds(nf \<mapsto> fd))) \<or>
    (io_op r = Some Close \<and> nf' = nf \<and> fds' = fds(rq_fd r := None))"
  using assms
  by (cases "io_op r"; cases "the (io_op r)")
    (auto simp: answer_def split: prod.splits option.splits if_splits elim!: and_then_InrE dest: uadd_InrD)

lemma svc_send_frame:
  "svc_send k resp svc = Inr svc' \<Longrightarrow>
   core svc' = core svc \<and> length (channels svc') = length (channels svc) \<and> stage svc' = stage svc"
  by (auto simp: svc_send_def send_to_def core_def elim!: and_then_InrE split: if_splits)

text \<open>Channels whose clients take nothing while the service waits for room: what they have taken stays.\<close>

definition no_moves :: "ServiceChannel list \<Rightarrow> bool" where
  "no_moves cs \<longleftrightarrow> (\<forall>c \<in> set cs. sc_moves c = [])"

definition takes_nothing :: "ServiceChannel list \<Rightarrow> ServiceChannel list \<Rightarrow> bool" where
  "takes_nothing cs cs' \<longleftrightarrow> (no_moves cs \<longrightarrow> no_moves cs' \<and> map sc_taken cs' = map sc_taken cs)"

lemma takes_nothing_trans [trans]: "takes_nothing a b \<Longrightarrow> takes_nothing b c \<Longrightarrow> takes_nothing a c"
  by (simp add: takes_nothing_def)

lemma send_to_takes_nothing:
  assumes "send_to k resp cs = Inr cs'"
  shows "takes_nothing cs cs'"
proof -
  from assms obtain c where k: "k < length cs" and c: "send_response resp (cs ! k) = Inr c" and cs': "cs' = cs[k := c]"
    by (auto simp: send_to_def elim: and_then_InrE split: if_splits)
  have "sc_moves c = [] \<and> sc_taken c = sc_taken (cs ! k)" if "sc_moves (cs ! k) = []"
    using c that by (auto simp: send_response_def send_loop.simps [of "[]"] split: prod.splits sum.splits)
  with k show ?thesis
    by (auto simp: takes_nothing_def no_moves_def cs' map_update list_update_same_conv
        dest: set_update_subset_insert [THEN subsetD])
qed

lemma svc_send_takes_nothing: "svc_send k resp svc = Inr svc' \<Longrightarrow> takes_nothing (channels svc) (channels svc')"
  by (auto simp: svc_send_def elim!: and_then_InrE dest: send_to_takes_nothing)

lemma serve_alone_answer:
  assumes "serve_alone p E svc (r, k) = Inr svc'" "batch_executor (ex_batch E)" "k < length (channels svc)"
  obtains resp where "answer p E k r (core svc) = Inr (resp, core svc')"
    "svc_send k resp (set_core (core svc') svc) = Inr svc'" "length (channels svc') = length (channels svc)"
    "stage svc' = stage svc"
proof -
  from assms(1) obtain a where a: "answer p E k r (core svc) = Inr a"
    and s: "svc_send k (fst a) (set_core (snd a) svc) = Inr svc'"
    unfolding serve_alone_def fst_conv snd_conv execute_round_sole [OF assms(2,3)]
    by (auto elim: and_then_InrE)
  have c: "core svc' = snd a" using svc_send_frame [OF s] by simp
  have "answer p E k r (core svc) = Inr (fst a, core svc')" using a c by simp
  moreover have "svc_send k (fst a) (set_core (core svc') svc) = Inr svc'" using s c by simp
  ultimately show thesis by (rule that) (use svc_send_frame [OF s] in simp_all)
qed

lemma serve_each_answers:
  assumes "serve_each p E svc rs = Inr svc'" "batch_executor (ex_batch E)"
    and "\<forall>x \<in> set rs. snd x < length (channels svc)" "chans_wf (channels svc)"
  shows "\<exists>xs. answer_all p E rs (core svc) = Inr (xs, core svc') \<and> emits svc xs svc' \<and> stage svc' = stage svc \<and>
    takes_nothing (channels svc) (channels svc')"
  using assms(1,3,4)
proof (induction rs arbitrary: svc)
  case Nil
  then show ?case by (simp add: emits_Nil takes_nothing_def)
next
  case (Cons x rs)
  obtain r k where x: "x = (r, k)" by (cases x) auto
  from Cons.prems(1) obtain svc1 where one: "serve_alone p E svc (r, k) = Inr svc1"
    and more: "serve_each p E svc1 rs = Inr svc'" unfolding x by (auto elim: and_then_InrE)
  have k: "k < length (channels svc)" using Cons.prems(2) x by simp
  obtain resp where a: "answer p E k r (core svc) = Inr (resp, core svc1)"
    "svc_send k resp (set_core (core svc1) svc) = Inr svc1" "length (channels svc1) = length (channels svc)"
    "stage svc1 = stage svc"
    using serve_alone_answer [OF one assms(2) k] .
  have wf: "chans_wf (channels (set_core (core svc1) svc))" using Cons.prems(3) by simp
  have e: "emits svc [(k, resp)] svc1" using send_one_emits(1) [OF wf a(2)] by (simp add: emits_def)
  obtain xs where xs: "answer_all p E rs (core svc1) = Inr (xs, core svc')" "emits svc1 xs svc'"
    "stage svc' = stage svc1" "takes_nothing (channels svc1) (channels svc')"
    using Cons.IH [OF more _ emits_wf [OF e]] Cons.prems(2) a(3) by auto
  have "emits svc ([(k, resp)] @ xs) svc'" using e xs(2) by (rule emits_trans)
  moreover have "takes_nothing (channels svc) (channels svc')"
    using takes_nothing_trans [OF _ xs(4)] svc_send_takes_nothing [OF a(2)] by simp
  ultimately show ?case using a x xs by auto
qed

section \<open>The first loop\<close>

lemma at_once_step:
  assumes "at_once (fd_table svc) (r, k)"
  shows "round_step p E (svc, batch, origin) (i, sole r k) =
    and_then (serve_alone p E svc (r, k)) (\<lambda>svc'. Inr (svc', batch, origin))"
proof (cases "is_data r")
  case True
  with assms obtain op where op: "io_op r = Some op" "op \<in> {Read, Write, Sync}" "fd_table svc (rq_fd r) = None"
    by (auto simp: at_once_def is_data_def)
  then have "op_from_u8 (rq_op r) = Some op" by (simp add: io_op_def)
  with op(2,3) show ?thesis
    unfolding serve_alone_def fst_conv snd_conv unknown_round_sole [OF op]
    by (auto simp: round_step_def prepare_read_def prepare_write_def prepare_fsync_def keep_def
        send_errors_sole and_then_assoc)
next
  case False
  then consider "op_from_u8 (rq_op r) = None" | "op_from_u8 (rq_op r) = Some Open"
    | "op_from_u8 (rq_op r) = Some Close"
    by (cases "op_from_u8 (rq_op r)"; cases "the (op_from_u8 (rq_op r))") (auto simp: is_data_def io_op_def)
  then show ?thesis
    by cases (simp_all add: serve_alone_def execute_round_def round_step_def and_then_assoc case_prod_unfold)
qed

text \<open>The batch entry of a request that is kept for the batch.\<close>

definition entry :: "(u64 \<Rightarrow> i32 option) \<Rightarrow> IoRequest \<times> nat \<Rightarrow> BatchOp" where
  "entry fds x = BatchOp_new
     (request_kind (the (io_op (fst x))) (fst x) (snd x) (the (fds (rq_fd (fst x)))))"

lemma later_step:
  assumes "\<not> at_once (fd_table svc) (r, k)" "k < length (channels svc)"
  shows "round_step p E (svc, batch, origin) (i, sole r k) =
    Inr (svc, batch @ [entry (fd_table svc) (r, k)], origin @ [i])"
proof -
  obtain op fd where op: "op_from_u8 (rq_op r) = Some op" "op \<in> {Read, Write, Sync}" "fd_table svc (rq_fd r) = Some fd"
    using assms(1) by (auto simp: at_once_def is_data_def io_op_def)
  then show ?thesis
    using assms(2) by (auto simp: round_step_def prepare_read_def prepare_write_def prepare_fsync_def
        data_buf_def keep_def entry_def io_op_def)
qed

text \<open>The descriptors that the data requests of a round name mean in \<open>svc\<close> what they mean in \<open>fds\<close>.\<close>

definition agrees :: "(u64 \<Rightarrow> i32 option) \<Rightarrow> (IoRequest \<times> nat) list \<Rightarrow> ('w, 's) AtlasService \<Rightarrow> bool" where
  "agrees fds rs svc \<longleftrightarrow> undisturbed (next_fd svc) rs \<and>
     (\<forall>x \<in> set rs. snd x < length (channels svc) \<and>
        (is_data (fst x) \<longrightarrow> fd_table svc (rq_fd (fst x)) = fds (rq_fd (fst x))))"

lemma agrees_at_once: "agrees fds (x # rs) svc \<Longrightarrow> at_once (fd_table svc) x = at_once fds x"
  by (auto simp: agrees_def at_once_def)

lemma agrees_entry: "agrees fds (x # rs) svc \<Longrightarrow> \<not> at_once fds x \<Longrightarrow> entry (fd_table svc) x = entry fds x"
  by (auto simp: agrees_def at_once_def entry_def)

lemma agrees_tail: "agrees fds (x # rs) svc \<Longrightarrow> agrees fds rs svc"
  using undisturbed_tail [of "next_fd svc" x rs "next_fd svc"] by (simp add: agrees_def)

lemma agrees_served:
  assumes "agrees fds (x # rs) svc" "serve_alone p E svc x = Inr svc'" "batch_executor (ex_batch E)"
  shows "agrees fds rs svc'"
proof -
  obtain r k where x: "x = (r, k)" by (cases x) auto
  have k: "k < length (channels svc)" using assms(1) x by (simp add: agrees_def)
  obtain resp where a: "answer p E k r (core svc) = Inr (resp, core svc')"
    "length (channels svc') = length (channels svc)"
    using serve_alone_answer [OF assms(2) [unfolded x] assms(3) k] .
  note d = answer_descriptors [OF a(1) [unfolded core_def]]
  have und: "undisturbed (next_fd svc) (x # rs)" using assms(1) by (simp add: agrees_def)
  have "next_fd svc' = next_fd svc \<or> io_op (fst x) = Some Open \<and> next_fd svc' = next_fd svc + 1"
    using d x by auto
  with und have "undisturbed (next_fd svc') rs" by (rule undisturbed_tail)
  moreover have "fd_table svc' (rq_fd (fst y)) = fds (rq_fd (fst y))" if y: "y \<in> set rs" "is_data (fst y)" for y
  proof -
    have old: "fd_table svc (rq_fd (fst y)) = fds (rq_fd (fst y))" using assms(1) y by (simp add: agrees_def)
    have "io_op r = Some Open \<Longrightarrow> 0 < opens (x # rs)" using x by (simp add: opens_def)
    then have "io_op r = Some Open \<Longrightarrow> rq_fd (fst y) \<noteq> next_fd svc + of_nat 0"
      using und y unfolding undisturbed_def by (blast intro: list.set_intros)
    moreover have "io_op r = Some Close \<Longrightarrow> rq_fd (fst y) \<noteq> rq_fd r"
      using und y x by (auto simp: undisturbed_def)
    ultimately show ?thesis using d old by auto
  qed
  ultimately show ?thesis using assms(1) a(2) by (simp add: agrees_def)
qed

definition later_indices :: "(u64 \<Rightarrow> i32 option) \<Rightarrow> nat \<Rightarrow> (IoRequest \<times> nat) list \<Rightarrow> nat list" where
  "later_indices fds j rs = map fst (filter (\<lambda>(i, x). \<not> at_once fds x) (enumerate j rs))"

abbreviation soles :: "(IoRequest \<times> nat) list \<Rightarrow> MergedOp list" where
  "soles \<equiv> map (\<lambda>x. sole (fst x) (snd x))"

lemma first_loop_order:
  assumes "agrees fds rs svc" "batch_executor (ex_batch E)"
  shows "fold_exec (round_step p E) (svc, batch, origin) (enumerate j (soles rs)) =
    and_then (serve_each p E svc (filter (at_once fds) rs)) (\<lambda>svc'.
      Inr (svc', batch @ map (entry fds) (filter (\<lambda>x. \<not> at_once fds x) rs), origin @ later_indices fds j rs))"
  using assms(1)
proof (induction rs arbitrary: svc batch origin j)
  case (Cons x rs)
  obtain r k where x: "x = (r, k)" by (cases x) auto
  show ?case
  proof (cases "at_once fds x")
    case True
    then have "at_once (fd_table svc) (r, k)" using agrees_at_once [OF Cons.prems] x by simp
    note step = at_once_step [OF this]
    show ?thesis
    proof (cases "serve_alone p E svc (r, k)")
      case (Inr svc1)
      have "agrees fds rs svc1" using agrees_served [OF Cons.prems _ assms(2)] Inr x by blast
      from Cons.IH [OF this] Inr x True show ?thesis by (simp add: step later_indices_def)
    qed (use x True in \<open>simp add: step\<close>)
  next
    case False
    have k: "k < length (channels svc)" using Cons.prems x by (simp add: agrees_def)
    have "\<not> at_once (fd_table svc) (r, k)" using agrees_at_once [OF Cons.prems] x False by simp
    note step = later_step [OF this k]
    show ?thesis
      using Cons.IH [OF agrees_tail [OF Cons.prems]] agrees_entry [OF Cons.prems False] False x
      by (simp add: step later_indices_def)
  qed
qed (simp add: later_indices_def)

section \<open>The second loop\<close>

lemma svc_send_executor:
  "svc_send k resp (svc\<lparr>executor := w\<rparr>) = and_then (svc_send k resp svc) (\<lambda>s. Inr (s\<lparr>executor := w\<rparr>))"
  by (cases "send_to k resp (channels svc)") (simp_all add: svc_send_def)

text \<open>One deferred request: what the batch makes of its entry is answered as if it were served alone.\<close>

lemma entry_alone:
  assumes E: "batch_executor (ex_batch E)"
    and x: "\<not> at_once fds x" "snd x < length (channels svc)" "fd_table svc (rq_fd (fst x)) = fds (rq_fd (fst x))"
    and i: "i < length ops" "ops ! i = sole (fst x) (snd x)"
  obtains (fails) e where "ex_batch E (executor svc) [entry fds x] = Inl e" "serve_alone p E svc x = Inl e"
  | (answers) b w1 resp where "ex_batch E (executor svc) [entry fds x] = Inr ([b], w1)"
      "\<And>w. finish_step p ops (svc\<lparr>executor := w\<rparr>) (b, i) =
        and_then (svc_send (snd x) resp svc) (\<lambda>s. Inr (s\<lparr>executor := w\<rparr>))"
      "serve_alone p E svc x = and_then (svc_send (snd x) resp svc) (\<lambda>s. Inr (s\<lparr>executor := w1\<rparr>))"
proof -
  obtain r k where rk: "x = (r, k)" by (cases x) auto
  then obtain op fd where op: "io_op r = Some op" "op \<in> {Read, Write, Sync}" "fd_table svc (rq_fd r) = Some fd"
    "entry fds x = BatchOp_new (request_kind op r k fd)" and k: "k < length (channels svc)"
    using x by (auto simp: at_once_def is_data_def entry_def)
  let ?reply = "\<lambda>n. if negative n then IoResponse_err (rq_id r) (i64_as_i32 n) else success op r n"
  have alone: "serve_alone p E svc x =
      and_then (batch_of_one E (executor svc) (request_kind op r k fd)) (\<lambda>res.
        svc_send k (?reply (fst res)) (svc\<lparr>executor := snd res\<rparr>))"
    unfolding serve_alone_def rk fst_conv snd_conv by (rule data_round_sole [OF E op(1-3) k])
  show thesis
  proof (cases "ex_batch E (executor svc) [entry fds x]")
    case (Inl e)
    with fails alone op(4) show ?thesis by (simp add: batch_of_one_def)
  next
    case (Inr res)
    then obtain ops1 w1 where res: "ex_batch E (executor svc) [entry fds x] = Inr (ops1, w1)"
      by (cases res) auto
    obtain b where b: "ops1 = [b]" "bo_kind b = request_kind op r k fd"
      using batch_single [OF E res] op(4) by (auto simp: BatchOp_new_def)
    have "ops ! i = sole r k" using i(2) rk by simp
    note finish = finish_sole [OF i(1) this op(2) b(2), of p]
    show ?thesis
    proof (rule answers [of b w1 "?reply (bo_result b)"])
      show "ex_batch E (executor svc) [entry fds x] = Inr ([b], w1)" using res b by simp
      show "finish_step p ops (svc\<lparr>executor := w\<rparr>) (b, i) =
          and_then (svc_send (snd x) (?reply (bo_result b)) svc) (\<lambda>s. Inr (s\<lparr>executor := w\<rparr>))" for w
        unfolding finish svc_send_executor rk by simp
      have "serve_alone p E svc x = svc_send k (?reply (bo_result b)) (svc\<lparr>executor := w1\<rparr>)"
        using alone res op(4) b by (simp add: batch_of_one_def)
      then show "serve_alone p E svc x =
          and_then (svc_send (snd x) (?reply (bo_result b)) svc) (\<lambda>s. Inr (s\<lparr>executor := w1\<rparr>))"
        unfolding svc_send_executor rk by simp
    qed
  qed
qed

lemma second_loop_order:
  assumes "sequential_executor (ex_batch E)"
    and "\<forall>x \<in> set ds. \<not> at_once fds x \<and> snd x < length (channels svc) \<and>
      fd_table svc (rq_fd (fst x)) = fds (rq_fd (fst x))"
    and "list_all2 (\<lambda>i x. i < length ops \<and> ops ! i = sole (fst x) (snd x)) idxs ds"
  shows "(\<exists>bs w. ex_batch E (executor svc) (map (entry fds) ds) = Inr (bs, w) \<and>
      fold_exec (finish_step p ops) (svc\<lparr>executor := w\<rparr>) (zip bs idxs) = Inr svc') \<longleftrightarrow>
    serve_each p E svc ds = Inr svc'"
  using assms(3,2)
proof (induction idxs ds arbitrary: svc rule: list_all2_induct)
  case Nil
  have "svc\<lparr>executor := executor svc\<rparr> = svc" by simp
  then show ?case using sequential_executor.batch_Nil [OF assms(1)] by simp
next
  case (Cons i idxs x ds)
  have E: "batch_executor (ex_batch E)" using assms(1) by (simp add: sequential_executor_def)
  have x: "\<not> at_once fds x" "snd x < length (channels svc)"
    "fd_table svc (rq_fd (fst x)) = fds (rq_fd (fst x))" "i < length ops" "ops ! i = sole (fst x) (snd x)"
    using Cons.prems Cons.hyps(1) by simp_all
  note batch = sequential_executor.batch_Cons [OF assms(1), of "executor svc" "entry fds x" "map (entry fds) ds"]
  show ?case
  proof (cases rule: entry_alone [where p = p, OF E x, case_names fails answers])
    case (fails e)
    then show ?thesis using batch by simp
  next
    case (answers b w1 resp)
    show ?thesis
    proof (cases "svc_send (snd x) resp svc")
      case (Inl e)
      then show ?thesis using batch answers by (auto simp: and_then_Inr_iff)
    next
      case (Inr svc1)
      have "fd_table svc1 = fd_table svc" "length (channels svc1) = length (channels svc)"
        using svc_send_frame [OF Inr] by (simp_all add: core_def)
      then have "(\<exists>bs w. ex_batch E w1 (map (entry fds) ds) = Inr (bs, w) \<and>
          fold_exec (finish_step p ops) (svc1\<lparr>executor := w\<rparr>) (zip bs idxs) = Inr svc') \<longleftrightarrow>
        serve_each p E (svc1\<lparr>executor := w1\<rparr>) ds = Inr svc'"
        using Cons.IH [of "svc1\<lparr>executor := w1\<rparr>"] Cons.prems by simp
      moreover have "(\<exists>bs w. ex_batch E (executor svc) (map (entry fds) (x # ds)) = Inr (bs, w) \<and>
          fold_exec (finish_step p ops) (svc\<lparr>executor := w\<rparr>) (zip bs (i # idxs)) = Inr svc') \<longleftrightarrow>
        (\<exists>bs w. ex_batch E w1 (map (entry fds) ds) = Inr (bs, w) \<and>
          fold_exec (finish_step p ops) (svc1\<lparr>executor := w\<rparr>) (zip bs idxs) = Inr svc')"
        using batch answers(1,2) Inr by (auto simp: and_then_Inr_iff)
      ultimately show ?thesis using answers(3) Inr by simp
    qed
  qed
qed

section \<open>A round and an iteration\<close>

lemma later_indices_ops:
  "list_all2 (\<lambda>i x. i < length (soles (before @ rs)) \<and> soles (before @ rs) ! i = sole (fst x) (snd x))
     (later_indices fds (length before) rs) (filter (\<lambda>x. \<not> at_once fds x) rs)"
proof (induction rs arbitrary: before)
  case (Cons x rs)
  from Cons [of "before @ [x]"] show ?case by (simp add: later_indices_def nth_append)
qed (simp add: later_indices_def)

lemma batch_order_frame:
  assumes "serve_each p E svc rs = Inr svc1" "batch_executor (ex_batch E)"
    and "agrees fds (rs @ ds) svc"
  shows "agrees fds ds svc1"
  using assms(1,3)
proof (induction rs arbitrary: svc)
  case (Cons x rs)
  from Cons.prems(1) obtain svc2 where "serve_alone p E svc x = Inr svc2" "serve_each p E svc2 rs = Inr svc1"
    by (auto elim: and_then_InrE)
  with Cons.IH agrees_served [of fds x "rs @ ds" svc p E svc2] assms(2) Cons.prems(2) show ?case by simp
qed simp

lemma undisturbed_service_order: "undisturbed nf (service_order fds rs) = undisturbed nf rs"
proof -
  have "opens (service_order fds rs) = opens rs"
    by (induction rs) (auto simp: opens_def service_order_def)
  moreover have "set (service_order fds rs) = set rs" by (auto simp: service_order_def)
  ultimately show ?thesis by (simp add: undisturbed_def)
qed

text \<open>A round of many requests returns a state exactly when the rounds of one request each, in the
  order of service, return it.\<close>

lemma execute_round_order:
  assumes "sequential_executor (ex_batch E)" "undisturbed (next_fd svc) rs"
    and "\<forall>x \<in> set rs. snd x < length (channels svc)"
  shows "execute_round p E (soles rs) svc = Inr svc' \<longleftrightarrow>
    serve_each p E svc (service_order (fd_table svc) rs) = Inr svc'"
proof -
  let ?fds = "fd_table svc" and ?later = "filter (\<lambda>x. \<not> at_once (fd_table svc) x) rs"
  let ?early = "filter (at_once ?fds) rs"
  have E: "batch_executor (ex_batch E)" using assms(1) by (simp add: sequential_executor_def)
  have ag: "agrees ?fds rs svc" using assms(2,3) by (simp add: agrees_def)
  have ag2: "agrees ?fds (?early @ ?later) svc"
    using assms(2,3) undisturbed_service_order [of "next_fd svc" ?fds rs]
    by (auto simp: agrees_def service_order_def)
  have first: "fold_exec (round_step p E) (svc, [], []) (enumerate 0 (soles rs)) =
      and_then (serve_each p E svc ?early) (\<lambda>svc1. Inr (svc1, map (entry ?fds) ?later, later_indices ?fds 0 rs))"
    using first_loop_order [OF ag E, of p "[]" "[]" 0] by simp
  show ?thesis
  proof (cases "serve_each p E svc ?early")
    case (Inl e)
    then show ?thesis by (simp add: execute_round_def first service_order_def fold_exec_append)
  next
    case (Inr svc1)
    have "agrees ?fds ?later svc1" using batch_order_frame [OF Inr E ag2] .
    then have later: "\<forall>x \<in> set ?later. \<not> at_once ?fds x \<and> snd x < length (channels svc1) \<and>
        fd_table svc1 (rq_fd (fst x)) = ?fds (rq_fd (fst x))"
      by (auto simp: agrees_def at_once_def)
    note second = second_loop_order [OF assms(1) later, of "soles rs" "later_indices ?fds 0 rs" p svc']
    have "execute_round p E (soles rs) svc = Inr svc' \<longleftrightarrow> serve_each p E svc1 ?later = Inr svc'"
    proof (cases "?later = []")
      case True
      then show ?thesis by (simp add: execute_round_def first Inr)
    next
      case False
      then have "execute_round p E (soles rs) svc = Inr svc' \<longleftrightarrow>
        (\<exists>bs w. ex_batch E (executor svc1) (map (entry ?fds) ?later) = Inr (bs, w) \<and>
          fold_exec (finish_step p (soles rs)) (svc1\<lparr>executor := w\<rparr>) (zip bs (later_indices ?fds 0 rs)) = Inr svc')"
        by (simp add: execute_round_def first Inr and_then_Inr_iff)
      then show ?thesis using second later_indices_ops [of "[]" rs ?fds] by simp
    qed
    then show ?thesis using Inr by (simp add: service_order_def fold_exec_append)
  qed
qed

lemma pass_through_pending:
  "pt_pending (add_all pass_through rs s) = pt_pending s @ map (\<lambda>(r, k). \<lparr>tr_req = r, tr_channel = k\<rparr>) rs"
  by (induction rs arbitrary: s) (auto simp: add_all_def pass_through_def pt_add_def)

lemma pass_through_drain:
  assumes "pt_is_empty s"
  shows "\<exists>s'. pl_drain pass_through p (add_all pass_through rs s) = Inr (soles rs, s')"
  using assms pass_through_pending [of rs s]
  by (auto simp: pass_through_def pt_drain_def pt_is_empty_def sole_def)

lemma waiting_channel: "x \<in> set (waiting is cs) \<Longrightarrow> snd x \<in> set is"
  by (auto simp: waiting_def)

lemma serve_round_order:
  assumes "serve_round p E pass_through svc = Inr (svc', w)" "between_rounds pass_through (\<lambda>_. True) svc"
    and "sequential_executor (ex_batch E)"
    and "undisturbed (next_fd svc) (waiting [0..<length (channels svc)] (channels svc))"
  shows "\<exists>xs. answer_all p E (service_order (fd_table svc) (waiting [0..<length (channels svc)] (channels svc)))
      (core svc) = Inr (xs, core svc') \<and>
    (\<forall>k. chan_log (channels svc') k = chan_log (channels svc) k @ sent xs k) \<and>
    takes_nothing (channels svc) (channels svc')"
proof -
  let ?n = "length (channels svc)"
  let ?rs = "waiting [0..<?n] (channels svc)"
  have E: "batch_executor (ex_batch E)" using assms(3) by (simp add: sequential_executor_def)
  obtain svc1 d where poll: "poll_channels pass_through [0..<?n] svc False = (svc1, d)" by force
  have bt: "chans_wf (channels svc)" "pt_is_empty (stage svc)"
    using assms(2) by (auto simp: between_rounds_def pass_through_def)
  have ps: "chans_wf (channels svc1)" "length (channels svc1) = ?n"
    "stage svc1 = add_all pass_through ?rs (stage svc)" "core svc1 = core svc"
    "\<And>k. chan_log (channels svc1) k = chan_log (channels svc) k"
    using poll_channels_spec [OF poll bt(1)] by (simp_all add: lessThan_atLeast0 core_def)
  have tn: "takes_nothing (channels svc) (channels svc1)"
  proof -
    have "map f (channels svc1) = map f (channels svc)" if "f = g \<circ> answer_side" for f :: "ServiceChannel \<Rightarrow> 'x" and g
      using arg_cong [OF poll_channels_side [OF poll], of "map g"] that by simp
    from this [of sc_moves "fst \<circ> snd"] this [of sc_taken "snd \<circ> snd"]
    have "map sc_moves (channels svc1) = map sc_moves (channels svc)"
      "map sc_taken (channels svc1) = map sc_taken (channels svc)"
      by (simp_all add: answer_side_def fun_eq_iff)
    moreover have "no_moves cs \<longleftrightarrow> (\<forall>x \<in> set (map sc_moves cs). x = [])" for cs
      by (simp add: no_moves_def)
    ultimately show ?thesis unfolding takes_nothing_def by presburger
  qed
  obtain s where drain: "pl_drain pass_through p (stage svc1) = Inr (soles ?rs, s)"
    using pass_through_drain [OF bt(2)] ps(3) by metis
  have empty: "pl_is_empty pass_through (stage svc1) \<longleftrightarrow> ?rs = []"
    using ps(3) pass_through_pending [of ?rs "stage svc"] bt(2)
    by (simp add: pass_through_def pt_is_empty_def)
  let ?svc1 = "svc1\<lparr>stage := s\<rparr>"
  have c1: "core ?svc1 = core svc" "channels ?svc1 = channels svc1" using ps(4) by (simp_all add: core_def)
  show ?thesis
  proof (cases "?rs = []")
    case True
    then have "svc' = svc1" using assms(1) poll empty by (simp add: serve_round_def)
    then show ?thesis using True ps(4,5) tn by (simp add: service_order_def)
  next
    case False
    then have ex: "execute_round p E (soles ?rs) ?svc1 = Inr svc'"
      using assms(1) poll empty drain by (auto simp: serve_round_def elim!: and_then_InrE)
    have fd: "fd_table ?svc1 = fd_table svc" "next_fd ?svc1 = next_fd svc" using c1(1) by (simp_all add: core_def)
    have chs: "\<forall>x \<in> set ?rs. snd x < length (channels ?svc1)"
      using waiting_channel ps(2) by fastforce
    have each: "serve_each p E ?svc1 (service_order (fd_table svc) ?rs) = Inr svc'"
      using execute_round_order [OF assms(3) _ chs] ex assms(4) fd by simp
    have "\<forall>x \<in> set (service_order (fd_table svc) ?rs). snd x < length (channels ?svc1)"
      using chs by (auto simp: service_order_def)
    from serve_each_answers [OF each E this] ps(1) obtain xs where
      "answer_all p E (service_order (fd_table svc) ?rs) (core ?svc1) = Inr (xs, core svc')"
      "emits ?svc1 xs svc'" "takes_nothing (channels ?svc1) (channels svc')" by auto
    then show ?thesis using ps(5) c1 tn takes_nothing_trans by (auto simp: emits_def)
  qed
qed

section \<open>A run\<close>

text \<open>The state in which an iteration begins: the clients have acted on the channels.\<close>

abbreviation moved :: "client_move list \<Rightarrow> ('w, 's) AtlasService \<Rightarrow> ('w, 's) AtlasService" where
  "moved ms svc \<equiv> svc\<lparr>channels := client_moves ms (channels svc)\<rparr>"

abbreviation all_waiting :: "('w, 's) AtlasService \<Rightarrow> (IoRequest \<times> nat) list" where
  "all_waiting svc \<equiv> waiting [0..<length (channels svc)] (channels svc)"

text \<open>The order in which a run serves, and that none of its iterations is disturbed.\<close>

primrec run_order ::
  "profile \<Rightarrow> 'w IoExecutor \<Rightarrow> client_move list list \<Rightarrow> ('w, PassThrough) AtlasService \<Rightarrow> (IoRequest \<times> nat) list" where
  "run_order p E [] svc = []"
| "run_order p E (ms # mss) svc =
     service_order (fd_table svc) (all_waiting (moved ms svc)) @
       (case serve_round p E pass_through (moved ms svc) of
          Inl _ \<Rightarrow> []
        | Inr r \<Rightarrow> run_order p E mss (fst r))"

primrec run_undisturbed ::
  "profile \<Rightarrow> 'w IoExecutor \<Rightarrow> client_move list list \<Rightarrow> ('w, PassThrough) AtlasService \<Rightarrow> bool" where
  "run_undisturbed p E [] svc = True"
| "run_undisturbed p E (ms # mss) svc =
     (undisturbed (next_fd svc) (all_waiting (moved ms svc)) \<and>
       (case serve_round p E pass_through (moved ms svc) of
          Inl _ \<Rightarrow> True
        | Inr r \<Rightarrow> run_undisturbed p E mss (fst r)))"

lemma answer_all_append:
  "answer_all p E (rs @ ss) c =
     and_then (answer_all p E rs c) (\<lambda>a. and_then (answer_all p E ss (snd a)) (\<lambda>b. Inr (fst a @ fst b, snd b)))"
proof (induction p E rs c rule: answer_all.induct)
  case (2 p E r k rs c)
  then show ?case by (cases "answer p E k r c") (simp_all add: and_then_assoc)
qed simp

text \<open>The requests of channel \<open>k\<close> in a service order.\<close>

definition of_channel :: "nat \<Rightarrow> (IoRequest \<times> nat) list \<Rightarrow> IoRequest list" where
  "of_channel k rs = map fst (filter (\<lambda>x. snd x = k) rs)"

lemma of_channel_append [simp]: "of_channel k (rs @ ss) = of_channel k rs @ of_channel k ss"
  by (simp add: of_channel_def)

lemma of_channel_order: "mset (of_channel k (service_order fds rs)) = mset (of_channel k rs)"
proof -
  have "mset (service_order fds rs) = mset rs"
    unfolding service_order_def by (induction rs) auto
  then show ?thesis by (metis of_channel_def mset_filter mset_map)
qed

lemma of_channel_waiting:
  "distinct is \<Longrightarrow> of_channel k (waiting is cs) = (if k \<in> set is then requests (cs ! k) else [])"
proof (induction "is")
  case (Cons i "is")
  have "of_channel k (map (\<lambda>r. (r, i)) xs) = (if i = k then xs else [])" for xs
    by (simp add: of_channel_def filter_map o_def)
  with Cons show ?case by (auto simp: waiting_def)
qed (simp add: waiting_def of_channel_def)

lemma run_service_order:
  assumes "run_service p E pass_through mss svc = Inr svc'" "between_rounds pass_through (\<lambda>_. True) svc"
    and E: "sequential_executor (ex_batch E)" and "run_undisturbed p E mss svc"
    and "\<forall>k < length (channels svc). requests (channels svc ! k) = []"
  shows "\<exists>xs. answer_all p E (run_order p E mss svc) (core svc) = Inr (xs, core svc') \<and>
    (\<forall>k. chan_log (channels svc') k = chan_log (channels svc) k @ sent xs k) \<and>
    (\<forall>k < length (channels svc).
       mset (of_channel k (run_order p E mss svc)) = mset (run_accepted p E pass_through mss svc k))"
  using assms(1,2,4,5)
proof (induction mss arbitrary: svc)
  case Nil
  then show ?case by (simp add: of_channel_def)
next
  case (Cons ms mss)
  let ?svc = "moved ms svc" and ?n = "length (channels svc)"
  from Cons.prems(1) obtain svc1 w where r: "serve_round p E pass_through ?svc = Inr (svc1, w)"
    and more: "run_service p E pass_through mss svc1 = Inr svc'"
    by (auto elim!: and_then_InrE)
  have wf: "chans_wf (channels svc)" using Cons.prems(2) by (simp add: between_rounds_def)
  note cm = client_moves_spec [OF wf, of ms]
  have bt: "between_rounds pass_through (\<lambda>_. True) ?svc"
    using Cons.prems(2) cm by (simp add: between_rounds_def)
  have b: "batch_executor (ex_batch E)" using E by (simp add: sequential_executor_def)
  note sp = serve_round_spec [OF r bt b pass_through_pipeline]
  have und: "undisturbed (next_fd ?svc) (all_waiting ?svc)" "run_undisturbed p E mss svc1"
    using Cons.prems(3) r by simp_all
  from serve_round_order [OF r bt E und(1)] obtain xs where
    xs: "answer_all p E (service_order (fd_table svc) (all_waiting ?svc)) (core svc) = Inr (xs, core svc1)"
      "\<forall>k. chan_log (channels svc1) k = chan_log (channels svc) k @ sent xs k"
    using cm by (auto simp: core_def)
  have len: "length (channels svc1) = ?n" and empty: "\<forall>k < length (channels svc1). requests (channels svc1 ! k) = []"
    using sp cm by auto
  from Cons.IH [OF more _ und(2) empty] sp obtain ys where
    ys: "answer_all p E (run_order p E mss svc1) (core svc1) = Inr (ys, core svc')"
      "\<forall>k. chan_log (channels svc') k = chan_log (channels svc1) k @ sent ys k"
      "\<forall>k < ?n. mset (of_channel k (run_order p E mss svc1)) = mset (run_accepted p E pass_through mss svc1 k)"
    using len by auto
  have "mset (of_channel k (service_order (fd_table svc) (all_waiting ?svc))) = mset (accepted ms (channels svc) k)"
    if "k < ?n" for k
    using that cm Cons.prems(4) by (simp add: of_channel_order of_channel_waiting)
  then have "\<forall>k < ?n. mset (of_channel k (run_order p E (ms # mss) svc)) =
      mset (run_accepted p E pass_through (ms # mss) svc k)"
    using ys(3) r by simp
  moreover have "answer_all p E (run_order p E (ms # mss) svc) (core svc) = Inr (xs @ ys, core svc')"
    using xs(1) ys(1) r by (simp add: answer_all_append)
  ultimately show ?case using xs(2) ys(2) by (intro exI [of _ "xs @ ys"]) simp
qed

section \<open>The daemon's runs\<close>

text \<open>C3. The service with the stage the daemon uses and an executor that runs batches entry by entry (the POSIX
  one) is a sequential server, over a whole run and with the clients pushing requests and taking
  responses between iterations: the requests its rings accepted can be put into one order (each iteration's
  structural, malformed and unknown requests and then its data requests, in polling order) such that
  answering them one after another by the specification \<open>answer\<close> leads to the same descriptor table,
  counter and executor and gives each channel the same responses in the same order; provided
  that in no iteration a data request names a descriptor that a close of the iteration closes or an open of it
  may assign.\<close>

theorem service_runs_serially:
  assumes "run_service p E pass_through mss svc = Inr svc'" "between_rounds pass_through (\<lambda>_. True) svc"
    and "sequential_executor (ex_batch E)" and "run_undisturbed p E mss svc"
    and "\<forall>k < length (channels svc). requests (channels svc ! k) = []"
  shows "\<exists>xs. answer_all p E (run_order p E mss svc) (core svc) = Inr (xs, core svc') \<and>
    (\<forall>k. chan_log (channels svc') k = chan_log (channels svc) k @ sent xs k) \<and>
    (\<forall>k < length (channels svc).
       mset (of_channel k (run_order p E mss svc)) = mset (run_accepted p E pass_through mss svc k))"
  using assms by (rule run_service_order)

text \<open>The example: a sync waits in the first channel, a close of another descriptor in the second. The
  close reaches the library first.\<close>

definition crossing_moves :: "client_move list" where
  "crossing_moves = [Pushes 0 (mk_req 7 Sync 10 0 0 0), Pushes 1 (mk_req 8 Close 11 0 0 0)]"

definition crossing_start :: "(call list, PassThrough) AtlasService" where
  "crossing_start = (fresh_service (with_pipeline [] PassThrough_new) 2)\<lparr>fd_table := [10 \<mapsto> 3, 11 \<mapsto> 4]\<rparr>"

definition crossing_service :: "(call list, PassThrough) AtlasService" where
  "crossing_service = moved crossing_moves crossing_start"

lemmas crossing_defs = crossing_service_def crossing_start_def

lemma crossing_facts:
  "between_rounds pass_through (\<lambda>_. True) crossing_service" "length (channels crossing_service) = 2"
  "requests (channels crossing_service ! 0) = [mk_req 7 Sync 10 0 0 0]"
  "requests (channels crossing_service ! 1) = [mk_req 8 Close 11 0 0 0]"
  "core crossing_service = ([10 \<mapsto> 3, 11 \<mapsto> 4], 1, [])"
  "chan_log (channels crossing_service) k = []"
proof -
  let ?cs = "channels (fresh_service (with_pipeline ([] :: call list) PassThrough_new) 2)"
  have wf: "chans_wf ?cs" by simp
  note cm = client_moves_spec [OF wf, of crossing_moves]
  have acc: "accepted crossing_moves ?cs 0 = [mk_req 7 Sync 10 0 0 0]"
    "accepted crossing_moves ?cs 1 = [mk_req 8 Close 11 0 0 0]"
    using push_fresh by (simp_all add: crossing_moves_def move_accepted_def client_move_def fresh_nth)
  show "between_rounds pass_through (\<lambda>_. True) crossing_service"
    using cm by (simp add: between_rounds_def crossing_defs with_pipeline_def pass_through_def
        pt_is_empty_def PassThrough_new_def)
  show "length (channels crossing_service) = 2" using cm by (simp add: crossing_defs)
  show "requests (channels crossing_service ! 0) = [mk_req 7 Sync 10 0 0 0]"
    "requests (channels crossing_service ! 1) = [mk_req 8 Close 11 0 0 0]"
    using cm acc by (simp_all add: crossing_defs)
  show "core crossing_service = ([10 \<mapsto> 3, 11 \<mapsto> 4], 1, [])"
    by (simp add: crossing_defs core_def with_pipeline_def)
  show "chan_log (channels crossing_service) k = []"
    using cm fresh_service_simps(4) [of k 2 "with_pipeline ([] :: call list) PassThrough_new"]
    by (cases "k < 2") (simp_all add: crossing_defs, simp add: chan_log_def)
qed

lemma push_credit:
  assumes "chans_wf cs"
  shows "chan_credit (client_move (Pushes k r) cs) j = chan_credit cs j"
proof -
  have "credit (snd (client_push r (cs ! k))) = credit (cs ! k)" if "k < length cs"
    using client_push_spec [of "cs ! k" r] assms that by (cases "client_push r (cs ! k)") (auto simp: chans_wf_def)
  then show ?thesis by (auto simp: chan_credit_def client_move_def nth_list_update)
qed

lemma crossing_room:
  "\<forall>k < length (channels crossing_service). length (requests (channels crossing_service ! k))
     \<le> chan_credit (channels crossing_service) k"
proof -
  let ?cs = "channels (fresh_service (with_pipeline ([] :: call list) PassThrough_new) 2)"
  have "chan_credit (channels crossing_service) k = chan_credit ?cs k" for k
    using client_move_spec [of ?cs "Pushes 0 (mk_req 7 Sync 10 0 0 0)"]
    by (simp add: crossing_defs crossing_moves_def push_credit)
  then show ?thesis using crossing_facts(2-4) by (auto simp: less_2_cases_iff)
qed

theorem service_runs_serially_witness:
  "\<exists>svc'. run_service Release (PosixExecutor (demo_libc id)) pass_through [crossing_moves] crossing_start = Inr svc' \<and>
     core svc' = ([10 \<mapsto> 3], 1, [CClose 4, CSync 3]) \<and>
     chan_log (channels svc') 0 = [IoResponse_ok 7] \<and> chan_log (channels svc') 1 = [IoResponse_ok 8]"
proof -
  let ?E = "PosixExecutor (demo_libc id)"
  let ?rs = "all_waiting crossing_service"
  obtain svc' w where s: "serve_round Release ?E pass_through crossing_service = Inr (svc', w)"
    using serve_round_total [OF crossing_facts(1) crossing_room posix_batch_executor posix_batch_total
        pass_through_pipeline] by (metis surj_pair)
  then have run: "run_service Release ?E pass_through [crossing_moves] crossing_start = Inr svc'"
    by (simp add: crossing_service_def)
  have rs: "?rs = [(mk_req 7 Sync 10 0 0 0, 0), (mk_req 8 Close 11 0 0 0, 1)]"
    using crossing_facts(2-4) by (simp add: waiting_def numeral_2_eq_2)
  have c: "fd_table crossing_start = [10 \<mapsto> 3, 11 \<mapsto> 4]" "next_fd crossing_start = 1"
    "core crossing_start = ([10 \<mapsto> 3, 11 \<mapsto> 4], 1, [])"
    by (simp_all add: crossing_start_def with_pipeline_def core_def)
  have io: "io_op (mk_req 7 Sync 10 0 0 0) = Some Sync" "io_op (mk_req 8 Close 11 0 0 0) = Some Close"
    by (simp_all add: io_op_def op_from_u8_def)
  have u: "run_undisturbed Release ?E [crossing_moves] crossing_start"
    using s c io rs by (simp add: crossing_service_def undisturbed_def opens_def is_data_def)
  have order: "run_order Release ?E [crossing_moves] crossing_start =
      [(mk_req 8 Close 11 0 0 0, 1), (mk_req 7 Sync 10 0 0 0, 0)]"
    using s c io rs by (simp add: crossing_service_def service_order_def at_once_def is_data_def)
  have "answer_all Release ?E [(mk_req 8 Close 11 0 0 0, 1), (mk_req 7 Sync 10 0 0 0, 0)] (core crossing_start) =
      Inr ([(1, IoResponse_ok 8), (0, IoResponse_ok 7)], [10 \<mapsto> 3], 1, [CClose 4, CSync 3])"
    using io c(3)
    by (simp add: answer_def PosixExecutor_def posix_close_def posix_batch_def run_kind_def posix_fsync_def
        batch_of_one_def BatchOp_new_def fun_upd_twist)
  moreover have "between_rounds pass_through (\<lambda>_. True) crossing_start"
    by (simp add: between_rounds_def crossing_start_def with_pipeline_def pass_through_def pt_is_empty_def
        PassThrough_new_def)
  moreover have "\<forall>k < length (channels crossing_start). requests (channels crossing_start ! k) = []"
    "chan_log (channels crossing_start) k = []" for k
    using fresh_service_simps(4) [of k 2 "with_pipeline ([] :: call list) PassThrough_new"]
    by (simp add: crossing_start_def, cases "k < 2") (simp_all add: crossing_start_def, simp add: chan_log_def)
  ultimately have "core svc' = ([10 \<mapsto> 3], 1, [CClose 4, CSync 3])"
    "chan_log (channels svc') 0 = [IoResponse_ok 7]" "chan_log (channels svc') 1 = [IoResponse_ok 8]"
    using service_runs_serially [OF run _ posix_sequential u] order by auto
  with run show ?thesis by blast
qed

end
