(* ===== verification/Concurrent_Clients.thy ===== *)
theory Concurrent_Clients
  imports Round_Order "HOL-Library.Sublist"
begin

text \<open>
  Many clients at work at once, each in a thread of its own: the calls of \<open>AtlasClient\<close> block, so a client
  has at most one request under way. The system is a step relation of the clients, cut where
  \<open>send_request\<close> touches the rings and yields, and of the service, one iteration of its loop at a time.
  Every run is explained by a sequential execution of the specification \<open>answer\<close> in which each
  call takes effect at one moment between its beginning and its end.
\<close>

section \<open>Clients and their runs\<close>

text \<open>Where a client is in \<open>send_request\<close>: outside, in the loop that pushes its request, or in the loop that
  waits for the response.\<close>

datatype client_pc = At_Rest | Pushing IoRequest | Awaiting IoRequest

text \<open>What happens in a run: a client stores in its region before a call, begins the call, the service has
  answered it, the call returns with the response.\<close>

datatype event =
    Stores nat "u8 list \<Rightarrow> u8 list"
  | Calls nat IoRequest
  | Answers nat IoRequest IoResponse
  | Returns nat IoRequest IoResponse

record 'w clients_system =
  sy_service :: "('w, PassThrough) AtlasService"
  sy_pc :: "nat \<Rightarrow> client_pc"
  sy_trace :: "event list"

text \<open>The descriptors a client got from its opens and has not given to a close.\<close>

definition hold :: "nat \<Rightarrow> u64 set \<Rightarrow> event \<Rightarrow> u64 set" where
  "hold k S e =
     (case e of
        Calls j r \<Rightarrow> if j = k \<and> io_op r = Some Close then S - {rq_fd r} else S
      | Returns j r resp \<Rightarrow>
          if j = k \<and> io_op r = Some Open \<and> rs_status resp = 0 then insert (rs_fd resp) S else S
      | _ \<Rightarrow> S)"

definition held :: "nat \<Rightarrow> event list \<Rightarrow> u64 set" where
  "held k tr = foldl (hold k) {} tr"

text \<open>Clients use the descriptors they hold, and no others.\<close>

definition uses_fd :: "IoRequest \<Rightarrow> bool" where
  "uses_fd r \<longleftrightarrow> is_data r \<or> io_op r = Some Close"

definition may_call :: "nat \<Rightarrow> IoRequest \<Rightarrow> event list \<Rightarrow> bool" where
  "may_call k r tr \<longleftrightarrow> (uses_fd r \<longrightarrow> rq_fd r \<in> held k tr)"

text \<open>The pop in the loop that waits.\<close>

definition client_pop :: "ServiceChannel \<Rightarrow> IoResponse option \<times> ServiceChannel" where
  "client_pop c =
     (case spsc_deq RING_CAPACITY (sc_resp c) of
        (None, q) \<Rightarrow> (None, c\<lparr>sc_resp := q\<rparr>)
      | (Some resp, q) \<Rightarrow> (Some resp, c\<lparr>sc_resp := q, sc_taken := sc_taken c @ [resp]\<rparr>))"

text \<open>The moment at which the calls of an iteration take effect, in the order of service.\<close>

definition answered :: "profile \<Rightarrow> 'w IoExecutor \<Rightarrow> ('w, PassThrough) AtlasService \<Rightarrow> event list" where
  "answered p E svc =
     (let rs = service_order (fd_table svc) (all_waiting svc) in
      case answer_all p E rs (core svc) of
        Inl _ \<Rightarrow> []
      | Inr (xs, _) \<Rightarrow> map (\<lambda>(x, y). Answers (snd x) (fst x) (snd y)) (zip rs xs))"

abbreviation with_channel :: "nat \<Rightarrow> ServiceChannel \<Rightarrow> ('w, 's) AtlasService \<Rightarrow> ('w, 's) AtlasService" where
  "with_channel k c svc \<equiv> svc\<lparr>channels := (channels svc)[k := c]\<rparr>"

inductive clients_step ::
  "profile \<Rightarrow> 'w IoExecutor \<Rightarrow> ('w \<Rightarrow> nat \<Rightarrow> u8 list) \<Rightarrow> (nat \<Rightarrow> u8 list \<Rightarrow> 'w \<Rightarrow> 'w) \<Rightarrow>
   'w clients_system \<Rightarrow> 'w clients_system \<Rightarrow> bool" for p E seg set_seg where
  begin_call: "\<lbrakk>sy_pc s k = At_Rest; k < length (channels (sy_service s)); may_call k r (sy_trace s)\<rbrakk> \<Longrightarrow>
    clients_step p E seg set_seg s
      (s\<lparr>sy_service := (sy_service s)\<lparr>executor :=
           set_seg k (store (seg (executor (sy_service s)) k)) (executor (sy_service s))\<rparr>,
         sy_pc := (sy_pc s)(k := Pushing r), sy_trace := sy_trace s @ [Stores k store, Calls k r]\<rparr>)"
| try_push: "\<lbrakk>sy_pc s k = Pushing r; client_push r (channels (sy_service s) ! k) = (out, c)\<rbrakk> \<Longrightarrow>
    clients_step p E seg set_seg s
      (s\<lparr>sy_service := with_channel k c (sy_service s),
         sy_pc := (sy_pc s)(k := (case out of Inr _ \<Rightarrow> Awaiting r | Inl _ \<Rightarrow> Pushing r))\<rparr>)"
| no_response: "\<lbrakk>sy_pc s k = Awaiting r; client_pop (channels (sy_service s) ! k) = (None, c)\<rbrakk> \<Longrightarrow>
    clients_step p E seg set_seg s (s\<lparr>sy_service := with_channel k c (sy_service s)\<rparr>)"
| other_response: "\<lbrakk>sy_pc s k = Awaiting r; client_pop (channels (sy_service s) ! k) = (Some resp, c);
      rs_id resp \<noteq> rq_id r\<rbrakk> \<Longrightarrow>
    clients_step p E seg set_seg s (s\<lparr>sy_service := with_channel k c (sy_service s)\<rparr>)"
| own_response: "\<lbrakk>sy_pc s k = Awaiting r; client_pop (channels (sy_service s) ! k) = (Some resp, c);
      rs_id resp = rq_id r\<rbrakk> \<Longrightarrow>
    clients_step p E seg set_seg s
      (s\<lparr>sy_service := with_channel k c (sy_service s), sy_pc := (sy_pc s)(k := At_Rest),
         sy_trace := sy_trace s @ [Returns k r resp]\<rparr>)"
| iterate: "serve_round p E pass_through (sy_service s) = Inr (svc', w) \<Longrightarrow>
    clients_step p E seg set_seg s
      (s\<lparr>sy_service := svc', sy_trace := sy_trace s @ answered p E (sy_service s)\<rparr>)"

definition clients_start :: "('w, PassThrough) AtlasService \<Rightarrow> 'w clients_system" where
  "clients_start svc = \<lparr>sy_service = svc, sy_pc = (\<lambda>_. At_Rest), sy_trace = []\<rparr>"

abbreviation clients_run ::
  "profile \<Rightarrow> 'w IoExecutor \<Rightarrow> ('w \<Rightarrow> nat \<Rightarrow> u8 list) \<Rightarrow> (nat \<Rightarrow> u8 list \<Rightarrow> 'w \<Rightarrow> 'w) \<Rightarrow>
   'w clients_system \<Rightarrow> 'w clients_system \<Rightarrow> bool" where
  "clients_run p E seg set_seg \<equiv> (clients_step p E seg set_seg)\<^sup>*\<^sup>*"

section \<open>Sequential explanations\<close>

text \<open>A trace as an execution of the specification: stores and answers act on the service's core one after
  the other, and each answer must be the one the specification gives at its place.\<close>

fun replay ::
  "profile \<Rightarrow> 'w IoExecutor \<Rightarrow> ('w \<Rightarrow> nat \<Rightarrow> u8 list) \<Rightarrow> (nat \<Rightarrow> u8 list \<Rightarrow> 'w \<Rightarrow> 'w) \<Rightarrow>
   event list \<Rightarrow> 'w core \<Rightarrow> 'w core option" where
  "replay p E seg set_seg [] c = Some c"
| "replay p E seg set_seg (Stores k store # tr) (fds, nf, w) =
     replay p E seg set_seg tr (fds, nf, set_seg k (store (seg w k)) w)"
| "replay p E seg set_seg (Answers k r resp # tr) c =
     (case answer p E k r c of
        Inr (resp', c') \<Rightarrow> if resp' = resp then replay p E seg set_seg tr c' else None
      | Inl _ \<Rightarrow> None)"
| "replay p E seg set_seg (_ # tr) c = replay p E seg set_seg tr c"

text \<open>What a client's part of a trace may look like: calls, each answered once and then returned with that
  answer, one after the other. The state is that of the client's call; \<open>None\<close> is a trace of another form.\<close>

datatype call_state = No_Call | Pending IoRequest | Answered IoRequest IoResponse

definition next_state :: "nat \<Rightarrow> event \<Rightarrow> call_state \<Rightarrow> call_state option" where
  "next_state k e s =
     (case e of
        Stores j _ \<Rightarrow> if j = k \<and> s \<noteq> No_Call then None else Some s
      | Calls j r \<Rightarrow> if j = k then (if s = No_Call then Some (Pending r) else None) else Some s
      | Answers j r resp \<Rightarrow>
          if j = k then (if s = Pending r then Some (Answered r resp) else None) else Some s
      | Returns j r resp \<Rightarrow>
          if j = k then (if s = Answered r resp then Some No_Call else None) else Some s)"

primrec state_from :: "nat \<Rightarrow> event list \<Rightarrow> call_state \<Rightarrow> call_state option" where
  "state_from k [] s = Some s"
| "state_from k (e # tr) s = Option.bind (next_state k e s) (state_from k tr)"

abbreviation call_state :: "nat \<Rightarrow> event list \<Rightarrow> call_state option" where
  "call_state k tr \<equiv> state_from k tr No_Call"

lemma replay_append:
  "replay p E seg set_seg (tr @ tr') c = Option.bind (replay p E seg set_seg tr c) (replay p E seg set_seg tr')"
  by (induction p E seg set_seg tr c rule: replay.induct) (auto split: sum.splits)

lemma state_from_append: "state_from k (tr @ tr') s = Option.bind (state_from k tr s) (state_from k tr')"
  by (induction tr arbitrary: s) (auto split: bind_splits simp: bind_assoc)

lemma held_append: "held k (tr @ tr') = foldl (hold k) (held k tr) tr'"
  by (simp add: held_def)

end
