(* ===== verification/Concurrent_Invariant.thy ===== *)
theory Concurrent_Invariant
  imports Concurrent_Clients
begin

text \<open>
  The invariant of concurrent clients: the descriptors of different clients stay apart, each client's rings
  hold what the state of its call says, and the trace so far is explained by the specification. Every
  step keeps it.
\<close>

section \<open>Descriptors\<close>

text \<open>The descriptors that only client \<open>k\<close> can name: those it holds, the one its close is about to give up,
  the one its open has just been answered with.\<close>

definition under_way :: "call_state option \<Rightarrow> u64 set" where
  "under_way s =
     (case s of
        Some (Pending r) \<Rightarrow> if io_op r = Some Close then {rq_fd r} else {}
      | Some (Answered r resp) \<Rightarrow> if io_op r = Some Open \<and> rs_status resp = 0 then {rs_fd resp} else {}
      | _ \<Rightarrow> {})"

definition own :: "nat \<Rightarrow> event list \<Rightarrow> u64 set" where
  "own k tr = held k tr \<union> under_way (call_state k tr)"

definition fds_ok :: "nat \<Rightarrow> event list \<Rightarrow> u64 \<Rightarrow> bool" where
  "fds_ok n0 tr nf \<longleftrightarrow> unat nf \<le> n0 + length tr \<and> (\<forall>k. \<forall>v \<in> own k tr. v < nf) \<and>
     (\<forall>j k. j \<noteq> k \<longrightarrow> own j tr \<inter> own k tr = {}) \<and>
     (\<forall>k r. call_state k tr = Some (Pending r) \<longrightarrow> uses_fd r \<longrightarrow> rq_fd r \<in> own k tr)"

text \<open>The client an event is about.\<close>

fun client_of_event :: "event \<Rightarrow> nat" where
  "client_of_event (Stores k _) = k"
| "client_of_event (Calls k _) = k"
| "client_of_event (Answers k _ _) = k"
| "client_of_event (Returns k _ _) = k"

lemma event_of_another:
  assumes "client_of_event e \<noteq> k"
  shows "next_state k e s = Some s" "hold k S e = S"
  using assms by (cases e; simp add: next_state_def hold_def)+

lemma trace_of_another:
  assumes "client_of_event e \<noteq> k"
  shows "call_state k (tr @ [e]) = call_state k tr" "held k (tr @ [e]) = held k tr" "own k (tr @ [e]) = own k tr"
  using event_of_another [OF assms]
  by (simp_all add: state_from_append held_append own_def) (cases "call_state k tr"; simp)+

text \<open>One event of client \<open>k\<close> keeps the descriptors apart, if \<open>k\<close> names nothing new but what the service
  has just assigned.\<close>

lemma fds_ok_event:
  assumes ok: "fds_ok n0 tr nf" and k: "client_of_event e = k"
    and nf: "unat nf \<le> unat nf'" "unat nf' \<le> Suc (unat nf)"
    and new: "own k (tr @ [e]) \<subseteq> own k tr \<union> {v. nf \<le> v \<and> v < nf'}"
    and pending: "\<And>r. call_state k (tr @ [e]) = Some (Pending r) \<Longrightarrow> uses_fd r \<Longrightarrow> rq_fd r \<in> own k (tr @ [e])"
  shows "fds_ok n0 (tr @ [e]) nf'"
proof -
  let ?tr = "tr @ [e]"
  have below: "v < nf" if "v \<in> own j tr" for j v using ok that by (simp add: fds_ok_def)
  have le: "nf \<le> nf'" using nf(1) by (simp add: word_le_nat_alt)
  have other: "own j ?tr = own j tr" "call_state j ?tr = call_state j tr" if "j \<noteq> k" for j
    using trace_of_another [of e j tr] k that by simp_all
  have "v < nf'" if "v \<in> own j ?tr" for j v
    using that below new le other by (cases "j = k") (auto dest: less_le_trans)
  moreover have apart: "own j ?tr \<inter> own k ?tr = {}" if "j \<noteq> k" for j
  proof -
    have "own j tr \<inter> own k tr = {}" using ok that by (simp add: fds_ok_def)
    moreover have "v \<notin> own j tr" if "nf \<le> v" for v using below [of v j] that by auto
    ultimately show ?thesis using new other(1) [OF \<open>j \<noteq> k\<close>] by blast
  qed
  moreover have "own i ?tr \<inter> own j ?tr = {}" if "i \<noteq> j" for i j
  proof -
    consider "i = k" | "j = k" | "i \<noteq> k" "j \<noteq> k" by blast
    then show ?thesis
    proof cases
      case 1
      then show ?thesis using apart [of j] that by (simp add: Int_commute)
    next
      case 2
      then show ?thesis using apart [of i] that by simp
    next
      case 3
      then show ?thesis using ok that other(1) by (simp add: fds_ok_def)
    qed
  qed
  moreover have "rq_fd r \<in> own j ?tr" if "call_state j ?tr = Some (Pending r)" "uses_fd r" for j r
    using ok that other pending by (cases "j = k") (simp_all add: fds_ok_def)
  ultimately show ?thesis using ok nf(2) by (simp add: fds_ok_def)
qed

lemma own_event:
  assumes "call_state k tr = Some s" "next_state k e s = Some s'"
  shows "call_state k (tr @ [e]) = Some s'" "own k (tr @ [e]) = hold k (held k tr) e \<union> under_way (Some s')"
    "own k tr = held k tr \<union> under_way (Some s)"
  using assms by (simp_all add: state_from_append held_append own_def)

text \<open>The four kinds of event.\<close>

lemma fds_ok_stores:
  assumes "fds_ok n0 tr nf" "call_state k tr = Some No_Call"
  shows "fds_ok n0 (tr @ [Stores k store]) nf" "call_state k (tr @ [Stores k store]) = Some No_Call"
proof -
  have n: "next_state k (Stores k store) No_Call = Some No_Call" by (simp add: next_state_def)
  note o = own_event [OF assms(2) n]
  have "own k (tr @ [Stores k store]) \<subseteq> own k tr" by (auto simp: o(2,3) hold_def)
  then show "fds_ok n0 (tr @ [Stores k store]) nf"
    by (intro fds_ok_event [OF assms(1)]) (auto simp: o(1))
  show "call_state k (tr @ [Stores k store]) = Some No_Call" by (rule o)
qed

lemma fds_ok_calls:
  assumes "fds_ok n0 tr nf" "call_state k tr = Some No_Call" "may_call k r tr"
  shows "fds_ok n0 (tr @ [Calls k r]) nf" "call_state k (tr @ [Calls k r]) = Some (Pending r)"
proof -
  have n: "next_state k (Calls k r) No_Call = Some (Pending r)" by (simp add: next_state_def)
  note o = own_event [OF assms(2) n]
  have own: "own k (tr @ [Calls k r]) \<subseteq> own k tr" "uses_fd r \<Longrightarrow> rq_fd r \<in> own k (tr @ [Calls k r])"
    using assms(3) by (auto simp: o(2,3) hold_def under_way_def may_call_def uses_fd_def)
  show "fds_ok n0 (tr @ [Calls k r]) nf"
    using own by (intro fds_ok_event [OF assms(1)]) (auto simp: o(1))
  show "call_state k (tr @ [Calls k r]) = Some (Pending r)" by (rule o)
qed

lemma fds_ok_returns:
  assumes "fds_ok n0 tr nf" "call_state k tr = Some (Answered r resp)"
  shows "fds_ok n0 (tr @ [Returns k r resp]) nf" "call_state k (tr @ [Returns k r resp]) = Some No_Call"
proof -
  have n: "next_state k (Returns k r resp) (Answered r resp) = Some No_Call" by (simp add: next_state_def)
  note o = own_event [OF assms(2) n]
  have "own k (tr @ [Returns k r resp]) \<subseteq> own k tr" by (auto simp: o(2,3) hold_def under_way_def)
  then show "fds_ok n0 (tr @ [Returns k r resp]) nf"
    by (intro fds_ok_event [OF assms(1)]) (auto simp: o(1))
  show "call_state k (tr @ [Returns k r resp]) = Some No_Call" by (rule o)
qed

text \<open>The number a failed open reports is not zero. Both executors keep this.\<close>

definition open_reports :: "'w IoExecutor \<Rightarrow> bool" where
  "open_reports E \<longleftrightarrow> (\<forall>w path flags mode rc w'. ex_open E w path flags mode = (rc, w') \<longrightarrow>
     negative rc \<longrightarrow> i64_as_i32 rc \<noteq> 0)"

lemma answer_counter:
  assumes "answer p E k r (fds, nf, w) = Inr (resp, fds', nf', w')" "open_reports E" "unat nf + 1 < 2 ^ 64"
  shows "nf' = nf \<and> \<not> (io_op r = Some Open \<and> rs_status resp = 0) \<or>
    nf' = nf + 1 \<and> unat nf' = Suc (unat nf) \<and> io_op r = Some Open \<and> rs_status resp = 0 \<and> rs_fd resp = nf"
proof (cases "io_op r = Some Open")
  case True
  have up: "uadd p nf 1 = Inr (nf + 1)" "unat (nf + 1) = Suc (unat nf)"
    using assms(3) uadd_no_overflow [of nf 1 p] unat_add_no_overflow [of nf 1] by simp_all
  obtain rc w1 where o: "ex_open E w (path_str r) (rq_len r) 420 = (rc, w1)" by force
  with assms(2) have "negative rc \<longrightarrow> i64_as_i32 rc \<noteq> 0" unfolding open_reports_def by blast
  with True o up assms(1) show ?thesis by (auto simp: answer_def split: if_splits)
next
  case False
  with answer_descriptors [OF assms(1)] show ?thesis by auto
qed

lemma fds_ok_answers:
  assumes ok: "fds_ok n0 tr nf" and s: "call_state k tr = Some (Pending r)"
    and ans: "answer p E k r (fds, nf, w) = Inr (resp, fds', nf', w')" "open_reports E"
    and few: "n0 + length tr < 2 ^ 64 - 1"
  shows "fds_ok n0 (tr @ [Answers k r resp]) nf'" "call_state k (tr @ [Answers k r resp]) = Some (Answered r resp)"
proof -
  have n: "next_state k (Answers k r resp) (Pending r) = Some (Answered r resp)" by (simp add: next_state_def)
  note o = own_event [OF s n]
  have "unat nf + 1 < 2 ^ 64" using ok few by (simp add: fds_ok_def)
  note c = answer_counter [OF ans this]
  then have le: "unat nf \<le> unat nf'" "unat nf' \<le> Suc (unat nf)" by auto
  have "own k (tr @ [Answers k r resp]) \<subseteq> own k tr \<union> {v. nf \<le> v \<and> v < nf'}"
    using c by (auto simp: o(2,3) hold_def under_way_def word_less_nat_alt)
  then show "fds_ok n0 (tr @ [Answers k r resp]) nf'"
    using le by (intro fds_ok_event [OF ok]) (auto simp: o(1))
  show "call_state k (tr @ [Answers k r resp]) = Some (Answered r resp)" by (rule o)
qed

section \<open>An iteration\<close>

abbreviation answer_events :: "(IoRequest \<times> nat) list \<Rightarrow> (nat \<times> IoResponse) list \<Rightarrow> event list" where
  "answer_events rs xs \<equiv> map (\<lambda>(x, y). Answers (snd x) (fst x) (snd y)) (zip rs xs)"

lemma answers_take_effect:
  assumes "answer_all p E rs (fds, nf, w) = Inr (xs, fds', nf', w')" "fds_ok n0 tr nf" "distinct (map snd rs)"
    and "\<forall>x \<in> set rs. call_state (snd x) tr = Some (Pending (fst x))" "open_reports E"
    and "n0 + length tr + length rs < 2 ^ 64"
  shows "fds_ok n0 (tr @ answer_events rs xs) nf' \<and>
    replay p E seg set_seg (answer_events rs xs) (fds, nf, w) = Some (fds', nf', w') \<and>
    (\<forall>x \<in> set rs. \<exists>resp. sent xs (snd x) = [resp] \<and> rs_id resp = rq_id (fst x) \<and>
       call_state (snd x) (tr @ answer_events rs xs) = Some (Answered (fst x) resp)) \<and>
    (\<forall>k. k \<notin> snd ` set rs \<longrightarrow> sent xs k = [] \<and> call_state k (tr @ answer_events rs xs) = call_state k tr)"
  using assms(1-4,6)
proof (induction rs arbitrary: fds nf w xs tr)
  case (Cons x rs)
  obtain r k where x: "x = (r, k)" by (cases x) auto
  from Cons.prems(1) obtain resp fds1 nf1 w1 ys where
    one: "answer p E k r (fds, nf, w) = Inr (resp, fds1, nf1, w1)"
    and more: "answer_all p E rs (fds1, nf1, w1) = Inr (ys, fds', nf', w')" and xs: "xs = (k, resp) # ys"
    by (auto simp: x elim!: and_then_InrE)
  let ?e = "Answers k r resp"
  have s: "call_state k tr = Some (Pending r)" and few: "n0 + length tr < 2 ^ 64 - 1"
    using Cons.prems(4,5) x by simp_all
  note ok = fds_ok_answers [OF Cons.prems(2) s one assms(5) few]
  have k: "k \<notin> snd ` set rs" using Cons.prems(3) x by auto
  have other: "call_state j (tr @ [?e]) = call_state j tr" if "j \<noteq> k" for j
    using trace_of_another(1) [of ?e j tr] that by simp
  then have "\<forall>x \<in> set rs. call_state (snd x) (tr @ [?e]) = Some (Pending (fst x))"
    using Cons.prems(4) k by (metis image_eqI list.set_intros(2))
  from Cons.IH [OF more ok(1) _ this] Cons.prems(3,5) have ih:
    "fds_ok n0 ((tr @ [?e]) @ answer_events rs ys) nf'"
    "replay p E seg set_seg (answer_events rs ys) (fds1, nf1, w1) = Some (fds', nf', w')"
    "\<forall>x \<in> set rs. \<exists>resp. sent ys (snd x) = [resp] \<and> rs_id resp = rq_id (fst x) \<and>
       call_state (snd x) ((tr @ [?e]) @ answer_events rs ys) = Some (Answered (fst x) resp)"
    "\<forall>j. j \<notin> snd ` set rs \<longrightarrow>
       sent ys j = [] \<and> call_state j ((tr @ [?e]) @ answer_events rs ys) = call_state j (tr @ [?e])"
    by simp_all
  have evs: "tr @ answer_events (x # rs) xs = (tr @ [?e]) @ answer_events rs ys" by (simp add: x xs)
  have "replay p E seg set_seg (answer_events (x # rs) xs) (fds, nf, w) = Some (fds', nf', w')"
    using one ih(2) by (simp add: x xs)
  moreover have "\<exists>resp. sent xs (snd y) = [resp] \<and> rs_id resp = rq_id (fst y) \<and>
      call_state (snd y) ((tr @ [?e]) @ answer_events rs ys) = Some (Answered (fst y) resp)"
    if "y \<in> set (x # rs)" for y
  proof (cases "y = x")
    case True
    then show ?thesis using ih(4) k ok(2) answer_id [OF one] by (auto simp: x xs simp del: append_assoc)
  next
    case False
    then have "y \<in> set rs" "snd y \<noteq> k" using that k by auto
    then show ?thesis using ih(3) by (auto simp: xs simp del: append_assoc)
  qed
  moreover have "sent xs j = [] \<and> call_state j ((tr @ [?e]) @ answer_events rs ys) = call_state j tr"
    if "j \<notin> snd ` set (x # rs)" for j
    using ih(4) other that by (auto simp: x xs simp del: append_assoc)
  ultimately show ?case unfolding evs using ih(1) by blast
qed simp

section \<open>The invariant\<close>

abbreviation responses :: "ServiceChannel \<Rightarrow> IoResponse list" where
  "responses c \<equiv> spsc_contents RING_CAPACITY (sc_resp c)"

text \<open>A client, its call and its rings.\<close>

definition client_ok :: "client_pc \<Rightarrow> call_state option \<Rightarrow> ServiceChannel \<Rightarrow> bool" where
  "client_ok pc s c \<longleftrightarrow>
     (case pc of
        At_Rest \<Rightarrow> s = Some No_Call \<and> requests c = [] \<and> responses c = []
      | Pushing r \<Rightarrow> s = Some (Pending r) \<and> requests c = [] \<and> responses c = []
      | Awaiting r \<Rightarrow> s = Some (Pending r) \<and> requests c = [r] \<and> responses c = [] \<or>
          (\<exists>resp. s = Some (Answered r resp) \<and> requests c = [] \<and> responses c = [resp] \<and>
             rs_id resp = rq_id r))"

definition clients_inv ::
  "profile \<Rightarrow> 'w IoExecutor \<Rightarrow> ('w \<Rightarrow> nat \<Rightarrow> u8 list) \<Rightarrow> (nat \<Rightarrow> u8 list \<Rightarrow> 'w \<Rightarrow> 'w) \<Rightarrow>
   ('w, PassThrough) AtlasService \<Rightarrow> ('w, PassThrough) AtlasService \<Rightarrow> (nat \<Rightarrow> client_pc) \<Rightarrow> event list \<Rightarrow> bool" where
  "clients_inv p E seg set_seg svc0 svc pc tr \<longleftrightarrow>
     between_rounds pass_through (\<lambda>_. True) svc \<and> length (channels svc) = length (channels svc0) \<and>
     no_moves (channels svc) \<and> fds_ok (unat (next_fd svc0)) tr (next_fd svc) \<and>
     replay p E seg set_seg tr (core svc0) = Some (core svc) \<and>
     (\<forall>k < length (channels svc). client_ok (pc k) (call_state k tr) (channels svc ! k)) \<and>
     (\<forall>k \<ge> length (channels svc). pc k = At_Rest \<and> call_state k tr = Some No_Call)"

text \<open>What one client does to its own channel.\<close>

lemma client_acts:
  assumes inv: "clients_inv p E seg set_seg svc0 svc pc tr" and k: "k < length (channels svc)"
    and c: "chan_wf c" "sc_moves c = []" "client_ok pc' (call_state k tr') c"
    and tr': "fds_ok (unat (next_fd svc0)) tr' (next_fd svc)"
      "replay p E seg set_seg tr' (core svc0) = Some (core svc)" "\<And>j. j \<noteq> k \<Longrightarrow> call_state j tr' = call_state j tr"
  shows "clients_inv p E seg set_seg svc0 (with_channel k c svc) (pc(k := pc')) tr'"
proof -
  have "chans_wf ((channels svc)[k := c])"
    using inv c(1) chans_wf_update by (auto simp: clients_inv_def between_rounds_def)
  moreover have "no_moves ((channels svc)[k := c])"
    using inv c(2) set_update_subset_insert [of "channels svc" k c] by (auto simp: clients_inv_def no_moves_def)
  ultimately show ?thesis
    using inv k c(3) tr' by (auto simp: clients_inv_def between_rounds_def core_def nth_list_update)
qed

lemma inv_channel:
  assumes "clients_inv p E seg set_seg svc0 svc pc tr" "k < length (channels svc)"
  shows "chan_wf (channels svc ! k)" "sc_moves (channels svc ! k) = []"
    "client_ok (pc k) (call_state k tr) (channels svc ! k)"
  using assms by (auto simp: clients_inv_def between_rounds_def chans_wf_def no_moves_def)

lemma busy_client:
  "clients_inv p E seg set_seg svc0 svc pc tr \<Longrightarrow> pc k \<noteq> At_Rest \<Longrightarrow> k < length (channels svc)"
  by (auto simp: clients_inv_def not_less [symmetric])

lemma distinct_waiting:
  assumes "distinct is" "\<forall>i \<in> set is. length (requests (cs ! i)) \<le> 1"
  shows "distinct (map snd (waiting is cs))"
  using assms
proof (induction "is")
  case (Cons i "is")
  have "waiting (i # is) cs = map (\<lambda>r. (r, i)) (requests (cs ! i)) @ waiting is cs" by (simp add: waiting_def)
  moreover have "i \<notin> snd ` set (waiting is cs)" using Cons.prems(1) waiting_channel by fastforce
  moreover have "distinct (map snd (map (\<lambda>r. (r, i)) rs))" if "length rs \<le> 1" for rs :: "IoRequest list"
    using that by (cases rs) simp_all
  ultimately show ?case using Cons by (auto simp: o_def)
qed (simp add: waiting_def)

lemma mset_service_order: "mset (service_order fds rs) = mset rs"
  unfolding service_order_def by (induction rs) auto

text \<open>The requests that wait are those of clients that await an answer, at most one of each.\<close>

lemma waiting_clients:
  assumes inv: "clients_inv p E seg set_seg svc0 svc pc tr"
  shows "distinct (map snd (all_waiting svc))"
    and "x \<in> set (all_waiting svc) \<Longrightarrow> snd x < length (channels svc) \<and> pc (snd x) = Awaiting (fst x) \<and>
      call_state (snd x) tr = Some (Pending (fst x)) \<and> responses (channels svc ! snd x) = []"
proof -
  have ok: "client_ok (pc k) (call_state k tr) (channels svc ! k)" if "k < length (channels svc)" for k
    using inv that by (simp add: clients_inv_def)
  have "length (requests (channels svc ! k)) \<le> 1" if "k < length (channels svc)" for k
    using ok [OF that] by (auto simp: client_ok_def split: client_pc.splits)
  then show "distinct (map snd (all_waiting svc))" by (intro distinct_waiting) simp_all
  assume "x \<in> set (all_waiting svc)"
  then have "snd x < length (channels svc)" "fst x \<in> set (requests (channels svc ! snd x))"
    by (auto simp: waiting_def)
  with ok [of "snd x"] show "snd x < length (channels svc) \<and> pc (snd x) = Awaiting (fst x) \<and>
      call_state (snd x) tr = Some (Pending (fst x)) \<and> responses (channels svc ! snd x) = []"
    by (auto simp: client_ok_def split: client_pc.splits)
qed

text \<open>Clients that keep to their own descriptors do not disturb each other in an iteration.\<close>

lemma clients_undisturbed:
  assumes inv: "clients_inv p E seg set_seg svc0 svc pc tr"
    and few: "unat (next_fd svc0) + length tr + length (all_waiting svc) < 2 ^ 64"
  shows "undisturbed (next_fd svc) (all_waiting svc)"
proof -
  let ?rs = "all_waiting svc" and ?nf = "next_fd svc"
  have fds: "fds_ok (unat (next_fd svc0)) tr ?nf" using inv by (simp add: clients_inv_def)
  have named: "rq_fd (fst x) \<in> own (snd x) tr" if "x \<in> set ?rs" "uses_fd (fst x)" for x
    using waiting_clients(2) [OF inv that(1)] fds that(2) by (simp add: fds_ok_def)
  have "rq_fd (fst y) \<noteq> rq_fd (fst x)"
    if x: "x \<in> set ?rs" "is_data (fst x)" and y: "y \<in> set ?rs" "io_op (fst y) = Some Close" for x y
  proof -
    have "x \<noteq> y" using x(2) y(2) by (auto simp: is_data_def)
    then have "snd x \<noteq> snd y"
      using waiting_clients(1) [OF inv] x(1) y(1) by (auto simp: distinct_map inj_on_def)
    then have "own (snd x) tr \<inter> own (snd y) tr = {}" using fds by (simp add: fds_ok_def)
    then show ?thesis using named [OF x(1)] named [OF y(1)] x(2) y(2) by (auto simp: uses_fd_def)
  qed
  moreover have "rq_fd (fst x) \<noteq> ?nf + of_nat i" if x: "x \<in> set ?rs" "is_data (fst x)" and i: "i < opens ?rs" for x i
  proof -
    have "rq_fd (fst x) < ?nf" using named [OF x(1)] x(2) fds by (auto simp: fds_ok_def uses_fd_def)
    moreover have "i < length ?rs" using i by (simp add: opens_def) (meson length_filter_le less_le_trans)
    then have "unat ?nf + i < 2 ^ 64" using fds few by (simp add: fds_ok_def)
    then have "unat (?nf + of_nat i) = unat ?nf + i"
      using unat_add_no_overflow [of ?nf "of_nat i"] by (simp add: unat_of_nat)
    ultimately show ?thesis by (auto simp: word_less_nat_alt)
  qed
  ultimately show ?thesis by (simp add: undisturbed_def)
qed

lemma answer_all_length: "answer_all p E rs c = Inr (xs, c') \<Longrightarrow> length xs = length rs"
  by (induction p E rs c arbitrary: xs rule: answer_all.induct) (auto elim!: and_then_InrE)

text \<open>An iteration of the service.\<close>

lemma inv_iterate:
  assumes inv: "clients_inv p E seg set_seg svc0 svc pc tr"
    and E: "sequential_executor (ex_batch E)" "open_reports E"
    and r: "serve_round p E pass_through svc = Inr (svc', w)"
    and few: "unat (next_fd svc0) + length tr + length (all_waiting svc) < 2 ^ 64"
  shows "clients_inv p E seg set_seg svc0 svc' pc (tr @ answered p E svc)"
    and "\<forall>k < length (channels svc'). pc k = At_Rest \<or> (\<exists>r. pc k = Pushing r) \<or> responses (channels svc' ! k) \<noteq> []"
proof -
  let ?n = "length (channels svc)" and ?rs = "all_waiting svc"
  let ?order = "service_order (fd_table svc) ?rs"
  have bt: "between_rounds pass_through (\<lambda>_. True) svc" using inv by (simp add: clients_inv_def)
  have b: "batch_executor (ex_batch E)" using E(1) by (simp add: sequential_executor_def)
  from serve_round_order [OF r bt E(1) clients_undisturbed [OF inv few]] obtain xs where
    ans: "answer_all p E ?order (core svc) = Inr (xs, core svc')"
    and log: "\<And>k. chan_log (channels svc') k = chan_log (channels svc) k @ sent xs k"
    and tn: "takes_nothing (channels svc) (channels svc')" by blast
  note sp = serve_round_spec [OF r bt b pass_through_pipeline]
  have order: "mset ?order = mset ?rs" by (rule mset_service_order)
  then have set: "set ?order = set ?rs" and len: "length ?order = length ?rs"
    by (metis set_mset_mset) (metis order size_mset)
  have "mset (map snd ?order) = mset (map snd ?rs)" using order by simp
  then have dist: "distinct (map snd ?order)"
    using waiting_clients(1) [OF inv] by (metis mset_eq_imp_distinct_iff)
  have pend: "\<forall>x \<in> set ?order. call_state (snd x) tr = Some (Pending (fst x))"
    using waiting_clients(2) [OF inv] set by blast
  have evs: "answered p E svc = answer_events ?order xs" using ans by (simp add: answered_def)
  have fds: "fds_ok (unat (next_fd svc0)) tr (next_fd svc)" using inv by (simp add: clients_inv_def)
  note eff = answers_take_effect [OF ans [unfolded core_def] fds dist pend E(2), where seg = seg and set_seg = set_seg,
      folded evs core_def, unfolded set len, OF few]
  note mine = eff [THEN conjunct2, THEN conjunct2, THEN conjunct1, rule_format]
    and others = eff [THEN conjunct2, THEN conjunct2, THEN conjunct2, rule_format]
  have nm: "no_moves (channels svc')" and taken: "map sc_taken (channels svc') = map sc_taken (channels svc)"
    using tn inv by (simp_all add: takes_nothing_def clients_inv_def)
  have resps: "responses (channels svc' ! k) = responses (channels svc ! k) @ sent xs k"
    and reqs: "requests (channels svc' ! k) = []" if "k < ?n" for k
  proof -
    have "sc_taken (channels svc' ! k) = sc_taken (channels svc ! k)"
      using arg_cong [OF taken, of "\<lambda>xs. xs ! k"] that sp by simp
    then show "responses (channels svc' ! k) = responses (channels svc ! k) @ sent xs k"
      using log [of k] that sp by (simp add: chan_log_def resp_log_def)
  qed (use sp that in simp)
  have ok: "client_ok (pc k) (call_state k tr) (channels svc ! k)" if "k < ?n" for k
    using inv that by (simp add: clients_inv_def)
  have client: "client_ok (pc k) (call_state k (tr @ answered p E svc)) (channels svc' ! k) \<and>
      (pc k = At_Rest \<or> (\<exists>r. pc k = Pushing r) \<or> responses (channels svc' ! k) \<noteq> [])" if k: "k < ?n" for k
  proof (cases "k \<in> snd ` set ?rs")
    case True
    then obtain r where x: "(r, k) \<in> set ?rs" by force
    from waiting_clients(2) [OF inv x] have w: "pc k = Awaiting r" "responses (channels svc ! k) = []" by simp_all
    from mine [OF x] obtain resp where "sent xs k = [resp]" "rs_id resp = rq_id r"
      "call_state k (tr @ answered p E svc) = Some (Answered r resp)" by auto
    then show ?thesis using w resps [OF k] reqs [OF k] by (simp add: client_ok_def)
  next
    case False
    have "requests (channels svc ! k) = []"
    proof (rule ccontr)
      assume "requests (channels svc ! k) \<noteq> []"
      then obtain r where "r \<in> set (requests (channels svc ! k))" by (meson last_in_set)
      then have "(r, k) \<in> set ?rs" using k by (auto simp: waiting_def)
      with False show False by force
    qed
    with others [OF False] ok [OF k] resps [OF k] reqs [OF k] show ?thesis
      by (cases "pc k") (auto simp: client_ok_def)
  qed
  have "call_state k (tr @ answered p E svc) = call_state k tr" if "k \<ge> ?n" for k
  proof -
    have "k \<notin> snd ` set ?rs" using waiting_clients(2) [OF inv] that by force
    then show ?thesis using others [of k] by blast
  qed
  moreover have "fds_ok (unat (next_fd svc0)) (tr @ answered p E svc) (next_fd svc')"
    "replay p E seg set_seg (answered p E svc) (core svc) = Some (core svc')"
    using eff by (simp_all add: core_def)
  ultimately show "clients_inv p E seg set_seg svc0 svc' pc (tr @ answered p E svc)"
    using inv sp nm client by (simp add: clients_inv_def replay_append)
  show "\<forall>k < length (channels svc'). pc k = At_Rest \<or> (\<exists>r. pc k = Pushing r) \<or> responses (channels svc' ! k) \<noteq> []"
    using client sp by simp
qed

section \<open>The steps\<close>

lemma client_pop_spec:
  assumes "chan_wf c" "client_pop c = (out, c')"
  shows "chan_wf c' \<and> sc_moves c' = sc_moves c \<and> requests c' = requests c \<and>
    (case out of None \<Rightarrow> responses c = [] \<and> responses c' = [] | Some resp \<Rightarrow> responses c = resp # responses c')"
proof -
  obtain x q where d: "spsc_deq RING_CAPACITY (sc_resp c) = (x, q)" by force
  have wf: "spsc_wf RING_CAPACITY (sc_resp c)" using assms(1) by (simp add: chan_wf_def)
  show ?thesis
    using assms d spscq.deq_cases [OF wf d] spscq.invar_step(2) [OF wf d]
    by (cases x) (auto simp: client_pop_def chan_wf_def)
qed

lemma client_push_other:
  "client_push r c = (out, c') \<Longrightarrow> sc_moves c' = sc_moves c \<and> sc_resp c' = sc_resp c"
  by (auto simp: client_push_def split: prod.splits)

lemma inv_parts:
  assumes "clients_inv p E seg set_seg svc0 svc pc tr"
  shows "fds_ok (unat (next_fd svc0)) tr (next_fd svc)" "replay p E seg set_seg tr (core svc0) = Some (core svc)"
  using assms by (simp_all add: clients_inv_def)

lemma inv_begin_call:
  assumes inv: "clients_inv p E seg set_seg svc0 svc pc tr" and k: "k < length (channels svc)"
    and "pc k = At_Rest" "may_call k r tr"
  shows "clients_inv p E seg set_seg svc0 (svc\<lparr>executor := set_seg k (store (seg (executor svc) k)) (executor svc)\<rparr>)
    (pc(k := Pushing r)) (tr @ [Stores k store, Calls k r])"
proof -
  let ?tr1 = "tr @ [Stores k store]"
  have ok: "client_ok At_Rest (call_state k tr) (channels svc ! k)" using inv_channel(3) [OF inv k] assms(3) by simp
  then have none: "call_state k tr = Some No_Call" by (simp add: client_ok_def)
  note st = fds_ok_stores [OF inv_parts(1) [OF inv] none, of store]
  have "may_call k r ?tr1" using assms(4) by (simp add: may_call_def held_append hold_def)
  note ca = fds_ok_calls [OF st this, simplified]
  have other: "call_state j (tr @ [Stores k store, Calls k r]) = call_state j tr" if "j \<noteq> k" for j
    using trace_of_another(1) [of "Stores k store" j tr] trace_of_another(1) [of "Calls k r" j ?tr1] that by simp
  have "client_ok ((pc(k := Pushing r)) j) (call_state j (tr @ [Stores k store, Calls k r])) (channels svc ! j)"
    if "j < length (channels svc)" for j
  proof (cases "j = k")
    case True
    then show ?thesis using ok ca(2) by (simp add: client_ok_def)
  next
    case False
    then show ?thesis using inv_channel(3) [OF inv that] other by simp
  qed
  then show ?thesis
    using inv k ca(1) other inv_parts(2) [OF inv]
    by (simp add: clients_inv_def between_rounds_def replay_append core_def)
qed

lemma inv_try_push:
  assumes inv: "clients_inv p E seg set_seg svc0 svc pc tr"
    and "pc k = Pushing r" "client_push r (channels svc ! k) = (out, c)"
  shows "clients_inv p E seg set_seg svc0 (with_channel k c svc)
      (pc(k := (case out of Inr _ \<Rightarrow> Awaiting r | Inl _ \<Rightarrow> Pushing r))) tr"
    and "out = Inr ()"
proof -
  have k: "k < length (channels svc)" using busy_client [OF inv, of k] assms(2) by simp
  note ch = inv_channel [OF inv k]
  note p = client_push_spec [OF ch(1) assms(3)] client_push_other [OF assms(3)]
  have ok: "call_state k tr = Some (Pending r)" "requests (channels svc ! k) = []" "responses (channels svc ! k) = []"
    using ch(3) assms(2) by (simp_all add: client_ok_def)
  have "spsc_wf RING_CAPACITY (sc_req (channels svc ! k))" using ch(1) by (simp add: chan_wf_def)
  from spscq.enq_space [OF this, of r] ok(2) assms(3) show out: "out = Inr ()"
    by (auto simp: client_push_def unat_RING_CAPACITY split: prod.splits)
  show "clients_inv p E seg set_seg svc0 (with_channel k c svc)
      (pc(k := (case out of Inr _ \<Rightarrow> Awaiting r | Inl _ \<Rightarrow> Pushing r))) tr"
    using p ch ok out by (intro client_acts [OF inv k] inv_parts [OF inv]) (auto simp: client_ok_def)
qed

lemma inv_no_response:
  assumes inv: "clients_inv p E seg set_seg svc0 svc pc tr"
    and "pc k = Awaiting r" "client_pop (channels svc ! k) = (None, c)"
  shows "clients_inv p E seg set_seg svc0 (with_channel k c svc) pc tr"
proof -
  have k: "k < length (channels svc)" using busy_client [OF inv, of k] assms(2) by simp
  note ch = inv_channel [OF inv k]
  have "clients_inv p E seg set_seg svc0 (with_channel k c svc) (pc(k := Awaiting r)) tr"
    using client_pop_spec [OF ch(1) assms(3)] ch assms(2)
    by (intro client_acts [OF inv k] inv_parts [OF inv]) (auto simp: client_ok_def)
  moreover have "pc(k := Awaiting r) = pc" using assms(2) by auto
  ultimately show ?thesis by simp
qed

lemma inv_response:
  assumes inv: "clients_inv p E seg set_seg svc0 svc pc tr"
    and "pc k = Awaiting r" "client_pop (channels svc ! k) = (Some resp, c)"
  shows "rs_id resp = rq_id r" "call_state k tr = Some (Answered r resp)"
    and "clients_inv p E seg set_seg svc0 (with_channel k c svc) (pc(k := At_Rest)) (tr @ [Returns k r resp])"
proof -
  have k: "k < length (channels svc)" using busy_client [OF inv, of k] assms(2) by simp
  note ch = inv_channel [OF inv k]
  note p = client_pop_spec [OF ch(1) assms(3)]
  with ch(3) assms(2) have ok: "call_state k tr = Some (Answered r resp)" "rs_id resp = rq_id r"
    "requests (channels svc ! k) = []" "responses c = []"
    by (auto simp: client_ok_def)
  then show "rs_id resp = rq_id r" "call_state k tr = Some (Answered r resp)" by simp_all
  note ret = fds_ok_returns [OF inv_parts(1) [OF inv] ok(1)]
  have "call_state j (tr @ [Returns k r resp]) = call_state j tr" if "j \<noteq> k" for j
    using trace_of_another(1) [of "Returns k r resp" j tr] that by simp
  moreover have "client_ok At_Rest (call_state k (tr @ [Returns k r resp])) c"
    using ret(2) ok p by (simp add: client_ok_def)
  ultimately show "clients_inv p E seg set_seg svc0 (with_channel k c svc) (pc(k := At_Rest)) (tr @ [Returns k r resp])"
    using p ch inv_parts [OF inv] ret(1) by (intro client_acts [OF inv k]) (simp_all add: replay_append)
qed

lemma waiting_length:
  assumes inv: "clients_inv p E seg set_seg svc0 svc pc tr"
  shows "length (all_waiting svc) \<le> length (channels svc0)"
proof -
  have "set (map snd (all_waiting svc)) \<subseteq> {..<length (channels svc)}" using waiting_clients(2) [OF inv] by auto
  then have "card (set (map snd (all_waiting svc))) \<le> length (channels svc)"
    by (metis card_lessThan card_mono finite_lessThan)
  then show ?thesis
    using distinct_card [OF waiting_clients(1) [OF inv]] inv by (simp add: clients_inv_def)
qed

lemma few_waiting:
  assumes "clients_inv p E seg set_seg svc0 svc pc tr"
    and "unat (next_fd svc0) + length tr + length (channels svc0) < 2 ^ 64"
  shows "unat (next_fd svc0) + length tr + length (all_waiting svc) < 2 ^ 64"
  using waiting_length [OF assms(1)] assms(2) by simp

lemma answered_length:
  assumes inv: "clients_inv p E seg set_seg svc0 svc pc tr"
  shows "length (answered p E svc) \<le> length (channels svc0)"
proof -
  have "length (service_order (fd_table svc) (all_waiting svc)) \<le> length (channels svc0)"
    using waiting_length [OF inv] mset_service_order [of "fd_table svc" "all_waiting svc"] by (metis size_mset)
  then show ?thesis by (auto simp: answered_def Let_def split: sum.split)
qed

lemma clients_step_inv:
  assumes "clients_step p E seg set_seg s t" "sequential_executor (ex_batch E)" "open_reports E"
    and inv: "clients_inv p E seg set_seg svc0 (sy_service s) (sy_pc s) (sy_trace s)"
    and "unat (next_fd svc0) + length (sy_trace s) + length (channels svc0) < 2 ^ 64"
  shows "clients_inv p E seg set_seg svc0 (sy_service t) (sy_pc t) (sy_trace t)"
  using assms(1)
proof cases
  case (begin_call k r store)
  then show ?thesis using inv_begin_call [OF inv] by simp
next
  case (try_push k r out c)
  then show ?thesis using inv_try_push(1) [OF inv] by simp
next
  case (no_response k r c)
  then show ?thesis using inv_no_response [OF inv] by simp
next
  case (other_response k r resp c)
  then show ?thesis using inv_response(1) [OF inv] by blast
next
  case (own_response k r resp c)
  then show ?thesis using inv_response(3) [OF inv] by simp
next
  case (iterate svc' w)
  show ?thesis using inv_iterate(1) [OF inv assms(2,3) iterate(2) few_waiting [OF inv assms(5)]] iterate(1) by simp
qed

section \<open>Runs\<close>

lemma clients_step_trace: "clients_step p E seg set_seg s t \<Longrightarrow> prefix (sy_trace s) (sy_trace t)"
  by (auto elim!: clients_step.cases)

lemma clients_run_inv:
  assumes "clients_run p E seg set_seg s t" "sequential_executor (ex_batch E)" "open_reports E"
    and "clients_inv p E seg set_seg svc0 (sy_service s) (sy_pc s) (sy_trace s)"
    and "unat (next_fd svc0) + length (sy_trace t) + length (channels svc0) < 2 ^ 64"
  shows "clients_inv p E seg set_seg svc0 (sy_service t) (sy_pc t) (sy_trace t)"
  using assms(1,5)
proof (induction rule: rtranclp_induct)
  case base
  show ?case by (rule assms(4))
next
  case (step t u)
  then have few: "unat (next_fd svc0) + length (sy_trace t) + length (channels svc0) < 2 ^ 64"
    using prefix_length_le [OF clients_step_trace [OF step.hyps(2)]] by simp
  show ?case by (rule clients_step_inv [OF step.hyps(2) assms(2,3) step.IH [OF few] few])
qed

lemma inv_call_state:
  assumes inv: "clients_inv p E seg set_seg svc0 svc pc tr"
  shows "call_state k tr \<noteq> None \<and> (pc k = At_Rest \<longleftrightarrow> call_state k tr = Some No_Call)"
proof (cases "k < length (channels svc)")
  case True
  from inv_channel(3) [OF inv this] show ?thesis by (cases "pc k") (auto simp: client_ok_def)
qed (use inv in \<open>simp add: clients_inv_def\<close>)

text \<open>A service that is between rounds, with empty rings whose clients take nothing behind its back.\<close>

definition quiet_service :: "('w, PassThrough) AtlasService \<Rightarrow> bool" where
  "quiet_service svc \<longleftrightarrow> between_rounds pass_through (\<lambda>_. True) svc \<and> no_moves (channels svc) \<and>
     (\<forall>c \<in> set (channels svc). requests c = [] \<and> responses c = [])"

lemma clients_inv_start:
  assumes "quiet_service svc0"
  shows "clients_inv p E seg set_seg svc0 (sy_service (clients_start svc0)) (sy_pc (clients_start svc0))
    (sy_trace (clients_start svc0))"
proof -
  have "own k [] = {}" for k by (simp add: own_def held_def under_way_def)
  then have "fds_ok (unat (next_fd svc0)) [] (next_fd svc0)" by (simp add: fds_ok_def)
  moreover have "client_ok At_Rest (call_state k []) (channels svc0 ! k)" if "k < length (channels svc0)" for k
    using assms that by (simp add: quiet_service_def client_ok_def)
  ultimately show ?thesis using assms by (simp add: clients_inv_def clients_start_def quiet_service_def)
qed

end
