(* ===== verification/Concurrent_Properties.thy ===== *)
theory Concurrent_Properties
  imports Concurrent_Invariant
begin

text \<open>
  Concurrent clients: every run is linearizable, and every call can return.
\<close>

section \<open>Every call returns\<close>

lemma clients_room:
  assumes inv: "clients_inv p E seg set_seg svc0 svc pc tr" and k: "k < length (channels svc)"
  shows "length (requests (channels svc ! k)) \<le> chan_credit (channels svc) k"
  using inv_channel(3) [OF inv k] k
  by (cases "pc k") (auto simp: client_ok_def chan_credit_def credit_def unat_RING_CAPACITY)

text \<open>Only answers and returns: calls come to their end, none begins.\<close>

definition winds_up :: "event list \<Rightarrow> bool" where
  "winds_up es \<longleftrightarrow> list_all (\<lambda>e. case e of Answers _ _ _ \<Rightarrow> True | Returns _ _ _ \<Rightarrow> True | _ \<Rightarrow> False) es"

lemma winds_up_simps [simp]:
  "winds_up []" "winds_up [Returns k r resp]" "winds_up (es @ es') \<longleftrightarrow> winds_up es \<and> winds_up es'"
  by (simp_all add: winds_up_def)

lemma answered_winds_up: "winds_up (answered p E svc)"
  by (auto simp: winds_up_def answered_def Let_def list_all_iff split: sum.splits)

lemma response_returns:
  assumes inv: "clients_inv p E seg set_seg svc0 (sy_service s) (sy_pc s) (sy_trace s)"
    and pc: "sy_pc s k = Awaiting r" and resp: "responses (channels (sy_service s) ! k) \<noteq> []"
  shows "\<exists>t resp. clients_step p E seg set_seg s t \<and>
    clients_inv p E seg set_seg svc0 (sy_service t) (sy_pc t) (sy_trace t) \<and>
    sy_pc t = (sy_pc s)(k := At_Rest) \<and> sy_trace t = sy_trace s @ [Returns k r resp]"
proof -
  have k: "k < length (channels (sy_service s))" using busy_client [OF inv, of k] pc by simp
  obtain out c where pop: "client_pop (channels (sy_service s) ! k) = (out, c)" by force
  from client_pop_spec [OF inv_channel(1) [OF inv k] pop] resp obtain x where
    x: "client_pop (channels (sy_service s) ! k) = (Some x, c)" using pop by (cases out) auto
  from inv_response [OF inv pc x] own_response [where p = p and E = E and seg = seg and set_seg = set_seg, OF pc x]
  show ?thesis by (intro exI [of _ x] exI conjI) (assumption | simp)+
qed

lemma call_returns:
  assumes inv: "clients_inv Release E seg set_seg svc0 (sy_service s) (sy_pc s) (sy_trace s)"
    and E: "sequential_executor (ex_batch E)" "open_reports E" "\<And>w b. \<exists>r. ex_batch E w b = Inr r"
    and few: "unat (next_fd svc0) + length (sy_trace s) + length (channels svc0) < 2 ^ 64"
  shows "\<exists>t es. clients_run Release E seg set_seg s t \<and>
    clients_inv Release E seg set_seg svc0 (sy_service t) (sy_pc t) (sy_trace t) \<and>
    sy_pc t = (sy_pc s)(k := At_Rest) \<and> sy_trace t = sy_trace s @ es \<and> winds_up es \<and>
    length es \<le> Suc (length (channels svc0))"
proof -
  let ?run = "clients_run Release E seg set_seg"
  have awaits: ?thesis
    if u: "?run s u" "clients_inv Release E seg set_seg svc0 (sy_service u) (sy_pc u) (sy_trace u)"
      "sy_pc u = (sy_pc s)(k := Awaiting r)" "sy_trace u = sy_trace s" for u r
  proof (cases "responses (channels (sy_service u) ! k) = []")
    case False
    have "sy_pc u k = Awaiting r" using u(3) by simp
    from response_returns [OF u(2) this False] obtain t resp where "clients_step Release E seg set_seg u t"
      "clients_inv Release E seg set_seg svc0 (sy_service t) (sy_pc t) (sy_trace t)"
      "sy_pc t = (sy_pc u)(k := At_Rest)" "sy_trace t = sy_trace u @ [Returns k r resp]" by blast
    with u show ?thesis
      by (intro exI [of _ t] exI [of _ "[Returns k r resp]"]) (auto intro: rtranclp.rtrancl_into_rtrancl)
  next
    case True
    have few': "unat (next_fd svc0) + length (sy_trace u) + length (channels svc0) < 2 ^ 64" using few u(4) by simp
    have bt: "between_rounds pass_through (\<lambda>_. True) (sy_service u)" using u(2) by (simp add: clients_inv_def)
    have b: "batch_executor (ex_batch E)" using E(1) by (simp add: sequential_executor_def)
    from serve_round_total [OF bt _ b E(3) pass_through_pipeline] clients_room [OF u(2)] obtain svc' w where
      r: "serve_round Release E pass_through (sy_service u) = Inr (svc', w)" by (metis surj_pair)
    note it = inv_iterate [OF u(2) E(1,2) r few_waiting [OF u(2) few']]
    let ?v = "u\<lparr>sy_service := svc', sy_trace := sy_trace u @ answered Release E (sy_service u)\<rparr>"
    have v: "?run s ?v"
      using u(1) iterate [where set_seg = set_seg and seg = seg, OF r] by (rule rtranclp.rtrancl_into_rtrancl)
    have k: "k < length (channels svc')" using busy_client [OF it(1), of k] u(3) by simp
    have pc: "sy_pc ?v k = Awaiting r" "responses (channels (sy_service ?v) ! k) \<noteq> []"
      using it(2) k u(3) by (auto dest: spec [of _ k])
    have inv': "clients_inv Release E seg set_seg svc0 (sy_service ?v) (sy_pc ?v) (sy_trace ?v)" using it(1) by simp
    from response_returns [OF inv' pc] obtain t resp where t: "clients_step Release E seg set_seg ?v t"
      "clients_inv Release E seg set_seg svc0 (sy_service t) (sy_pc t) (sy_trace t)"
      "sy_pc t = (sy_pc ?v)(k := At_Rest)" "sy_trace t = sy_trace ?v @ [Returns k r resp]" by blast
    have "length (answered Release E (sy_service u)) \<le> length (channels svc0)"
      by (rule answered_length [OF u(2)])
    with v t u(3,4) show ?thesis
      by (intro exI [of _ t] exI [of _ "answered Release E (sy_service u) @ [Returns k r resp]"])
        (auto intro: rtranclp.rtrancl_into_rtrancl simp: answered_winds_up)
  qed
  show ?thesis
  proof (cases "sy_pc s k")
    case At_Rest
    then have "sy_pc s = (sy_pc s)(k := At_Rest)" by auto
    with inv show ?thesis by (intro exI [of _ s] exI [of _ "[]"]) auto
  next
    case (Awaiting r)
    then have "sy_pc s = (sy_pc s)(k := Awaiting r)" by auto
    with inv show ?thesis by (intro awaits [of s r]) auto
  next
    case (Pushing r)
    obtain out c where p: "client_push r (channels (sy_service s) ! k) = (out, c)" by force
    note push = inv_try_push [OF inv Pushing p]
    let ?u = "s\<lparr>sy_service := with_channel k c (sy_service s), sy_pc := (sy_pc s)(k := Awaiting r)\<rparr>"
    have "clients_step Release E seg set_seg s ?u"
      using try_push [where p = Release and E = E and seg = seg and set_seg = set_seg, OF Pushing p] push(2) by simp
    with push show ?thesis by (intro awaits [of ?u r]) auto
  qed
qed

lemma all_calls_return:
  assumes inv: "clients_inv Release E seg set_seg svc0 (sy_service s) (sy_pc s) (sy_trace s)"
    and E: "sequential_executor (ex_batch E)" "open_reports E" "\<And>w b. \<exists>r. ex_batch E w b = Inr r"
    and few: "unat (next_fd svc0) + length (sy_trace s) + m * Suc (length (channels svc0)) + length (channels svc0) < 2 ^ 64"
  shows "\<exists>t es. clients_run Release E seg set_seg s t \<and>
    clients_inv Release E seg set_seg svc0 (sy_service t) (sy_pc t) (sy_trace t) \<and>
    (\<forall>k. sy_pc t k = (if k < m then At_Rest else sy_pc s k)) \<and>
    sy_trace t = sy_trace s @ es \<and> winds_up es \<and> length es \<le> m * Suc (length (channels svc0))"
  using few
proof (induction m)
  case 0
  show ?case by (intro exI [of _ s] exI [of _ "[]"]) (use inv in simp)
next
  case (Suc m)
  then obtain u es where u: "clients_run Release E seg set_seg s u"
    "clients_inv Release E seg set_seg svc0 (sy_service u) (sy_pc u) (sy_trace u)"
    "\<forall>k. sy_pc u k = (if k < m then At_Rest else sy_pc s k)"
    "sy_trace u = sy_trace s @ es" "winds_up es" "length es \<le> m * Suc (length (channels svc0))" by auto
  have "unat (next_fd svc0) + length (sy_trace u) + length (channels svc0) < 2 ^ 64"
    using u(4,6) Suc.prems by simp
  from call_returns [OF u(2) E this, of m] obtain t fs where t: "clients_run Release E seg set_seg u t"
    "clients_inv Release E seg set_seg svc0 (sy_service t) (sy_pc t) (sy_trace t)"
    "sy_pc t = (sy_pc u)(m := At_Rest)" "sy_trace t = sy_trace u @ fs" "winds_up fs"
    "length fs \<le> Suc (length (channels svc0))" by blast
  have "\<forall>k. sy_pc t k = (if k < Suc m then At_Rest else sy_pc s k)" using u(3) t(3) by (simp add: less_Suc_eq)
  moreover have "sy_trace t = sy_trace s @ (es @ fs)" "winds_up (es @ fs)"
    "length (es @ fs) \<le> Suc m * Suc (length (channels svc0))" using u(4-6) t(4-6) by simp_all
  ultimately show ?case by (intro exI [of _ t] exI [of _ "es @ fs"] conjI rtranclp_trans [OF u(1) t(1)] t(2))
qed

lemma posix_open_reports: "open_reports (PosixExecutor L)"
proof -
  have "i64_as_i32 (- i32_as_i64 e) \<noteq> 0" if "negative (- i32_as_i64 e)" for e
    using that narrow_errno [of e] by auto
  moreover have "sint (i32_as_i64 fd) = sint fd" for fd by (rule sint_i32_as_i64)
  ultimately show ?thesis
    by (auto simp: open_reports_def PosixExecutor_def posix_open_def split: prod.splits if_splits)
qed

section \<open>Properties\<close>

text \<open>C4. Concurrent clients are served as if one after the other (linearizability). Any number of clients
  make blocking calls at the same time, each naming only descriptors it got from its own opens and has not
  closed; pushes, polls, iterations of the service and pops interleave in any way. Then every client's part
  of the run consists of calls that are each answered once and return with exactly that answer, and the answers,
  each given at a moment between the beginning and the end of its call, are those that the specification
  \<open>answer\<close> gives when it serves the calls one after the other in the order of these moments; the
  descriptor table, the counter and the executor end up as the specification leaves them. No
  condition on what falls into the same iteration is needed. (Fewer than 2 to the 64 events, so that the
  descriptor counter does not wrap.)\<close>

theorem concurrent_clients_linearize:
  assumes "clients_run p E seg set_seg (clients_start svc0) s" "quiet_service svc0"
    and "sequential_executor (ex_batch E)" "open_reports E"
    and "unat (next_fd svc0) + length (sy_trace s) + length (channels svc0) < 2 ^ 64"
  shows "replay p E seg set_seg (sy_trace s) (core svc0) = Some (core (sy_service s)) \<and>
    (\<forall>k. call_state k (sy_trace s) \<noteq> None) \<and>
    (\<forall>k. sy_pc s k = At_Rest \<longleftrightarrow> call_state k (sy_trace s) = Some No_Call)"
proof -
  have inv: "clients_inv p E seg set_seg svc0 (sy_service s) (sy_pc s) (sy_trace s)"
    by (rule clients_run_inv [OF assms(1,3,4) clients_inv_start [OF assms(2)] assms(5)])
  from inv_parts(2) [OF inv] inv_call_state [OF inv] show ?thesis by blast
qed

text \<open>The example: client 0 opens a file; the run goes on until its call has returned.\<close>

lemma fresh_quiet: "quiet_service (fresh_service (AtlasService_new w) n)"
  by (auto simp: quiet_service_def fresh_service_def fresh_channel_def [of "word_of_nat _"]
      no_moves_def between_rounds_def chans_wf_def AtlasService_new_def with_pipeline_def pass_through_def
      pt_is_empty_def PassThrough_new_def chan_wf_def spsc_wf_open spsc_contents_def)

definition call_begun :: "('w, PassThrough) AtlasService \<Rightarrow> IoRequest \<Rightarrow> ('w \<Rightarrow> 'w) \<Rightarrow> 'w clients_system" where
  "call_begun svc r f = \<lparr>sy_service = svc\<lparr>executor := f (executor svc)\<rparr>, sy_pc = (\<lambda>_. At_Rest)(0 := Pushing r),
     sy_trace = [Stores 0 id, Calls 0 r]\<rparr>"

lemma call_begun_step:
  assumes "channels svc \<noteq> []" "\<not> uses_fd r"
  shows "clients_step p E seg set_seg (clients_start svc) (call_begun svc r (\<lambda>w. set_seg 0 (seg w 0) w))"
proof -
  have s: "sy_pc (clients_start svc) 0 = At_Rest" "0 < length (channels (sy_service (clients_start svc)))"
    "may_call 0 r (sy_trace (clients_start svc))"
    using assms by (simp_all add: clients_start_def may_call_def)
  from begin_call [OF s, of p E seg set_seg id] show ?thesis by (simp add: clients_start_def call_begun_def)
qed

lemma call_begun_returns:
  assumes "n \<noteq> 0" "n < 16" "\<not> uses_fd r"
  shows "\<exists>s es. clients_run Release (PosixExecutor L) seg set_seg
      (clients_start (fresh_service (AtlasService_new w) n)) s \<and> sy_pc s 0 = At_Rest \<and>
    sy_trace s = [Stores 0 id, Calls 0 r] @ es \<and> winds_up es \<and> length es < 300"
proof -
  let ?svc = "fresh_service (AtlasService_new w) n"
  have c: "channels ?svc \<noteq> []" "length (channels ?svc) = n" "unat (next_fd ?svc) = 1"
    using assms(1) by (simp_all add: fresh_service_def AtlasService_new_def with_pipeline_def)
  let ?s = "call_begun ?svc r (\<lambda>w. set_seg 0 (seg w 0) w)"
  note begun = r_into_rtranclp [of "clients_step Release (PosixExecutor L) seg set_seg", OF call_begun_step [OF c(1) assms(3)]]
  have bound: "n * Suc n < 16 * 17" using assms(2) by (intro mult_strict_mono) simp_all
  have few: "unat (next_fd ?svc) + length (sy_trace ?s) + length (channels ?svc) < 2 ^ 64"
    "unat (next_fd ?svc) + length (sy_trace ?s) + n * Suc (length (channels ?svc)) + length (channels ?svc) < 2 ^ 64"
    using bound assms(2) unfolding c by (simp_all add: call_begun_def)
  have inv: "clients_inv Release (PosixExecutor L) seg set_seg ?svc (sy_service ?s) (sy_pc ?s) (sy_trace ?s)"
    by (rule clients_run_inv [OF begun posix_sequential posix_open_reports clients_inv_start [OF fresh_quiet] few(1)])
  from all_calls_return [OF inv posix_sequential posix_open_reports posix_batch_total few(2)] obtain t es where
    t: "clients_run Release (PosixExecutor L) seg set_seg ?s t" "\<forall>k. sy_pc t k = (if k < n then At_Rest else sy_pc ?s k)"
      "sy_trace t = sy_trace ?s @ es" "winds_up es" "length es \<le> n * Suc (length (channels ?svc))" by blast
  have "length es < 300" using t(5) bound unfolding c(2) by simp
  moreover have "sy_pc t 0 = At_Rest" using t(2) assms(1) by simp
  moreover have "sy_trace t = [Stores 0 id, Calls 0 r] @ es" using t(3) by (simp add: call_begun_def)
  ultimately show ?thesis
    by (intro exI [of _ t] exI [of _ es] conjI rtranclp_trans [OF begun t(1)] t(4))
qed

abbreviation demo_step ::
  "call list clients_system \<Rightarrow> call list clients_system \<Rightarrow> bool" where
  "demo_step \<equiv> clients_step Release (PosixExecutor (demo_libc id)) (\<lambda>_ _. []) (\<lambda>_ _ w. w)"

definition two_clients :: "(call list, PassThrough) AtlasService" where
  "two_clients = fresh_service (AtlasService_new []) 2"

lemma two_clients_facts: "channels two_clients \<noteq> []" "length (channels two_clients) = 2" "unat (next_fd two_clients) = 1"
  "quiet_service two_clients"
  using fresh_quiet by (simp_all add: two_clients_def) (simp_all add: fresh_service_def AtlasService_new_def with_pipeline_def)

lemma open_req_free: "\<not> uses_fd open_req"
  by (simp add: uses_fd_def is_data_def open_req_def io_op_def op_from_u8_def)

theorem concurrent_clients_linearize_witness:
  "\<exists>s c. demo_step\<^sup>*\<^sup>* (clients_start two_clients) s \<and> sy_pc s 0 = At_Rest \<and>
    prefix [Stores 0 id, Calls 0 open_req] (sy_trace s) \<and>
    replay Release (PosixExecutor (demo_libc id)) (\<lambda>_ _. []) (\<lambda>_ _ w. w) (sy_trace s) (core two_clients) = Some c \<and>
    call_state 0 (sy_trace s) = Some No_Call"
proof -
  have "(2 :: nat) \<noteq> 0" "(2 :: nat) < 16" by simp_all
  from call_begun_returns [where L = "demo_libc id" and w = "[]" and seg = "\<lambda>_ _. []" and set_seg = "\<lambda>_ _ w. w",
      OF this open_req_free, folded two_clients_def] obtain s es where
    s: "demo_step\<^sup>*\<^sup>* (clients_start two_clients) s" "sy_pc s 0 = At_Rest"
      "sy_trace s = [Stores 0 id, Calls 0 open_req] @ es" "length es < 300" by (elim exE conjE) (rule that)
  have "unat (next_fd two_clients) + length (sy_trace s) + length (channels two_clients) < 2 ^ 64"
    using s(3,4) by (simp add: two_clients_facts)
  note all = concurrent_clients_linearize [OF s(1) two_clients_facts(4) posix_sequential posix_open_reports this]
  have "prefix [Stores 0 id, Calls 0 open_req] (sy_trace s)" unfolding s(3) by simp
  moreover have "call_state 0 (sy_trace s) = Some No_Call" using all s(2) by blast
  ultimately show ?thesis using s(1,2) all by blast
qed

text \<open>C5. Concurrent calls return: from every state that the clients and the service can reach, whatever
  the clients are in the middle of, they can go on until every call that has been begun has returned,
  with clients pushing, the service iterating and clients popping, and without a call that begins (release
  build, executors whose batches return). No combination of pending calls makes an iteration panic or leaves a client waiting.\<close>

theorem concurrent_calls_return:
  assumes "clients_run Release E seg set_seg (clients_start svc0) s" "quiet_service svc0"
    and "sequential_executor (ex_batch E)" "open_reports E" "\<And>w b. \<exists>r. ex_batch E w b = Inr r"
    and "unat (next_fd svc0) + length (sy_trace s) + length (channels svc0) * Suc (length (channels svc0)) +
      length (channels svc0) < 2 ^ 64"
  shows "\<exists>t. clients_run Release E seg set_seg s t \<and> (\<forall>k. sy_pc t k = At_Rest \<and>
    call_state k (sy_trace t) = Some No_Call) \<and> (\<exists>es. sy_trace t = sy_trace s @ es \<and> winds_up es)"
proof -
  have "unat (next_fd svc0) + length (sy_trace s) + length (channels svc0) < 2 ^ 64" using assms(6) by simp
  note inv = clients_run_inv [OF assms(1,3,4) clients_inv_start [OF assms(2)] this]
  from all_calls_return [OF inv assms(3-6)] obtain t es where t: "clients_run Release E seg set_seg s t"
    "clients_inv Release E seg set_seg svc0 (sy_service t) (sy_pc t) (sy_trace t)"
    "\<forall>k. sy_pc t k = (if k < length (channels svc0) then At_Rest else sy_pc s k)"
    "sy_trace t = sy_trace s @ es" "winds_up es" by blast
  have rest: "sy_pc t k = At_Rest" for k using inv t(3) by (cases "k < length (channels svc0)") (simp_all add: clients_inv_def)
  have "call_state k (sy_trace t) = Some No_Call" for k using inv_call_state [OF t(2)] rest by blast
  with rest t(1,4,5) show ?thesis by blast
qed

theorem concurrent_calls_return_witness:
  "\<exists>t. demo_step\<^sup>*\<^sup>* (call_begun two_clients open_req id) t \<and> sy_pc t 0 = At_Rest \<and>
    sy_pc (call_begun two_clients open_req id) 0 = Pushing open_req"
proof -
  let ?s = "call_begun two_clients open_req id"
  have begun: "demo_step\<^sup>*\<^sup>* (clients_start two_clients) ?s"
    using call_begun_step [OF two_clients_facts(1) open_req_free, where set_seg = "\<lambda>_ _ w. w"]
    by (intro r_into_rtranclp) (simp add: id_def)
  have few: "unat (next_fd two_clients) + length (sy_trace ?s) +
      length (channels two_clients) * Suc (length (channels two_clients)) + length (channels two_clients) < 2 ^ 64"
    by (simp add: two_clients_facts call_begun_def)
  have "sy_pc ?s 0 = Pushing open_req" by (simp add: call_begun_def)
  with concurrent_calls_return [OF begun two_clients_facts(4) posix_sequential posix_open_reports posix_batch_total few]
  show ?thesis by blast
qed

end
