(* ===== verification/Data_Region.thy ===== *)
theory Data_Region
  imports Protocol
begin

text \<open>
  The data region of \<open>atlas-client/src/channel.rs\<close> (the service's \<open>DataRegion\<close> has the same reads and
  writes): a bump allocator whose position is an atomic counter, and unchecked copies into and out
  of the mapped bytes. Creating and mapping the segment is left out.
\<close>

section \<open>Operations\<close>

text \<open>\<open>dr_mem\<close> are the mapped bytes, \<open>dr_len\<close> the field \<open>len\<close>, \<open>dr_offset\<close> the atomic counter.\<close>

record DataRegion =
  dr_mem :: "u8 list"
  dr_len :: usize
  dr_offset :: u32

text \<open>One pass of the allocation loop up to the exchange: the start and the counter's next value.\<close>

definition alloc_next :: "profile \<Rightarrow> usize \<Rightarrow> u32 \<Rightarrow> u32 \<Rightarrow> (u32 \<times> u32) exec" where
  "alloc_next p len n cur =
     and_then (uadd p cur n) (\<lambda>e.
       if e > as_u32 len then Inr (0, n)
       else and_then (uadd p cur n) (\<lambda>next. Inr (cur, next)))"

text \<open>The loop. \<open>others\<close> are the values that other threads store between this thread's loads and its
  exchanges (the same value stands for a spurious failure of the weak exchange); an exchange that
  nobody disturbs succeeds.\<close>

fun alloc_loop :: "profile \<Rightarrow> usize \<Rightarrow> u32 \<Rightarrow> u32 list \<Rightarrow> u32 \<Rightarrow> (u32 \<times> u32) exec" where
  "alloc_loop p len n [] cur = alloc_next p len n cur"
| "alloc_loop p len n (x # others) cur =
     and_then (alloc_next p len n cur) (\<lambda>_. alloc_loop p len n others x)"

definition alloc :: "profile \<Rightarrow> usize \<Rightarrow> u32 list \<Rightarrow> DataRegion \<Rightarrow> (u32 \<times> DataRegion) exec" where
  "alloc p n others r =
     and_then (alloc_loop p (dr_len r) (as_u32 n) others (dr_offset r))
       (\<lambda>res. case res of (start, next) \<Rightarrow> Inr (start, r\<lparr>dr_offset := next\<rparr>))"

text \<open>\<open>write\<close> and \<open>read\<close> do no check of their own; outside the mapping they are undefined behaviour.\<close>

definition dr_write :: "u32 \<Rightarrow> u8 list \<Rightarrow> DataRegion \<Rightarrow> DataRegion exec" where
  "dr_write off data r =
     (if unat off + length data \<le> length (dr_mem r)
      then Inr (r\<lparr>dr_mem := take (unat off) (dr_mem r) @ data @ drop (unat off + length data) (dr_mem r)\<rparr>)
      else Inl Bad_Memory)"

definition dr_read :: "u32 \<Rightarrow> nat \<Rightarrow> DataRegion \<Rightarrow> u8 list exec" where
  "dr_read off n r =
     (if unat off + n \<le> length (dr_mem r) then Inr (take n (drop (unat off) (dr_mem r)))
      else Inl Bad_Memory)"

definition region_wf :: "DataRegion \<Rightarrow> bool" where
  "region_wf r \<longleftrightarrow> length (dr_mem r) = unat (dr_len r) \<and> unat (dr_len r) < 2 ^ 31 \<and>
     unat (dr_offset r) \<le> unat (dr_len r)"

section \<open>Lemmas\<close>

lemma alloc_next_fits:
  assumes "unat len < 2 ^ 31" "unat n \<le> unat len" "unat cur \<le> unat len"
  shows "\<exists>start next. alloc_next p len n cur = Inr (start, next) \<and>
    unat start + unat n \<le> unat len \<and> unat next = unat start + unat n \<and>
    (unat cur + unat n \<le> unat len \<longrightarrow> start = cur) \<and> (start = cur \<or> start = 0)"
proof -
  have sum: "unat cur + unat n < 2 ^ 32" using assms by simp
  then have add: "uadd p cur n = Inr (cur + n)" and u: "unat (cur + n) = unat cur + unat n"
    using uadd_no_overflow [of cur n p] unat_add_no_overflow [of cur n] by simp_all
  have l: "unat (as_u32 len) = unat len" using assms(1) by (intro unat_as_u32_small) simp
  show ?thesis
    using assms add u l by (auto simp: alloc_next_def word_less_nat_alt)
qed

lemma alloc_loop_fits:
  assumes "unat len < 2 ^ 31" "unat n \<le> unat len" "unat cur \<le> unat len"
    and "\<forall>x \<in> set others. unat x \<le> unat len"
  shows "\<exists>start next. alloc_loop p len n others cur = Inr (start, next) \<and>
    unat start + unat n \<le> unat len \<and> unat next = unat start + unat n \<and>
    (start = last (cur # others) \<or> start = 0)"
  using assms(3,4)
proof (induction others arbitrary: cur)
  case Nil
  then show ?case using alloc_next_fits [OF assms(1,2), of cur p] by auto
next
  case (Cons x others)
  then obtain s nx where "alloc_next p len n cur = Inr (s, nx)"
    using alloc_next_fits [OF assms(1,2), of cur p] by auto
  with Cons show ?case by auto
qed

lemma alloc_fits:
  assumes "region_wf r" "unat n \<le> unat (dr_len r)" "\<forall>x \<in> set others. unat x \<le> unat (dr_len r)"
  shows "\<exists>start next. alloc p n others r = Inr (start, r\<lparr>dr_offset := next\<rparr>) \<and>
    unat start + unat n \<le> unat (dr_len r) \<and> unat next = unat start + unat n \<and>
    (start = last (dr_offset r # others) \<or> start = 0)"
proof -
  have n: "unat (as_u32 n) = unat n"
    using assms(1,2) by (intro unat_as_u32_small) (simp add: region_wf_def)
  then show ?thesis
    using alloc_loop_fits [of "dr_len r" "as_u32 n" "dr_offset r" others p] assms
    by (auto simp: alloc_def region_wf_def)
qed

lemma dr_write_spec:
  assumes "dr_write off data r = Inr r'"
  shows "dr_read off (length data) r' = Inr data" "length (dr_mem r') = length (dr_mem r)"
    "dr_len r' = dr_len r" "dr_offset r' = dr_offset r"
    "unat o2 + n \<le> unat off \<or> unat off + length data \<le> unat o2 \<Longrightarrow> dr_read o2 n r' = dr_read o2 n r"
proof -
  have in_range: "unat off + length data \<le> length (dr_mem r)"
    and mem: "dr_mem r' = take (unat off) (dr_mem r) @ data @ drop (unat off + length data) (dr_mem r)"
    using assms by (auto simp: dr_write_def split: if_splits)
  show len: "length (dr_mem r') = length (dr_mem r)" "dr_len r' = dr_len r" "dr_offset r' = dr_offset r"
    using assms in_range by (auto simp: dr_write_def split: if_splits)
  show "dr_read off (length data) r' = Inr data"
    using in_range by (simp add: dr_read_def mem)
  assume d: "unat o2 + n \<le> unat off \<or> unat off + length data \<le> unat o2"
  show "dr_read o2 n r' = dr_read o2 n r"
  proof (cases "unat o2 + n \<le> length (dr_mem r)")
    case True
    have "take n (drop (unat o2) (dr_mem r')) = take n (drop (unat o2) (dr_mem r))"
    proof (rule nth_equalityI)
      fix i assume "i < length (take n (drop (unat o2) (dr_mem r')))"
      then have "i < n \<and> i < length (dr_mem r) - unat o2" using len by simp
      then have i: "i < n" "unat o2 + i < length (dr_mem r)" by linarith+
      have "dr_mem r' ! (unat o2 + i) = dr_mem r ! (unat o2 + i)"
        using d i in_range by (auto simp: mem nth_append)
      then show "take n (drop (unat o2) (dr_mem r')) ! i = take n (drop (unat o2) (dr_mem r)) ! i"
        using i len by simp
    qed (simp add: len)
    then show ?thesis using len by (simp add: dr_read_def)
  qed (simp add: dr_read_def len)
qed

section \<open>Properties\<close>

text \<open>C36. An allocation of at most the region's size succeeds in both build profiles, however often other
  threads interfere with its exchange, and stays inside the region; it starts at the position it
  found or, when the rest is too short, at 0, and moves the position to its own end.\<close>

theorem alloc_in_region:
  assumes "region_wf r" "unat n \<le> unat (dr_len r)" "\<forall>x \<in> set others. unat x \<le> unat (dr_len r)"
  shows "\<exists>start r'. alloc p n others r = Inr (start, r') \<and> region_wf r' \<and> dr_mem r' = dr_mem r \<and>
    unat start + unat n \<le> unat (dr_len r) \<and> unat (dr_offset r') = unat start + unat n \<and>
    (start = last (dr_offset r # others) \<or> start = 0)"
  using alloc_fits [OF assms] assms(1) by (fastforce simp: region_wf_def)

definition small_region :: DataRegion where
  "small_region = \<lparr>dr_mem = replicate 16 0, dr_len = 16, dr_offset = 12\<rparr>"

theorem alloc_in_region_witness:
  "\<exists>start r'. alloc Debug 8 [4, 10] small_region = Inr (start, r') \<and> region_wf r' \<and>
    unat start + 8 \<le> 16 \<and> unat (dr_offset r') = unat start + 8"
  using alloc_in_region [of small_region 8 "[4, 10]" Debug]
  by (auto simp: small_region_def region_wf_def)

text \<open>Allocations one after the other, each undisturbed.\<close>

primrec alloc_all :: "profile \<Rightarrow> usize list \<Rightarrow> DataRegion \<Rightarrow> (u32 list \<times> DataRegion) exec" where
  "alloc_all p [] r = Inr ([], r)"
| "alloc_all p (n # ns) r =
     and_then (alloc p n [] r) (\<lambda>res. case res of (start, r1) \<Rightarrow>
       and_then (alloc_all p ns r1) (\<lambda>res2. case res2 of (starts, r2) \<Rightarrow> Inr (start # starts, r2)))"

text \<open>As long as they fit in what is left of the region, successive allocations are laid out one
  after the other without gaps: the ranges are disjoint.\<close>

theorem allocs_are_disjoint:
  assumes "region_wf r" "unat (dr_offset r) + sum_list (map unat ns) \<le> unat (dr_len r)"
  shows "\<exists>starts r'. alloc_all p ns r = Inr (starts, r') \<and> length starts = length ns \<and>
    (\<forall>i < length ns. unat (starts ! i) = unat (dr_offset r) + sum_list (map unat (take i ns)))"
  using assms
proof (induction ns arbitrary: r)
  case (Cons n ns)
  have n: "unat n \<le> unat (dr_len r)" using Cons.prems(2) by simp
  have n32: "unat (as_u32 n) = unat n"
    using Cons.prems(1) n by (intro unat_as_u32_small) (simp add: region_wf_def)
  from Cons.prems n n32 alloc_next_fits [of "dr_len r" "as_u32 n" "dr_offset r" p]
  obtain nx where nx: "alloc_next p (dr_len r) (as_u32 n) (dr_offset r) = Inr (dr_offset r, nx)"
    "unat nx = unat (dr_offset r) + unat n" by (auto simp: region_wf_def)
  let ?r = "r\<lparr>dr_offset := nx\<rparr>"
  have a: "alloc p n [] r = Inr (dr_offset r, ?r)" using nx(1) by (simp add: alloc_def)
  have "region_wf ?r" "unat (dr_offset ?r) + sum_list (map unat ns) \<le> unat (dr_len ?r)"
    using Cons.prems nx(2) by (simp_all add: region_wf_def)
  from Cons.IH [OF this] obtain starts r' where ih: "alloc_all p ns ?r = Inr (starts, r')"
    "length starts = length ns"
    "\<forall>i < length ns. unat (starts ! i) = unat nx + sum_list (map unat (take i ns))" by auto
  have "unat ((dr_offset r # starts) ! i) = unat (dr_offset r) + sum_list (map unat (take i (n # ns)))"
    if "i < length (n # ns)" for i
    using that ih(3) nx(2) by (cases i) simp_all
  with a ih(1,2) show ?case by auto
qed simp

theorem allocs_are_disjoint_witness:
  "\<exists>s1 s2 s3 r'. alloc_all Debug [3, 4, 9] (small_region\<lparr>dr_offset := 0\<rparr>) = Inr ([s1, s2, s3], r') \<and>
     unat s1 = 0 \<and> unat s2 = 3 \<and> unat s3 = 7"
proof -
  let ?r = "small_region\<lparr>dr_offset := 0\<rparr>" and ?ns = "[3, 4, 9 :: usize]"
  have "region_wf ?r" "unat (dr_offset ?r) + sum_list (map unat ?ns) \<le> unat (dr_len ?r)"
    by (simp_all add: small_region_def region_wf_def)
  from allocs_are_disjoint [OF this] obtain starts r' where s: "alloc_all Debug ?ns ?r = Inr (starts, r')"
    "length starts = length ?ns"
    "\<forall>i < length ?ns. unat (starts ! i) = unat (dr_offset ?r) + sum_list (map unat (take i ?ns))" by blast
  from s(2) obtain a b c where abc: "starts = [a, b, c]"
    by (auto simp: length_Suc_conv)
  have "unat (starts ! 0) = 0" "unat (starts ! 1) = 3" "unat (starts ! 2) = 7"
    using s(3) by simp_all
  with s(1) abc show ?thesis by auto
qed

text \<open>What is written to a range is read back from it, reads of other ranges do not change, and the
  allocator is not affected.\<close>

theorem region_write_read:
  assumes "dr_write off data r = Inr r'"
  shows "dr_read off (length data) r' = Inr data \<and> dr_offset r' = dr_offset r \<and>
    (unat o2 + n \<le> unat off \<or> unat off + length data \<le> unat o2 \<longrightarrow> dr_read o2 n r' = dr_read o2 n r)"
  using dr_write_spec [OF assms] by blast

theorem region_write_read_witness:
  "\<exists>r'. dr_write 2 [7, 8] small_region = Inr r' \<and> dr_read 2 2 r' = Inr [7, 8] \<and>
     dr_read 4 3 r' = dr_read 4 3 small_region"
proof -
  obtain r' where w: "dr_write 2 [7, 8] small_region = Inr r'"
    by (simp add: dr_write_def small_region_def)
  have two: "length [7, 8 :: u8] = 2" by simp
  from region_write_read [OF w, of 4 3, unfolded two] w show ?thesis by simp
qed

text \<open>C37. The allocator does not refuse a length beyond the size of the region: it hands out offset 0, and
  writing the data there runs past the end of the mapping.\<close>

theorem oversized_alloc_accepted:
  assumes "region_wf r" "length data < 2 ^ 31" "unat (dr_len r) < length data"
  shows "\<exists>r'. alloc p (of_nat (length data)) [] r = Inr (0, r') \<and> dr_write 0 data r' = Inl Bad_Memory"
proof -
  let ?n = "of_nat (length data) :: usize"
  have n: "unat ?n = length data" using assms(2) by (simp add: unat_of_nat)
  have n32: "unat (as_u32 ?n) = length data" using assms(2) n by (simp add: unat_as_u32_u64)
  have l: "unat (as_u32 (dr_len r)) = unat (dr_len r)"
    using assms(1) by (intro unat_as_u32_small) (simp add: region_wf_def)
  have sum: "unat (dr_offset r) + unat (as_u32 ?n) < 2 ^ 32"
    using assms(1,2) n32 by (simp add: region_wf_def)
  then have add: "uadd p (dr_offset r) (as_u32 ?n) = Inr (dr_offset r + as_u32 ?n)"
    and u: "unat (dr_offset r + as_u32 ?n) = unat (dr_offset r) + unat (as_u32 ?n)"
    using uadd_no_overflow [of "dr_offset r" "as_u32 ?n" p]
      unat_add_no_overflow [of "dr_offset r" "as_u32 ?n"] by simp_all
  have "as_u32 (dr_len r) < dr_offset r + as_u32 ?n"
    unfolding word_less_nat_alt u n32 l using assms(3) by simp
  with add have "alloc p ?n [] r = Inr (0, r\<lparr>dr_offset := as_u32 ?n\<rparr>)"
    by (simp add: alloc_def alloc_next_def)
  moreover have "dr_write 0 data (r\<lparr>dr_offset := as_u32 ?n\<rparr>) = Inl Bad_Memory"
    using assms(1,3) by (simp add: dr_write_def region_wf_def)
  ultimately show ?thesis by blast
qed

theorem oversized_alloc_accepted_witness:
  "\<exists>r'. alloc Debug 17 [] small_region = Inr (0, r') \<and> dr_write 0 (replicate 17 1) r' = Inl Bad_Memory"
  using oversized_alloc_accepted [of small_region "replicate 17 1" Debug]
  by (simp add: small_region_def region_wf_def)

end
