(* ===== verification/Client_Channel.thy ===== *)
theory Client_Channel
  imports Data_Region Channel_Rings
begin

text \<open>
  \<open>atlas-client/src/channel.rs\<close>: the client's channel and \<open>send_request\<close>, the blocking call that all
  operations of the client library go through. The service is the peer: it acts while the client
  yields, and what it does is an argument, a list of its moves, one per yield. Creating, mapping and joining
  the segments are in theories Shm_Setup and Shm_Handshake.
\<close>

section \<open>The channel\<close>

text \<open>\<open>cc_req\<close> is the request ring with both ends (\<open>req_tx\<close> is the producer), \<open>cc_resp\<close> the response ring
  (\<open>resp_rx\<close> is the consumer). \<open>cc_served\<close> records the requests the service has taken, \<open>cc_popped\<close> the
  responses the client has popped, and \<open>cc_peer\<close> is the state of the process at the other end of the
  rings; the code reads none of them.\<close>

record 'p ClientChannel =
  cc_req :: "IoRequest spsc"
  cc_resp :: "IoResponse spsc"
  cc_data :: DataRegion
  cc_instance :: u32
  cc_served :: "IoRequest list"
  cc_popped :: "IoResponse list"
  cc_peer :: 'p

type_synonym 'p peer_move = "'p ClientChannel \<Rightarrow> 'p ClientChannel"

text \<open>The first loop of \<open>send_request\<close>: push, and yield while the ring is full.\<close>

fun push_loop :: "'p peer_move list \<Rightarrow> IoRequest \<Rightarrow> 'p ClientChannel \<Rightarrow> ('p ClientChannel \<times> 'p peer_move list) exec" where
  "push_loop moves req c =
     (case spsc_enq RING_CAPACITY req (cc_req c) of
        (Inr _, q) \<Rightarrow> Inr (c\<lparr>cc_req := q\<rparr>, moves)
      | (Inl _, q) \<Rightarrow>
          (case moves of
             [] \<Rightarrow> Inl Spin
           | m # ms \<Rightarrow> push_loop ms req (m (c\<lparr>cc_req := q\<rparr>))))"

text \<open>The second loop: pop, return the response with the request's id, drop any other, and yield. After
  the peer's last move the loop goes on with what is in the ring.\<close>

definition cc_pop :: "'p ClientChannel \<Rightarrow> IoResponse option \<times> 'p ClientChannel" where
  "cc_pop c =
     (case spsc_deq RING_CAPACITY (cc_resp c) of
        (None, q) \<Rightarrow> (None, c\<lparr>cc_resp := q\<rparr>)
      | (Some r, q) \<Rightarrow> (Some r, c\<lparr>cc_resp := q, cc_popped := cc_popped c @ [r]\<rparr>))"

lemma cc_pop_decreases: "cc_pop c = (Some r, c') \<Longrightarrow> pops_left (cc_resp c') < pops_left (cc_resp c)"
  by (auto simp: cc_pop_def split: prod.splits option.splits dest: spsc_deq_decreases)

function wait_loop ::
  "'p peer_move list \<Rightarrow> u64 \<Rightarrow> 'p ClientChannel \<Rightarrow> (IoResponse \<times> 'p ClientChannel \<times> 'p peer_move list) exec" where
  "wait_loop moves i c =
     (case cc_pop c of
        (Some resp, c1) \<Rightarrow>
          if rs_id resp = i then Inr (resp, c1, moves)
          else (case moves of [] \<Rightarrow> wait_loop [] i c1 | m # ms \<Rightarrow> wait_loop ms i (m c1))
      | (None, c1) \<Rightarrow>
          (case moves of [] \<Rightarrow> Inl Spin | m # ms \<Rightarrow> wait_loop ms i (m c1)))"
  by pat_completeness auto
termination
  by (relation "measures [\<lambda>(ms, i, c). length ms, \<lambda>(ms, i, c). pops_left (cc_resp c)]")
    (auto dest!: cc_pop_decreases [OF sym])

declare push_loop.simps [simp del] wait_loop.simps [simp del]

definition send_request ::
  "'p peer_move list \<Rightarrow> IoRequest \<Rightarrow> 'p ClientChannel \<Rightarrow> (IoResponse \<times> 'p ClientChannel \<times> 'p peer_move list) exec" where
  "send_request moves req c =
     and_then (push_loop moves req c) (\<lambda>res. case res of (c1, ms) \<Rightarrow> wait_loop ms (rq_id req) c1)"

text \<open>The ways in which a wait that returns goes on: the response is found, the peer moves, or, after its
  last move, the loop drops what is in the ring.\<close>

lemma wait_loop_returns [consumes 1, case_names found moved drained]:
  assumes "wait_loop moves i c = Inr (resp, c', ms)"
    and found: "\<And>moves c. cc_pop c = (Some resp, c') \<Longrightarrow> rs_id resp = i \<Longrightarrow> ms = moves \<Longrightarrow> P moves c"
    and moved: "\<And>m moves c out c1. cc_pop c = (out, c1) \<Longrightarrow> \<forall>r. out = Some r \<longrightarrow> rs_id r \<noteq> i \<Longrightarrow>
      P moves (m c1) \<Longrightarrow> P (m # moves) c"
    and drained: "\<And>c r c1. cc_pop c = (Some r, c1) \<Longrightarrow> rs_id r \<noteq> i \<Longrightarrow> P [] c1 \<Longrightarrow> P [] c"
  shows "P moves c"
  using assms(1)
proof (induction moves i' \<equiv> i c rule: wait_loop.induct)
  case (1 moves c)
  obtain out c1 where p: "cc_pop c = (out, c1)" by force
  note run = 1(4) [unfolded wait_loop.simps [of moves i c] p prod.case]
  show ?case
  proof (cases out)
    case None
    with run obtain m ms2 where mv: "moves = m # ms2" and w: "wait_loop ms2 i (m c1) = Inr (resp, c', ms)"
      by (cases moves) simp_all
    have "P ms2 (m c1)" using 1(1) [OF p [symmetric] None mv w] by simp
    then show ?thesis unfolding mv by (rule moved [OF p, rotated]) (simp add: None)
  next
    case (Some r)
    show ?thesis
    proof (cases "rs_id r = i")
      case True
      then show ?thesis using run Some p found by simp
    next
      case False
      show ?thesis
      proof (cases moves)
        case Nil
        with run Some False have w: "wait_loop [] i c1 = Inr (resp, c', ms)" by simp
        have "P [] c1" using 1(2) [OF p [symmetric] Some False Nil w] by simp
        then show ?thesis unfolding Nil by (rule drained [OF p [unfolded Some] False])
      next
        case (Cons m ms2)
        with run Some False have w: "wait_loop ms2 i (m c1) = Inr (resp, c', ms)" by simp
        have "P ms2 (m c1)" using 1(3) [OF p [symmetric] Some False Cons w] by simp
        then show ?thesis unfolding Cons by (rule moved [OF p, rotated]) (simp add: Some False)
      qed
    qed
  qed
qed

section \<open>Invariant, histories, contract of the peer\<close>

definition cc_wf :: "'p ClientChannel \<Rightarrow> bool" where
  "cc_wf c \<longleftrightarrow> spsc_wf RING_CAPACITY (cc_req c) \<and> spsc_wf RING_CAPACITY (cc_resp c)"

text \<open>Every request ever pushed, in order.\<close>

definition req_log :: "'p ClientChannel \<Rightarrow> IoRequest list" where
  "req_log c = cc_served c @ spsc_contents RING_CAPACITY (cc_req c)"

text \<open>The peer keeps the rings well formed, takes requests only from the front, and touches neither the
  client's own records nor its allocator.\<close>

definition peer_ok :: "'p peer_move \<Rightarrow> bool" where
  "peer_ok m \<longleftrightarrow> (\<forall>c. cc_wf c \<longrightarrow> cc_wf (m c) \<and> req_log (m c) = req_log c \<and>
     cc_popped (m c) = cc_popped c \<and> cc_instance (m c) = cc_instance c \<and>
     dr_offset (cc_data (m c)) = dr_offset (cc_data c) \<and> dr_len (cc_data (m c)) = dr_len (cc_data c) \<and>
     length (dr_mem (cc_data (m c))) = length (dr_mem (cc_data c)))"

text \<open>What stays the same while the client waits.\<close>

definition client_frame :: "'p ClientChannel \<Rightarrow> 'p ClientChannel \<Rightarrow> bool" where
  "client_frame c c' \<longleftrightarrow> cc_wf c' \<and> cc_instance c' = cc_instance c \<and>
     dr_offset (cc_data c') = dr_offset (cc_data c) \<and> dr_len (cc_data c') = dr_len (cc_data c) \<and>
     length (dr_mem (cc_data c')) = length (dr_mem (cc_data c))"

lemma client_frame_trans: "client_frame a b \<Longrightarrow> client_frame b c \<Longrightarrow> client_frame a c"
  by (simp add: client_frame_def)

lemma peer_okD:
  "peer_ok m \<Longrightarrow> cc_wf c \<Longrightarrow> client_frame c (m c) \<and> req_log (m c) = req_log c \<and> cc_popped (m c) = cc_popped c"
  by (simp add: peer_ok_def client_frame_def)

lemma cc_pop_spec:
  assumes "cc_wf c" "cc_pop c = (out, c')"
  shows "client_frame c c' \<and> req_log c' = req_log c \<and> cc_data c' = cc_data c \<and>
    cc_popped c' = cc_popped c @ (case out of None \<Rightarrow> [] | Some r \<Rightarrow> [r])"
proof -
  obtain o1 q where d: "spsc_deq RING_CAPACITY (cc_resp c) = (o1, q)" by force
  have wf: "spsc_wf RING_CAPACITY (cc_resp c)" using assms(1) by (simp add: cc_wf_def)
  show ?thesis
    using assms d spscq.invar_step(2) [OF wf d]
    by (auto simp: cc_pop_def client_frame_def cc_wf_def req_log_def split: option.splits)
qed

lemma push_loop_spec:
  assumes "push_loop moves req c = Inr (c', ms)" "cc_wf c" "\<forall>m \<in> set moves. peer_ok m"
  shows "client_frame c c' \<and> req_log c' = req_log c @ [req] \<and> cc_popped c' = cc_popped c \<and>
    set ms \<subseteq> set moves"
  using assms
proof (induction moves arbitrary: c)
  case Nil
  obtain out q where e: "spsc_enq RING_CAPACITY req (cc_req c) = (out, q)" by force
  have wf: "spsc_wf RING_CAPACITY (cc_req c)" using Nil.prems(2) by (simp add: cc_wf_def)
  from Nil.prems(1) e obtain u where "out = Inr u" "c' = c\<lparr>cc_req := q\<rparr>" "ms = []"
    by (auto simp: push_loop.simps [of "[]"] split: sum.splits)
  then show ?case
    using Nil.prems(2) spscq.enq_cases [OF wf e] spscq.invar_step(1) [OF wf e]
    by (auto simp: client_frame_def cc_wf_def req_log_def)
next
  case (Cons m moves)
  obtain out q where e: "spsc_enq RING_CAPACITY req (cc_req c) = (out, q)" by force
  have wf: "spsc_wf RING_CAPACITY (cc_req c)" using Cons.prems(2) by (simp add: cc_wf_def)
  let ?c = "c\<lparr>cc_req := q\<rparr>"
  have wfq: "cc_wf ?c" using Cons.prems(2) spscq.invar_step(1) [OF wf e] by (simp add: cc_wf_def)
  show ?case
  proof (cases out)
    case (Inr u)
    then show ?thesis
      using Cons.prems(1) e wfq spscq.enq_cases [OF wf e]
      by (auto simp: push_loop.simps [of "m # moves"] client_frame_def req_log_def)
  next
    case (Inl f)
    then have step: "push_loop moves req (m ?c) = Inr (c', ms)"
      using Cons.prems(1) e by (simp add: push_loop.simps [of "m # moves"])
    have same: "req_log ?c = req_log c"
      using spscq.enq_cases [OF wf e] Inl by (auto simp: req_log_def)
    have m: "peer_ok m" using Cons.prems(3) by simp
    note p = peer_okD [OF m wfq]
    have "cc_wf (m ?c)" using p by (simp add: client_frame_def)
    from Cons.IH [OF step this] Cons.prems(3) p same show ?thesis
      by (auto simp: client_frame_def)
  qed
qed

lemma wait_loop_spec:
  assumes "wait_loop moves i c = Inr (resp, c', ms)" "cc_wf c" "\<forall>m \<in> set moves. peer_ok m"
  shows "client_frame c c' \<and> rs_id resp = i \<and> req_log c' = req_log c \<and> set ms \<subseteq> set moves \<and>
    (\<exists>dropped. cc_popped c' = cc_popped c @ dropped @ [resp] \<and> (\<forall>r \<in> set dropped. rs_id r \<noteq> i))"
  using assms
proof (induction rule: wait_loop_returns)
  case (found moves c)
  from cc_pop_spec [OF found(4,1)] found(2,3) show ?case by auto
next
  case (moved m moves c out c1)
  note pop = cc_pop_spec [OF moved(4,1)]
  have c1: "cc_wf c1" and m: "peer_ok m" using pop moved(5) by (simp_all add: client_frame_def)
  note peer = peer_okD [OF m c1]
  have "cc_wf (m c1)" using peer by (simp add: client_frame_def)
  from moved(3) [OF this] moved(5) obtain dropped where
    rest: "client_frame (m c1) c'" "rs_id resp = i" "req_log c' = req_log (m c1)" "set ms \<subseteq> set moves"
      "cc_popped c' = cc_popped (m c1) @ dropped @ [resp]" "\<forall>r \<in> set dropped. rs_id r \<noteq> i" by auto
  let ?d = "(case out of None \<Rightarrow> [] | Some r \<Rightarrow> [r]) @ dropped"
  have "\<forall>r \<in> set ?d. rs_id r \<noteq> i" using rest(6) moved(2) by (cases out) auto
  moreover have "cc_popped c' = cc_popped c @ ?d @ [resp]" using rest(5) pop peer by simp
  moreover have "client_frame c c'" using pop peer rest(1) client_frame_trans by blast
  ultimately show ?case using rest(2-4) pop peer by auto
next
  case (drained c r c1)
  note pop = cc_pop_spec [OF drained(4,1)]
  have "cc_wf c1" using pop by (simp add: client_frame_def)
  from drained(3) [OF this] obtain dropped where
    rest: "client_frame c1 c'" "rs_id resp = i" "req_log c' = req_log c1" "set ms \<subseteq> {}"
      "cc_popped c' = cc_popped c1 @ dropped @ [resp]" "\<forall>r \<in> set dropped. rs_id r \<noteq> i" by auto
  have "client_frame c c'" using pop rest(1) client_frame_trans by blast
  then show ?case using rest drained(2) pop by (intro conjI exI [of _ "r # dropped"]) auto
qed

lemma send_request_spec:
  assumes "send_request moves req c = Inr (resp, c', ms)" "cc_wf c" "\<forall>m \<in> set moves. peer_ok m"
  shows "client_frame c c' \<and> rs_id resp = rq_id req \<and> req_log c' = req_log c @ [req] \<and> set ms \<subseteq> set moves \<and>
    (\<exists>dropped. cc_popped c' = cc_popped c @ dropped @ [resp] \<and> (\<forall>r \<in> set dropped. rs_id r \<noteq> rq_id req))"
proof -
  from assms(1) obtain c1 ms1 where p: "push_loop moves req c = Inr (c1, ms1)"
    and w: "wait_loop ms1 (rq_id req) c1 = Inr (resp, c', ms)"
    by (auto simp: send_request_def elim!: and_then_InrE)
  note ps = push_loop_spec [OF p assms(2,3)]
  have "cc_wf c1" "\<forall>m \<in> set ms1. peer_ok m" using ps assms(3) by (auto simp: client_frame_def)
  from wait_loop_spec [OF w this] ps show ?thesis by (auto intro: client_frame_trans)
qed

text \<open>What depends only on the data region is kept by \<open>send_request\<close> when the peer's moves keep it.\<close>

lemma cc_pop_data: "cc_pop c = (out, c') \<Longrightarrow> cc_data c' = cc_data c"
  by (auto simp: cc_pop_def split: prod.splits option.splits)

lemma push_loop_data:
  assumes "push_loop moves req c = Inr (c', ms)" "\<forall>m \<in> set moves. \<forall>c. f (cc_data (m c)) = f (cc_data c)"
  shows "f (cc_data c') = f (cc_data c) \<and> set ms \<subseteq> set moves"
  using assms
proof (induction moves req c rule: push_loop.induct)
  case (1 moves req c)
  obtain out q where e: "spsc_enq RING_CAPACITY req (cc_req c) = (out, q)" by force
  show ?case
  proof (cases out)
    case (Inr u)
    with 1(2) e show ?thesis by (auto simp: push_loop.simps [of moves])
  next
    case (Inl fl)
    with 1(2) e obtain m ms2 where mv: "moves = m # ms2"
      and l: "push_loop ms2 req (m (c\<lparr>cc_req := q\<rparr>)) = Inr (c', ms)"
      by (cases moves) (simp_all add: push_loop.simps [of "[]"] push_loop.simps [of "_ # _"])
    from 1(1) [OF e [symmetric] Inl mv l] 1(3) mv show ?thesis by auto
  qed
qed

lemma wait_loop_data:
  assumes "wait_loop moves i c = Inr (resp, c', ms)" "\<forall>m \<in> set moves. \<forall>c. f (cc_data (m c)) = f (cc_data c)"
  shows "f (cc_data c') = f (cc_data c)"
  using assms by (induction rule: wait_loop_returns) (auto dest!: cc_pop_data)

lemma send_request_data:
  assumes "send_request moves req c = Inr (resp, c', ms)"
    and "\<forall>m \<in> set moves. \<forall>c. f (cc_data (m c)) = f (cc_data c)"
  shows "f (cc_data c') = f (cc_data c)"
proof -
  from assms(1) obtain c1 ms1 where p: "push_loop moves req c = Inr (c1, ms1)"
    and w: "wait_loop ms1 (rq_id req) c1 = Inr (resp, c', ms)"
    by (auto simp: send_request_def elim!: and_then_InrE)
  from push_loop_data [where f = f, OF p assms(2)] have c1: "f (cc_data c1) = f (cc_data c)"
    and ms: "\<forall>m \<in> set ms1. \<forall>c. f (cc_data (m c)) = f (cc_data c)" using assms(2) by auto
  from wait_loop_data [where f = f, OF w ms] c1 show ?thesis by simp
qed

section \<open>A peer that answers\<close>

text \<open>The simplest service: it takes one request, notes it in its own state and answers it.\<close>

definition answer_with :: "(IoRequest \<Rightarrow> 'p \<Rightarrow> 'p) \<Rightarrow> (IoRequest \<Rightarrow> IoResponse) \<Rightarrow> 'p peer_move" where
  "answer_with note_of reply c =
     (case spsc_deq RING_CAPACITY (cc_req c) of
        (None, q) \<Rightarrow> c\<lparr>cc_req := q\<rparr>
      | (Some r, q) \<Rightarrow>
          c\<lparr>cc_req := q, cc_served := cc_served c @ [r],
            cc_resp := snd (spsc_enq RING_CAPACITY (reply r) (cc_resp c)), cc_peer := note_of r (cc_peer c)\<rparr>)"

abbreviation answer_one :: "'p peer_move" where
  "answer_one \<equiv> answer_with (\<lambda>_ p. p) (\<lambda>r. IoResponse_ok (rq_id r))"

lemma peer_ok_answer_with:
  fixes note_of :: "IoRequest \<Rightarrow> 'p \<Rightarrow> 'p"
  shows "peer_ok (answer_with note_of reply)"
  unfolding peer_ok_def
proof (intro allI impI)
  fix c :: "'p ClientChannel"
  assume wf: "cc_wf c"
  let ?c = "answer_with note_of reply c"
  obtain out q where d: "spsc_deq RING_CAPACITY (cc_req c) = (out, q)" by force
  have w: "spsc_wf RING_CAPACITY (cc_req c)" "spsc_wf RING_CAPACITY (cc_resp c)" using wf by (simp_all add: cc_wf_def)
  have "spsc_wf RING_CAPACITY (snd (spsc_enq RING_CAPACITY r (cc_resp c)))" for r
    using w(2) by (rule spscq.invar_enq)
  then show "cc_wf ?c \<and> req_log ?c = req_log c \<and>
     cc_popped ?c = cc_popped c \<and> cc_instance ?c = cc_instance c \<and>
     dr_offset (cc_data ?c) = dr_offset (cc_data c) \<and> dr_len (cc_data ?c) = dr_len (cc_data c) \<and>
     length (dr_mem (cc_data ?c)) = length (dr_mem (cc_data c))"
    using d w spscq.deq_cases [OF w(1) d] spscq.invar_step(2) [OF w(1) d]
    by (auto simp: answer_with_def cc_wf_def req_log_def split: option.splits)
qed

lemma answer_with_data: "cc_data (answer_with note_of reply c) = cc_data c"
  by (auto simp: answer_with_def split: prod.splits option.splits)

text \<open>With such a peer a call on an idle channel returns after one yield.\<close>

lemma send_request_replied:
  assumes "cc_wf c" "spsc_contents RING_CAPACITY (cc_req c) = []" "spsc_contents RING_CAPACITY (cc_resp c) = []"
    and "rs_id (reply req) = rq_id req"
  shows "\<exists>c'. send_request [answer_with note_of reply] req c = Inr (reply req, c', []) \<and> cc_wf c' \<and>
    spsc_contents RING_CAPACITY (cc_req c') = [] \<and> spsc_contents RING_CAPACITY (cc_resp c') = [] \<and>
    cc_peer c' = note_of req (cc_peer c) \<and> cc_data c' = cc_data c"
proof -
  have w: "spsc_wf RING_CAPACITY (cc_req c)" "spsc_wf RING_CAPACITY (cc_resp c)"
    using assms(1) by (simp_all add: cc_wf_def)
  have cap: "0 < unat RING_CAPACITY" by (simp add: RING_CAPACITY_def)
  obtain q where e: "spsc_enq RING_CAPACITY req (cc_req c) = (Inr (), q)"
    and q: "spsc_contents RING_CAPACITY q = [req]"
    using spscq.enq_space [OF w(1), of req] assms(2) cap by (cases "spsc_enq RING_CAPACITY req (cc_req c)") auto
  have wq: "spsc_wf RING_CAPACITY q" using w(1) e by (rule spscq.invar_step(1))
  obtain q1 where d: "spsc_deq RING_CAPACITY (cc_resp c) = (None, q1)"
    and q1: "spsc_contents RING_CAPACITY q1 = []"
    using spscq.deq_Nil [OF w(2) assms(3)] by (cases "spsc_deq RING_CAPACITY (cc_resp c)") auto
  have wq1: "spsc_wf RING_CAPACITY q1" using w(2) d by (rule spscq.invar_step(2))
  obtain q2 where d2: "spsc_deq RING_CAPACITY q = (Some req, q2)" and q2: "spsc_contents RING_CAPACITY q2 = []"
    using spscq.deq_Cons [OF wq q] by (cases "spsc_deq RING_CAPACITY q") auto
  let ?r = "reply req"
  obtain q3 where e3: "spsc_enq RING_CAPACITY ?r q1 = (Inr (), q3)" and q3: "spsc_contents RING_CAPACITY q3 = [?r]"
    using spscq.enq_space [OF wq1, of ?r] q1 cap by (cases "spsc_enq RING_CAPACITY ?r q1") auto
  have wq3: "spsc_wf RING_CAPACITY q3" using wq1 e3 by (rule spscq.invar_step(1))
  obtain q4 where d4: "spsc_deq RING_CAPACITY q3 = (Some ?r, q4)" and q4: "spsc_contents RING_CAPACITY q4 = []"
    using spscq.deq_Cons [OF wq3 q3] by (cases "spsc_deq RING_CAPACITY q3") auto
  show ?thesis
    using spscq.invar_step(2) [OF wq d2] spscq.invar_step(2) [OF wq3 d4] q2 q4 assms(4)
    by (simp add: send_request_def push_loop.simps e wait_loop.simps [of "[_]"] cc_pop_def d
        answer_with_def d2 e3 wait_loop.simps [of "[]"] d4 cc_wf_def)
qed

lemmas peer_ok_answer_one = peer_ok_answer_with [of "\<lambda>_ p. p" "\<lambda>r. IoResponse_ok (rq_id r)"]
lemmas answer_one_data = answer_with_data [of "\<lambda>_ p. p" "\<lambda>r. IoResponse_ok (rq_id r)"]

lemma send_request_answered:
  assumes "cc_wf c" "spsc_contents RING_CAPACITY (cc_req c) = []" "spsc_contents RING_CAPACITY (cc_resp c) = []"
  shows "\<exists>c'. send_request [answer_one] req c = Inr (IoResponse_ok (rq_id req), c', []) \<and> cc_wf c' \<and>
    spsc_contents RING_CAPACITY (cc_req c') = [] \<and> spsc_contents RING_CAPACITY (cc_resp c') = []"
  using send_request_replied [where note_of = "\<lambda>_ p. p" and reply = "\<lambda>r. IoResponse_ok (rq_id r)", OF assms]
  by auto

section \<open>Properties\<close>

text \<open>C32. A call pushes its request exactly once and returns the answer to it: whatever a well-behaved peer
  does meanwhile, \<open>send_request\<close> comes back only with a response that carries the request's id, the
  first such response after the call began; the responses it dropped on the way belong to other
  requests.\<close>

theorem send_request_own_answer:
  assumes "send_request moves req c = Inr (resp, c', ms)" "cc_wf c" "\<forall>m \<in> set moves. peer_ok m"
  shows "cc_wf c' \<and> rs_id resp = rq_id req \<and> req_log c' = req_log c @ [req] \<and>
    (\<exists>dropped. cc_popped c' = cc_popped c @ dropped @ [resp] \<and> (\<forall>r \<in> set dropped. rs_id r \<noteq> rq_id req))"
  using send_request_spec [OF assms] by (simp add: client_frame_def)

definition idle_channel :: "DataRegion \<Rightarrow> unit ClientChannel" where
  "idle_channel d =
     \<lparr>cc_req = spsc_open (fresh_ring (IoRequest_new 0 Open Low)),
      cc_resp = spsc_open (fresh_ring (IoResponse_ok 0)), cc_data = d, cc_instance = 0,
      cc_served = [], cc_popped = [], cc_peer = ()\<rparr>"

lemma idle_channel_facts [simp]:
  "cc_wf (idle_channel d)" "spsc_contents RING_CAPACITY (cc_req (idle_channel d)) = []"
  "spsc_contents RING_CAPACITY (cc_resp (idle_channel d)) = []" "cc_data (idle_channel d) = d"
  "req_log (idle_channel d) = []" "cc_popped (idle_channel d) = []"
  by (simp_all add: cc_wf_def idle_channel_def req_log_def)

theorem send_request_own_answer_witness:
  "\<exists>c'. send_request [answer_one] (IoRequest_new 7 Sync Critical) (idle_channel small_region) =
      Inr (IoResponse_ok 7, c', []) \<and> req_log c' = [IoRequest_new 7 Sync Critical] \<and> cc_wf c'"
proof -
  let ?req = "IoRequest_new 7 Sync Critical" and ?c = "idle_channel small_region"
  obtain c' where s: "send_request [answer_one] ?req ?c = Inr (IoResponse_ok 7, c', [])"
    using send_request_answered [of ?c ?req] by auto
  have "\<forall>m \<in> set [answer_one]. peer_ok m" using peer_ok_answer_one by simp
  from send_request_own_answer [OF s _ this] s show ?thesis by simp
qed

end
