(* ===== verification/Client.thy ===== *)
theory Client
  imports Client_Channel
begin

text \<open>
  \<open>atlas-client/src/lib.rs\<close> and \<open>ffi.rs\<close>: the operations of the client library over \<open>send_request\<close>,
  and the integers that the C interface makes of their results. A result is \<open>i32 + 'a\<close>, the error
  status or the value, as in the source. \<open>others\<close> and \<open>moves\<close> are what other threads do to the
  allocator and what the service does while the client waits.
\<close>

section \<open>Operations\<close>

text \<open>\<open>ac_next_id\<close> is what the counter \<open>NEXT_REQ_ID\<close> holds when this client next draws from it. The counter is
  a static that all clients of a process share: \<open>Client_Session\<close> passes one counter through the calls of
  all of them, and where a single client is considered its calls draw one after another.\<close>

record 'p AtlasClient =
  ac_channel :: "'p ClientChannel"
  ac_next_id :: u64

definition next_id :: "'p AtlasClient \<Rightarrow> u64 \<times> 'p AtlasClient" where
  "next_id ac = (ac_next_id ac, ac\<lparr>ac_next_id := ac_next_id ac + 1\<rparr>)"

definition on_channel ::
  "'p peer_move list \<Rightarrow> IoRequest \<Rightarrow> 'p AtlasClient \<Rightarrow> (IoResponse \<times> 'p AtlasClient \<times> 'p peer_move list) exec" where
  "on_channel moves req ac =
     and_then (send_request moves req (ac_channel ac)) (\<lambda>res. case res of (resp, c, ms) \<Rightarrow>
       Inr (resp, ac\<lparr>ac_channel := c\<rparr>, ms))"

type_synonym ('p, 'a) called = "((i32 + 'a) \<times> 'p AtlasClient \<times> 'p peer_move list) exec"

definition client_open :: "'p peer_move list \<Rightarrow> u8 list \<Rightarrow> u32 \<Rightarrow> 'p AtlasClient \<Rightarrow> ('p, u64) called" where
  "client_open moves path flags ac =
     (case next_id ac of (i, ac1) \<Rightarrow>
        let req = (set_path (IoRequest_new i Open High) path)\<lparr>rq_len := flags\<rparr> in
        and_then (on_channel moves req ac1) (\<lambda>res. case res of (resp, ac2, ms) \<Rightarrow>
          Inr (if rs_status resp \<noteq> 0 then Inl (rs_status resp) else Inr (rs_fd resp), ac2, ms)))"

text \<open>\<open>write_with\<close>: the closure fills the slot in place; it may panic.\<close>

definition write_with ::
  "profile \<Rightarrow> u32 list \<Rightarrow> 'p peer_move list \<Rightarrow> u64 \<Rightarrow> usize \<Rightarrow> u64 \<Rightarrow> (u8 list \<Rightarrow> u8 list exec) \<Rightarrow>
   'p AtlasClient \<Rightarrow> ('p, usize) called" where
  "write_with p others moves fd n offset fill ac =
     (let c = ac_channel ac in
      and_then (alloc p n others (cc_data c)) (\<lambda>al. case al of (data_off, d1) \<Rightarrow>
      and_then (dr_read data_off (unat n) d1) (\<lambda>slot.
      and_then (fill slot) (\<lambda>filled.
      and_then (dr_write data_off filled d1) (\<lambda>d2.
        case next_id (ac\<lparr>ac_channel := c\<lparr>cc_data := d2\<rparr>\<rparr>) of (i, ac1) \<Rightarrow>
          let req = (IoRequest_new i Write High)\<lparr>rq_fd := fd, rq_offset := offset, rq_len := as_u32 n,
                       rq_data_offset := data_off\<rparr> in
          and_then (on_channel moves req ac1) (\<lambda>res. case res of (resp, ac2, ms) \<Rightarrow>
            Inr (if rs_status resp \<noteq> 0 then Inl (rs_status resp) else Inr (as_u64 (rs_data_len resp)),
                 ac2, ms)))))))"

text \<open>\<open>slot.copy_from_slice(buf)\<close> asserts that the lengths agree.\<close>

definition client_write ::
  "profile \<Rightarrow> u32 list \<Rightarrow> 'p peer_move list \<Rightarrow> u64 \<Rightarrow> u8 list \<Rightarrow> u64 \<Rightarrow> 'p AtlasClient \<Rightarrow> ('p, usize) called" where
  "client_write p others moves fd buf offset ac =
     write_with p others moves fd (of_nat (length buf)) offset
       (\<lambda>slot. if length slot = length buf then Inr buf else Inl Assertion) ac"

definition read_with ::
  "profile \<Rightarrow> u32 list \<Rightarrow> 'p peer_move list \<Rightarrow> u64 \<Rightarrow> usize \<Rightarrow> u64 \<Rightarrow> (u8 list \<Rightarrow> 'a exec) \<Rightarrow>
   'p AtlasClient \<Rightarrow> ('p, 'a) called" where
  "read_with p others moves fd n offset consume ac =
     (let c = ac_channel ac in
      and_then (alloc p n others (cc_data c)) (\<lambda>al. case al of (data_off, d1) \<Rightarrow>
        case next_id (ac\<lparr>ac_channel := c\<lparr>cc_data := d1\<rparr>\<rparr>) of (i, ac1) \<Rightarrow>
          let req = (IoRequest_new i Read High)\<lparr>rq_fd := fd, rq_offset := offset, rq_len := as_u32 n,
                       rq_data_offset := data_off\<rparr> in
          and_then (on_channel moves req ac1) (\<lambda>res. case res of (resp, ac2, ms) \<Rightarrow>
            if rs_status resp \<noteq> 0 then Inr (Inl (rs_status resp), ac2, ms)
            else
              and_then (dr_read (rs_data_offset resp) (unat (rs_data_len resp)) (cc_data (ac_channel ac2)))
                (\<lambda>data. and_then (consume data) (\<lambda>x. Inr (Inr x, ac2, ms))))))"

text \<open>\<open>read\<close> copies into the front of the caller's buffer and returns the count; a slice longer than the
  buffer panics.\<close>

definition client_read ::
  "profile \<Rightarrow> u32 list \<Rightarrow> 'p peer_move list \<Rightarrow> u64 \<Rightarrow> u8 list \<Rightarrow> u64 \<Rightarrow> 'p AtlasClient \<Rightarrow> ('p, (nat \<times> u8 list)) called" where
  "client_read p others moves fd buf offset ac =
     read_with p others moves fd (of_nat (length buf)) offset
       (\<lambda>data. if length data \<le> length buf then Inr (length data, data @ drop (length data) buf)
               else Inl Index_Range) ac"

definition client_sync :: "'p peer_move list \<Rightarrow> u64 \<Rightarrow> 'p AtlasClient \<Rightarrow> ('p, unit) called" where
  "client_sync moves fd ac =
     (case next_id ac of (i, ac1) \<Rightarrow>
        let req = (IoRequest_new i Sync Critical)\<lparr>rq_fd := fd\<rparr> in
        and_then (on_channel moves req ac1) (\<lambda>res. case res of (resp, ac2, ms) \<Rightarrow>
          Inr (if rs_status resp \<noteq> 0 then Inl (rs_status resp) else Inr (), ac2, ms)))"

definition client_close :: "'p peer_move list \<Rightarrow> u64 \<Rightarrow> 'p AtlasClient \<Rightarrow> ('p, unit) called" where
  "client_close moves fd ac =
     (case next_id ac of (i, ac1) \<Rightarrow>
        let req = (IoRequest_new i Close Low)\<lparr>rq_fd := fd\<rparr> in
        and_then (on_channel moves req ac1) (\<lambda>res. case res of (resp, ac2, ms) \<Rightarrow>
          Inr (if rs_status resp \<noteq> 0 then Inl (rs_status resp) else Inr (), ac2, ms)))"

section \<open>The C interface\<close>

text \<open>A C path: \<open>to_str().unwrap_or("")\<close> of the bytes before the terminator.\<close>

definition ffi_path :: "u8 list \<Rightarrow> u8 list" where
  "ffi_path cpath = (if utf8_valid cpath then cpath else [])"

definition ffi_open ::
  "'p peer_move list \<Rightarrow> u8 list \<Rightarrow> u32 \<Rightarrow> 'p AtlasClient \<Rightarrow> (i64 \<times> 'p AtlasClient \<times> 'p peer_move list) exec" where
  "ffi_open moves cpath flags ac =
     and_then (client_open moves (ffi_path cpath) flags ac) (\<lambda>res. case res of (r, ac1, ms) \<Rightarrow>
       Inr (case r of Inr fd \<Rightarrow> fd | Inl e \<Rightarrow> i32_as_i64 e, ac1, ms))"

definition ffi_read ::
  "profile \<Rightarrow> u32 list \<Rightarrow> 'p peer_move list \<Rightarrow> u64 \<Rightarrow> u8 list \<Rightarrow> u64 \<Rightarrow> 'p AtlasClient \<Rightarrow>
   (i32 \<times> u8 list \<times> 'p AtlasClient \<times> 'p peer_move list) exec" where
  "ffi_read p others moves fd buf offset ac =
     and_then (client_read p others moves fd buf offset ac) (\<lambda>res. case res of (r, ac1, ms) \<Rightarrow>
       Inr (case r of Inr (n, buf') \<Rightarrow> (of_nat n, buf', ac1, ms) | Inl e \<Rightarrow> (e, buf, ac1, ms)))"

definition ffi_write ::
  "profile \<Rightarrow> u32 list \<Rightarrow> 'p peer_move list \<Rightarrow> u64 \<Rightarrow> u8 list \<Rightarrow> u64 \<Rightarrow> 'p AtlasClient \<Rightarrow>
   (i32 \<times> 'p AtlasClient \<times> 'p peer_move list) exec" where
  "ffi_write p others moves fd buf offset ac =
     and_then (client_write p others moves fd buf offset ac) (\<lambda>res. case res of (r, ac1, ms) \<Rightarrow>
       Inr (case r of Inr n \<Rightarrow> as_u32 n | Inl e \<Rightarrow> e, ac1, ms))"

definition ffi_sync :: "'p peer_move list \<Rightarrow> u64 \<Rightarrow> 'p AtlasClient \<Rightarrow> (i32 \<times> 'p AtlasClient \<times> 'p peer_move list) exec" where
  "ffi_sync moves fd ac =
     and_then (client_sync moves fd ac) (\<lambda>res. case res of (r, ac1, ms) \<Rightarrow>
       Inr (case r of Inr _ \<Rightarrow> 0 | Inl e \<Rightarrow> e, ac1, ms))"

definition ffi_close :: "'p peer_move list \<Rightarrow> u64 \<Rightarrow> 'p AtlasClient \<Rightarrow> (i32 \<times> 'p AtlasClient \<times> 'p peer_move list) exec" where
  "ffi_close moves fd ac =
     and_then (client_close moves fd ac) (\<lambda>res. case res of (r, ac1, ms) \<Rightarrow>
       Inr (case r of Inr _ \<Rightarrow> 0 | Inl e \<Rightarrow> e, ac1, ms))"

section \<open>What the operations do\<close>

lemma on_channel_spec:
  assumes "on_channel moves req ac = Inr (resp, ac', ms)" "cc_wf (ac_channel ac)"
    and "\<forall>m \<in> set moves. peer_ok m"
  shows "client_frame (ac_channel ac) (ac_channel ac') \<and> rs_id resp = rq_id req \<and>
    req_log (ac_channel ac') = req_log (ac_channel ac) @ [req] \<and> ac_next_id ac' = ac_next_id ac \<and>
    (\<exists>dropped. cc_popped (ac_channel ac') = cc_popped (ac_channel ac) @ dropped @ [resp])"
proof -
  from assms(1) obtain c where s: "send_request moves req (ac_channel ac) = Inr (resp, c, ms)"
    and ac': "ac' = ac\<lparr>ac_channel := c\<rparr>"
    by (auto simp: on_channel_def elim!: and_then_InrE)
  from send_request_spec [OF s assms(2,3)] show ?thesis by (auto simp: ac')
qed

lemma on_channel_mem:
  assumes "on_channel moves req ac = Inr (resp, ac', ms)"
    and "\<forall>m \<in> set moves. \<forall>c. dr_mem (cc_data (m c)) = dr_mem (cc_data c)"
  shows "dr_mem (cc_data (ac_channel ac')) = dr_mem (cc_data (ac_channel ac))"
  using assms send_request_data [where f = dr_mem]
  by (auto simp: on_channel_def elim!: and_then_InrE)

lemma cc_wf_data: "cc_wf (c\<lparr>cc_data := d\<rparr>) = cc_wf c" "req_log (c\<lparr>cc_data := d\<rparr>) = req_log c"
  by (simp_all add: cc_wf_def req_log_def)

text \<open>What a data operation does before it talks to the service: the allocation, the bytes it leaves in the
  region and the request it is about to send.\<close>

abbreviation data_request :: "IoOp \<Rightarrow> u64 \<Rightarrow> u64 \<Rightarrow> u64 \<Rightarrow> nat \<Rightarrow> u32 \<Rightarrow> IoRequest" where
  "data_request op i fd off n start \<equiv>
     (IoRequest_new i op High)\<lparr>rq_fd := fd, rq_offset := off, rq_len := as_u32 (of_nat n :: usize),
        rq_data_offset := start\<rparr>"

abbreviation with_data :: "DataRegion \<Rightarrow> 'p AtlasClient \<Rightarrow> 'p AtlasClient" where
  "with_data d ac \<equiv> ac\<lparr>ac_channel := (ac_channel ac)\<lparr>cc_data := d\<rparr>, ac_next_id := ac_next_id ac + 1\<rparr>"

lemma data_request_op: "io_op (data_request op i fd off n start) = Some op"
  by (simp add: io_op_def)

lemma small_len:
  assumes "region_wf r" "n \<le> unat (dr_len r)"
  shows "unat (of_nat n :: usize) = n" "unat (as_u32 (of_nat n :: usize)) = n" "n < 2 ^ 31"
proof -
  show "n < 2 ^ 31" using assms by (simp add: region_wf_def)
  then show "unat (of_nat n :: usize) = n" "unat (as_u32 (of_nat n :: usize)) = n"
    by (simp_all add: unat_of_nat unat_as_u32_u64)
qed

lemma data_alloc:
  assumes "region_wf r" "n \<le> unat (dr_len r)" "\<forall>x \<in> set others. unat x \<le> unat (dr_len r)"
  obtains start nx where "alloc p (of_nat n) others r = Inr (start, r\<lparr>dr_offset := nx\<rparr>)"
    "unat start + n \<le> unat (dr_len r)" "region_wf (r\<lparr>dr_offset := nx\<rparr>)"
proof -
  note n = small_len [OF assms(1,2)]
  from alloc_fits [OF assms(1), of "of_nat n" others p] assms(2,3) n(1) obtain start nx where
    a: "alloc p (of_nat n) others r = Inr (start, r\<lparr>dr_offset := nx\<rparr>)"
    and st: "unat start + n \<le> unat (dr_len r)" "unat nx = unat start + n" by auto
  from that [OF a st(1)] st assms(1) show thesis by (simp add: region_wf_def)
qed

lemma client_write_sends:
  assumes "region_wf (cc_data (ac_channel ac))" "length buf \<le> unat (dr_len (cc_data (ac_channel ac)))"
    and "\<forall>x \<in> set others. unat x \<le> unat (dr_len (cc_data (ac_channel ac)))"
  obtains start d where
    "client_write p others moves fd buf off ac =
       and_then (on_channel moves (data_request Write (ac_next_id ac) fd off (length buf) start) (with_data d ac))
         (\<lambda>res. case res of (resp, ac2, ms) \<Rightarrow>
           Inr (if rs_status resp \<noteq> 0 then Inl (rs_status resp) else Inr (as_u64 (rs_data_len resp)), ac2, ms))"
    "dr_read start (length buf) d = Inr buf" "region_wf d" "dr_len d = dr_len (cc_data (ac_channel ac))"
    "unat start + length buf \<le> unat (dr_len d)"
proof -
  let ?r = "cc_data (ac_channel ac)"
  obtain start nx where al: "alloc p (of_nat (length buf)) others ?r = Inr (start, ?r\<lparr>dr_offset := nx\<rparr>)"
    and st: "unat start + length buf \<le> unat (dr_len ?r)" and wf: "region_wf (?r\<lparr>dr_offset := nx\<rparr>)"
    using data_alloc [OF assms] .
  let ?d = "?r\<lparr>dr_offset := nx\<rparr>"
  have len: "length (dr_mem ?d) = unat (dr_len ?r)" using wf by (simp add: region_wf_def)
  obtain slot where slot: "dr_read start (length buf) ?d = Inr slot" "length slot = length buf"
    using st len by (simp add: dr_read_def)
  obtain d where d: "dr_write start buf ?d = Inr d" using st len by (simp add: dr_write_def)
  note sp = dr_write_spec [OF d]
  have n: "unat (of_nat (length buf) :: usize) = length buf" by (rule small_len [OF assms(1,2)])
  have "client_write p others moves fd buf off ac =
       and_then (on_channel moves (data_request Write (ac_next_id ac) fd off (length buf) start) (with_data d ac))
         (\<lambda>res. case res of (resp, ac2, ms) \<Rightarrow>
           Inr (if rs_status resp \<noteq> 0 then Inl (rs_status resp) else Inr (as_u64 (rs_data_len resp)), ac2, ms))"
    using al slot d n by (simp add: client_write_def write_with_def Let_def next_id_def)
  from that [OF this sp(1)] sp wf st show thesis by (simp add: region_wf_def)
qed

text \<open>A write stores the caller's bytes in the region and asks for exactly them: the one request it
  pushes is a write of the given descriptor and offset whose length is that of the buffer, and the
  region bytes it names are the buffer's contents, while the service only reads them.\<close>

theorem write_request_names_data:
  assumes "client_write p others moves fd buf offset ac = Inr (res, ac', ms)"
    and "cc_wf (ac_channel ac)" "region_wf (cc_data (ac_channel ac))"
    and "length buf \<le> unat (dr_len (cc_data (ac_channel ac)))"
    and "\<forall>x \<in> set others. unat x \<le> unat (dr_len (cc_data (ac_channel ac)))"
    and "\<forall>m \<in> set moves. peer_ok m \<and> (\<forall>c. dr_mem (cc_data (m c)) = dr_mem (cc_data c))"
  shows "\<exists>r. req_log (ac_channel ac') = req_log (ac_channel ac) @ [r] \<and>
    io_op r = Some Write \<and> rq_id r = ac_next_id ac \<and> rq_fd r = fd \<and> rq_offset r = offset \<and>
    unat (rq_len r) = length buf \<and>
    dr_read (rq_data_offset r) (length buf) (cc_data (ac_channel ac')) = Inr buf"
proof -
  let ?c = "ac_channel ac"
  obtain start d where w: "client_write p others moves fd buf offset ac =
       and_then (on_channel moves (data_request Write (ac_next_id ac) fd offset (length buf) start) (with_data d ac))
         (\<lambda>res. case res of (resp, ac2, ms) \<Rightarrow>
           Inr (if rs_status resp \<noteq> 0 then Inl (rs_status resp) else Inr (as_u64 (rs_data_len resp)), ac2, ms))"
    and d: "dr_read start (length buf) d = Inr buf"
    by (rule client_write_sends [OF assms(3-5)])
  let ?req = "data_request Write (ac_next_id ac) fd offset (length buf) start"
  from assms(1) w obtain resp where call: "on_channel moves ?req (with_data d ac) = Inr (resp, ac', ms)"
    by (auto elim!: and_then_InrE)
  from on_channel_spec [OF call] assms(2,6) have log: "req_log (ac_channel ac') = req_log ?c @ [?req]"
    by (auto simp: cc_wf_data)
  have "dr_mem (cc_data (ac_channel ac')) = dr_mem d"
    using on_channel_mem [OF call] assms(6) by simp
  then have "dr_read start (length buf) (cc_data (ac_channel ac')) = dr_read start (length buf) d"
    by (simp add: dr_read_def)
  with log d small_len(2) [OF assms(3,4)] data_request_op show ?thesis
    by (intro exI [of _ ?req]) simp
qed

lemma client_read_sends:
  assumes "region_wf (cc_data (ac_channel ac))" "length buf \<le> unat (dr_len (cc_data (ac_channel ac)))"
    and "\<forall>x \<in> set others. unat x \<le> unat (dr_len (cc_data (ac_channel ac)))"
  obtains start d where
    "client_read p others moves fd buf off ac =
       and_then (on_channel moves (data_request Read (ac_next_id ac) fd off (length buf) start) (with_data d ac))
         (\<lambda>res. case res of (resp, ac2, ms) \<Rightarrow>
           if rs_status resp \<noteq> 0 then Inr (Inl (rs_status resp), ac2, ms)
           else and_then (dr_read (rs_data_offset resp) (unat (rs_data_len resp)) (cc_data (ac_channel ac2)))
             (\<lambda>data. and_then
               (if length data \<le> length buf then Inr (length data, data @ drop (length data) buf)
                else Inl Index_Range)
               (\<lambda>x. Inr (Inr x, ac2, ms))))"
    "dr_mem d = dr_mem (cc_data (ac_channel ac))" "region_wf d" "dr_len d = dr_len (cc_data (ac_channel ac))"
    "unat start + length buf \<le> unat (dr_len d)"
proof -
  let ?r = "cc_data (ac_channel ac)"
  obtain start nx where al: "alloc p (of_nat (length buf)) others ?r = Inr (start, ?r\<lparr>dr_offset := nx\<rparr>)"
    and st: "unat start + length buf \<le> unat (dr_len ?r)" and wf: "region_wf (?r\<lparr>dr_offset := nx\<rparr>)"
    using data_alloc [OF assms] .
  show thesis
    by (rule that [of start "?r\<lparr>dr_offset := nx\<rparr>"])
      (use al st wf in \<open>simp_all add: client_read_def read_with_def Let_def next_id_def\<close>)
qed

definition idle_client :: "unit AtlasClient" where
  "idle_client = \<lparr>ac_channel = idle_channel small_region, ac_next_id = 1\<rparr>"

lemma idle_client_facts:
  "cc_wf (ac_channel idle_client)" "region_wf (cc_data (ac_channel idle_client))"
  "cc_data (ac_channel idle_client) = small_region" "ac_next_id idle_client = 1"
  by (simp_all add: idle_client_def small_region_def region_wf_def)

lemma on_channel_answered:
  assumes "cc_wf (ac_channel ac)" "spsc_contents RING_CAPACITY (cc_req (ac_channel ac)) = []"
    and "spsc_contents RING_CAPACITY (cc_resp (ac_channel ac)) = []"
  shows "\<exists>ac'. on_channel [answer_one] req ac = Inr (IoResponse_ok (rq_id req), ac', [])"
  using send_request_answered [OF assms, of req] by (auto simp: on_channel_def)

theorem write_request_names_data_witness:
  "\<exists>res ac' r. client_write Debug [] [answer_one] 5 [7, 8, 9] 100 idle_client = Inr (res, ac', []) \<and>
     req_log (ac_channel ac') = [r] \<and> unat (rq_len r) = 3 \<and>
     dr_read (rq_data_offset r) 3 (cc_data (ac_channel ac')) = Inr [7, 8, 9]"
proof -
  obtain d2 where w: "dr_write 12 [7, 8, 9] (small_region\<lparr>dr_offset := 15\<rparr>) = Inr d2"
    by (simp add: dr_write_def small_region_def)
  let ?ac = "\<lparr>ac_channel = idle_channel d2, ac_next_id = 2\<rparr>"
    and ?req = "(IoRequest_new 1 Write High)\<lparr>rq_fd := 5, rq_offset := 100, rq_len := 3, rq_data_offset := 12\<rparr>"
  obtain ac' where call: "on_channel [answer_one] ?req ?ac = Inr (IoResponse_ok 1, ac', [])"
    using on_channel_answered [of ?ac ?req] by auto
  have al: "alloc Debug 3 [] small_region = Inr (12, small_region\<lparr>dr_offset := 15\<rparr>)"
    by (simp add: alloc_def alloc_next_def uadd_def small_region_def)
  have rd: "dr_read 12 3 (small_region\<lparr>dr_offset := 15\<rparr>) = Inr (replicate 3 0)"
    by (simp add: dr_read_def small_region_def)
  have upd: "(idle_channel small_region)\<lparr>cc_data := d2\<rparr> = idle_channel d2" by (simp add: idle_channel_def)
  have s: "client_write Debug [] [answer_one] 5 [7, 8, 9] 100 idle_client = Inr (Inr 0, ac', [])"
    using call w
    by (simp add: client_write_def write_with_def Let_def next_id_def idle_client_def al upd rd)
  have "\<forall>m \<in> set [answer_one]. peer_ok m \<and> (\<forall>c. dr_mem (cc_data (m c)) = dr_mem (cc_data c))"
    using peer_ok_answer_one by (simp add: answer_one_data)
  from write_request_names_data [OF s idle_client_facts(1,2) _ _ this]
  obtain r where "req_log (ac_channel ac') = req_log (ac_channel idle_client) @ [r]"
    "unat (rq_len r) = length [7, 8, 9 :: u8]"
    "dr_read (rq_data_offset r) (length [7, 8, 9 :: u8]) (cc_data (ac_channel ac')) = Inr [7, 8, 9]"
    by (auto simp: idle_client_facts small_region_def)
  with s show ?thesis by (auto simp: idle_client_def numeral_3_eq_3)
qed

text \<open>A read returns what the service answered: an error is the answer's status; otherwise the count is
  the answer's \<open>data_len\<close>, which is never more than the buffer holds, that many bytes at the front of
  the buffer are the region's bytes at the place the answer names, and the rest of the buffer is
  untouched.\<close>

theorem read_returns_answered_bytes:
  assumes "client_read p others moves fd buf offset ac = Inr (res, ac', ms)"
    and "cc_wf (ac_channel ac)" "\<forall>m \<in> set moves. peer_ok m"
  shows "\<exists>r resp dropped. req_log (ac_channel ac') = req_log (ac_channel ac) @ [r] \<and>
    io_op r = Some Read \<and> rq_fd r = fd \<and> rq_offset r = offset \<and>
    cc_popped (ac_channel ac') = cc_popped (ac_channel ac) @ dropped @ [resp] \<and> rs_id resp = rq_id r \<and>
    (case res of
       Inl e \<Rightarrow> rs_status resp = e \<and> e \<noteq> 0
     | Inr (k, buf') \<Rightarrow> rs_status resp = 0 \<and> k = unat (rs_data_len resp) \<and> k \<le> length buf \<and>
         length buf' = length buf \<and> drop k buf' = drop k buf \<and>
         dr_read (rs_data_offset resp) k (cc_data (ac_channel ac')) = Inr (take k buf'))"
proof -
  let ?c = "ac_channel ac" and ?n = "of_nat (length buf) :: usize"
  from assms(1) obtain start d1 where "alloc p ?n others (cc_data ?c) = Inr (start, d1)"
    by (auto simp: client_read_def read_with_def Let_def elim!: and_then_InrE)
  let ?req = "(IoRequest_new (ac_next_id ac) Read High)\<lparr>rq_fd := fd, rq_offset := offset,
        rq_len := as_u32 ?n, rq_data_offset := start\<rparr>"
  note un = client_read_def read_with_def Let_def next_id_def
  from assms(1) \<open>alloc _ _ _ _ = _\<close> obtain resp ac2 ms2 where
    call: "on_channel moves ?req (ac\<lparr>ac_channel := ?c\<lparr>cc_data := d1\<rparr>, ac_next_id := ac_next_id ac + 1\<rparr>)
      = Inr (resp, ac2, ms2)"
    by (auto simp: un elim!: and_then_InrE)
  from on_channel_spec [OF call] assms(2,3) obtain dropped where
    sp: "rs_id resp = ac_next_id ac" "req_log (ac_channel ac2) = req_log ?c @ [?req]"
      "cc_popped (ac_channel ac2) = cc_popped ?c @ dropped @ [resp]"
    by (auto simp: cc_wf_data)
  have read: "io_op ?req = Some Read" by (simp add: io_op_def op_from_u8_def)
  show ?thesis
  proof (cases "rs_status resp = 0")
    case False
    with assms(1) call \<open>alloc _ _ _ _ = _\<close> have "res = Inl (rs_status resp)" "ac' = ac2"
      by (auto simp: un)
    with sp read False show ?thesis
      by (intro exI [of _ ?req] exI [of _ resp] exI [of _ dropped]) simp
  next
    case True
    with assms(1) call \<open>alloc _ _ _ _ = _\<close> obtain data where
      d: "dr_read (rs_data_offset resp) (unat (rs_data_len resp)) (cc_data (ac_channel ac2)) = Inr data"
      and len: "length data \<le> length buf" and out: "res = Inr (length data, data @ drop (length data) buf)" "ac' = ac2"
      by (auto simp: un split: if_splits elim!: and_then_InrE)
    have "length data = unat (rs_data_len resp)" using d by (auto simp: dr_read_def split: if_splits)
    with sp read True d len out show ?thesis
      by (intro exI [of _ ?req] exI [of _ resp] exI [of _ dropped]) simp
  qed
qed

theorem read_returns_answered_bytes_witness:
  "\<exists>ac' r (resp :: IoResponse). client_read Debug [] [answer_one] 5 [1, 2, 3] 100 idle_client = Inr (Inr (0, [1, 2, 3]), ac', []) \<and>
     req_log (ac_channel ac') = [r] \<and> io_op r = Some Read \<and> rs_id resp = rq_id r \<and> rs_status resp = 0"
proof -
  let ?d = "small_region\<lparr>dr_offset := 15\<rparr>"
  let ?ac = "\<lparr>ac_channel = idle_channel ?d, ac_next_id = 2\<rparr>"
    and ?req = "(IoRequest_new 1 Read High)\<lparr>rq_fd := 5, rq_offset := 100, rq_len := 3, rq_data_offset := 12\<rparr>"
  obtain ac' where call: "on_channel [answer_one] ?req ?ac = Inr (IoResponse_ok 1, ac', [])"
    using on_channel_answered [of ?ac ?req] by auto
  have al: "alloc Debug 3 [] small_region = Inr (12, ?d)"
    by (simp add: alloc_def alloc_next_def uadd_def small_region_def)
  have upd: "(idle_channel small_region)\<lparr>cc_data := ?d\<rparr> = idle_channel ?d" by (simp add: idle_channel_def)
  have rd: "dr_read 0 0 r = Inr []" for r by (simp add: dr_read_def)
  have s: "client_read Debug [] [answer_one] 5 [1, 2, 3] 100 idle_client = Inr (Inr (0, [1, 2, 3]), ac', [])"
    using call by (simp add: client_read_def read_with_def Let_def next_id_def idle_client_def al upd rd)
  have "\<forall>m \<in> set [answer_one]. peer_ok m" using peer_ok_answer_one by simp
  from read_returns_answered_bytes [OF s idle_client_facts(1) this, unfolded sum.case prod.case]
  obtain r and resp :: IoResponse where
    "req_log (ac_channel ac') = req_log (ac_channel idle_client) @ [r]"
    "io_op r = Some Read" "rs_id resp = rq_id r" "rs_status resp = 0"
    by blast
  with s show ?thesis
    by (intro exI [of _ ac'] exI [of _ r] exI [of _ resp]) (simp add: idle_client_def)
qed

end
