(* ===== verification/Client_Service.thy ===== *)
theory Client_Service
  imports Client Single_Request
begin

text \<open>
  A client and the service together: the service's loop is the peer that acts while the client waits.
  The two processes share the rings and the bytes of the data region; the service sees the region as
  the segment of the channel in its executor's memory.
\<close>

section \<open>The service as the client's peer\<close>

text \<open>\<open>seg\<close> and \<open>set_seg\<close> read and replace the mapped bytes of a channel in the executor's state.\<close>

definition with_rings :: "nat \<Rightarrow> 'p ClientChannel \<Rightarrow> ServiceChannel list \<Rightarrow> ServiceChannel list" where
  "with_rings k c cs = cs[k := (cs ! k)\<lparr>sc_req := cc_req c, sc_resp := cc_resp c\<rparr>]"

definition shared_service ::
  "nat \<Rightarrow> (nat \<Rightarrow> u8 list \<Rightarrow> 'w \<Rightarrow> 'w) \<Rightarrow> ('w, 's) AtlasService ClientChannel \<Rightarrow> ('w, 's) AtlasService" where
  "shared_service k set_seg c =
     (cc_peer c)\<lparr>channels := with_rings k c (channels (cc_peer c)),
       executor := set_seg k (dr_mem (cc_data c)) (executor (cc_peer c))\<rparr>"

definition serve_shared ::
  "profile \<Rightarrow> 'w IoExecutor \<Rightarrow> 's Pipeline \<Rightarrow> nat \<Rightarrow> ('w \<Rightarrow> nat \<Rightarrow> u8 list) \<Rightarrow>
   (nat \<Rightarrow> u8 list \<Rightarrow> 'w \<Rightarrow> 'w) \<Rightarrow> ('w, 's) AtlasService ClientChannel \<Rightarrow>
   ('w, 's) AtlasService ClientChannel exec" where
  "serve_shared p E Pl k seg set_seg c =
     and_then (serve_round p E Pl (shared_service k set_seg c)) (\<lambda>res.
       let svc = fst res; ch = channels svc ! k in
       Inr (c\<lparr>cc_req := sc_req ch, cc_resp := sc_resp ch,
              cc_data := (cc_data c)\<lparr>dr_mem := seg (executor svc) k\<rparr>,
              cc_served := cc_served c @ spsc_contents RING_CAPACITY (cc_req c), cc_peer := svc\<rparr>))"

text \<open>A service that has panicked does nothing more.\<close>

definition service_move ::
  "profile \<Rightarrow> 'w IoExecutor \<Rightarrow> 's Pipeline \<Rightarrow> nat \<Rightarrow> ('w \<Rightarrow> nat \<Rightarrow> u8 list) \<Rightarrow>
   (nat \<Rightarrow> u8 list \<Rightarrow> 'w \<Rightarrow> 'w) \<Rightarrow> ('w, 's) AtlasService peer_move" where
  "service_move p E Pl k seg set_seg c =
     (case serve_shared p E Pl k seg set_seg c of Inl _ \<Rightarrow> c | Inr c' \<Rightarrow> c')"

text \<open>Nothing is under way: the rings are empty, and the service waits with an empty stage.\<close>

definition system_idle ::
  "nat \<Rightarrow> 's Pipeline \<Rightarrow> ('s \<Rightarrow> bool) \<Rightarrow> ('w, 's) AtlasService ClientChannel \<Rightarrow> bool" where
  "system_idle k Pl invar c \<longleftrightarrow> cc_wf c \<and> spsc_contents RING_CAPACITY (cc_req c) = [] \<and>
     spsc_contents RING_CAPACITY (cc_resp c) = [] \<and> k < length (channels (cc_peer c)) \<and>
     between_rounds Pl invar (cc_peer c) \<and> sc_moves (channels (cc_peer c) ! k) = [] \<and>
     (\<forall>j < length (channels (cc_peer c)). j \<noteq> k \<longrightarrow> requests (channels (cc_peer c) ! j) = [])"

section \<open>One call\<close>

lemma chan_wf_rings: "cc_wf c \<Longrightarrow> chan_wf (ch\<lparr>sc_req := cc_req c, sc_resp := cc_resp c\<rparr>)"
  by (simp add: cc_wf_def chan_wf_def)

text \<open>The service's iteration while the client waits for the answer to \<open>r\<close>.\<close>

lemma service_move_answers:
  assumes idle: "system_idle k Pl invar c0" and c: "cc_wf c" "cc_peer c = cc_peer c0"
    "spsc_contents RING_CAPACITY (cc_req c) = [r]" "spsc_contents RING_CAPACITY (cc_resp c) = []"
    and E: "batch_executor (ex_batch E)"
    and Pl: "lone_stage (pl_add Pl) (pl_is_empty Pl) (pl_drain Pl) held invar" and fits: "range_fits p r"
    and ans: "answer p E k r (core (shared_service k set_seg c)) = Inr (resp, a)"
  shows "\<exists>c'. service_move p E Pl k seg set_seg c = c' \<and> cc_wf c' \<and>
    spsc_contents RING_CAPACITY (cc_req c') = [] \<and> spsc_contents RING_CAPACITY (cc_resp c') = [resp] \<and>
    req_log c' = req_log c \<and> cc_popped c' = cc_popped c \<and> core (cc_peer c') = a \<and>
    cc_data c' = (cc_data c)\<lparr>dr_mem := seg (executor (cc_peer c')) k\<rparr> \<and> cc_instance c' = cc_instance c \<and>
    k < length (channels (cc_peer c')) \<and> between_rounds Pl invar (cc_peer c') \<and>
    sc_moves (channels (cc_peer c') ! k) = [] \<and>
    (\<forall>j < length (channels (cc_peer c')). requests (channels (cc_peer c') ! j) = [])"
proof -
  let ?svc = "shared_service k set_seg c" and ?cs = "channels (cc_peer c0)"
  have k: "k < length ?cs" and bt: "between_rounds Pl invar (cc_peer c0)" and mv: "sc_moves (?cs ! k) = []"
    and others: "\<forall>j < length ?cs. j \<noteq> k \<longrightarrow> requests (?cs ! j) = []"
    using idle by (simp_all add: system_idle_def)
  have cs: "channels ?svc = ?cs[k := (?cs ! k)\<lparr>sc_req := cc_req c, sc_resp := cc_resp c\<rparr>]"
    and st: "stage ?svc = stage (cc_peer c0)"
    using c(2) by (simp_all add: shared_service_def with_rings_def)
  have bt': "between_rounds Pl invar ?svc"
    using bt chan_wf_rings [OF c(1)] chans_wf_update by (auto simp: between_rounds_def cs st)
  have cap: "0 < unat RING_CAPACITY" by (simp add: unat_RING_CAPACITY)
  have only: "only_request k r (channels ?svc)"
    using k others mv c(3,4) cap by (simp add: only_request_def cs nth_list_update)
  have pl: "request_pipeline (pl_add Pl) (pl_is_empty Pl) (pl_drain Pl) held invar"
    using Pl by (rule lone_stage.axioms(1))
  obtain s' where "pl_drain Pl p (pl_add Pl (stage ?svc) r k) = Inr ([sole r k], s')"
    using lone_stage.drain_sole [OF Pl _ _ fits] bt by (auto simp: between_rounds_def st)
  from serve_round_sole [OF bt' E pl only this] ans obtain svc' where
    sv: "serve_round p E Pl ?svc = Inr (svc', True)" "core svc' = a" "between_rounds Pl invar svc'"
      "length (channels svc') = length ?cs"
    and ch: "\<forall>j < length ?cs. requests (channels svc' ! j) = [] \<and>
           sc_moves (channels svc' ! j) = sc_moves (channels ?svc ! j) \<and>
           spsc_contents RING_CAPACITY (sc_resp (channels svc' ! j)) =
             spsc_contents RING_CAPACITY (sc_resp (channels ?svc ! j)) @ (if j = k then [resp] else [])"
    by (auto simp: cs)
  have chk: "requests (channels svc' ! k) = []" "sc_moves (channels svc' ! k) = []"
    "spsc_contents RING_CAPACITY (sc_resp (channels svc' ! k)) = [resp]"
    using ch k mv c(4) by (auto simp: cs)
  have "chan_wf (channels svc' ! k)" using sv(3,4) k by (simp add: between_rounds_def chans_wf_def)
  then show ?thesis
    using sv ch chk k c(3)
    by (auto simp: service_move_def serve_shared_def Let_def cc_wf_def chan_wf_def req_log_def)
qed

text \<open>A call on an idle system: the request is answered as the specification says, and the system is
  idle again.\<close>

lemma send_request_served:
  assumes idle: "system_idle k Pl invar c" and E: "batch_executor (ex_batch E)"
    and Pl: "lone_stage (pl_add Pl) (pl_is_empty Pl) (pl_drain Pl) held invar" and fits: "range_fits p r"
    and ans: "answer p E k r (core (shared_service k set_seg c)) = Inr (resp, a)"
  shows "\<exists>c'. send_request [service_move p E Pl k seg set_seg] r c = Inr (resp, c', []) \<and>
    system_idle k Pl invar c' \<and> req_log c' = req_log c @ [r] \<and> cc_popped c' = cc_popped c @ [resp] \<and>
    core (cc_peer c') = a \<and> cc_data c' = (cc_data c)\<lparr>dr_mem := seg (executor (cc_peer c')) k\<rparr> \<and>
    cc_instance c' = cc_instance c"
proof -
  have w: "spsc_wf RING_CAPACITY (cc_req c)" "spsc_wf RING_CAPACITY (cc_resp c)"
    and e: "spsc_contents RING_CAPACITY (cc_req c) = []" "spsc_contents RING_CAPACITY (cc_resp c) = []"
    using idle by (simp_all add: system_idle_def cc_wf_def)
  have cap: "0 < unat RING_CAPACITY" by (simp add: unat_RING_CAPACITY)
  obtain q where q: "spsc_enq RING_CAPACITY r (cc_req c) = (Inr (), q)" "spsc_contents RING_CAPACITY q = [r]"
    using spscq.enq_space [OF w(1), of r] e(1) cap by (cases "spsc_enq RING_CAPACITY r (cc_req c)") auto
  have wq: "spsc_wf RING_CAPACITY q" using w(1) q(1) by (rule spscq.invar_step(1))
  obtain q1 where q1: "spsc_deq RING_CAPACITY (cc_resp c) = (None, q1)" "spsc_contents RING_CAPACITY q1 = []"
    using spscq.deq_Nil [OF w(2) e(2)] by (cases "spsc_deq RING_CAPACITY (cc_resp c)") auto
  have wq1: "spsc_wf RING_CAPACITY q1" using w(2) q1(1) by (rule spscq.invar_step(2))
  let ?c = "c\<lparr>cc_req := q, cc_resp := q1\<rparr>"
  have "core (shared_service k set_seg ?c) = core (shared_service k set_seg c)"
    by (simp add: shared_service_def core_def)
  with ans have ans': "answer p E k r (core (shared_service k set_seg ?c)) = Inr (resp, a)" by simp
  have "cc_wf ?c" using wq wq1 by (simp add: cc_wf_def)
  from service_move_answers [OF idle this _ _ _ E Pl fits ans', of seg] q(2) q1(2) obtain c2 where
    c2: "service_move p E Pl k seg set_seg ?c = c2" "cc_wf c2"
      "spsc_contents RING_CAPACITY (cc_req c2) = []" "spsc_contents RING_CAPACITY (cc_resp c2) = [resp]"
      "req_log c2 = req_log ?c" "cc_popped c2 = cc_popped c" "core (cc_peer c2) = a"
      "cc_data c2 = (cc_data c)\<lparr>dr_mem := seg (executor (cc_peer c2)) k\<rparr>" "cc_instance c2 = cc_instance c"
      "k < length (channels (cc_peer c2))" "between_rounds Pl invar (cc_peer c2)"
      "sc_moves (channels (cc_peer c2) ! k) = []"
      "\<forall>j < length (channels (cc_peer c2)). requests (channels (cc_peer c2) ! j) = []" by auto
  have w2: "spsc_wf RING_CAPACITY (cc_resp c2)" using c2(2) by (simp add: cc_wf_def)
  obtain q4 where q4: "spsc_deq RING_CAPACITY (cc_resp c2) = (Some resp, q4)" "spsc_contents RING_CAPACITY q4 = []"
    using spscq.deq_Cons [OF w2 c2(4)] by (cases "spsc_deq RING_CAPACITY (cc_resp c2)") auto
  have wq4: "spsc_wf RING_CAPACITY q4" using w2 q4(1) by (rule spscq.invar_step(2))
  let ?c' = "c2\<lparr>cc_resp := q4, cc_popped := cc_popped c2 @ [resp]\<rparr>"
  have "rs_id resp = rq_id r" using ans by (rule answer_id)
  then have "send_request [service_move p E Pl k seg set_seg] r c = Inr (resp, ?c', [])"
    using c2(1) by (simp add: send_request_def push_loop.simps q wait_loop.simps [of "[_]"] cc_pop_def q1
        wait_loop.simps [of "[]"] q4)
  moreover have "system_idle k Pl invar ?c'"
    using c2 wq4 q4(2) by (simp add: system_idle_def cc_wf_def)
  moreover have "req_log ?c' = req_log c @ [r]" using c2(5) q(2) e(1) by (simp add: req_log_def)
  ultimately show ?thesis using c2 by auto
qed

section \<open>Files\<close>

text \<open>What the POSIX executor's C library does for a regular file with room and no interruption: \<open>pwrite\<close>
  transfers every byte, and \<open>pread\<close> every byte up to the end of the file. \<open>file w fd\<close> are the bytes of the
  file open as \<open>fd\<close>, and a write past the end fills the gap with zeros. (POSIX.1-2017, \<open>pread\<close> and
  \<open>pwrite\<close>.)\<close>

definition overwrite :: "u8 list \<Rightarrow> nat \<Rightarrow> u8 list \<Rightarrow> u8 list" where
  "overwrite bs off data =
     take off bs @ replicate (off - length bs) 0 @ data @ drop (off + length data) bs"

lemma overwrite_read: "take (length data) (drop off (overwrite bs off data)) = data"
  by (simp add: overwrite_def)

lemma length_overwrite: "length (overwrite bs off data) = max (length bs) (off + length data)"
  by (simp add: overwrite_def)

text \<open>The bytes of a file in a range, up to its end, and the bytes of a buffer in the mapped segments.\<close>

definition file_range :: "u8 list \<Rightarrow> u64 \<Rightarrow> usize \<Rightarrow> u8 list" where
  "file_range bs off n = take (unat n) (drop (unat off) bs)"

lemma length_file_range: "length (file_range bs off n) \<le> unat n"
  by (simp add: file_range_def)

definition buf_bytes :: "('w \<Rightarrow> nat \<Rightarrow> u8 list) \<Rightarrow> 'w \<Rightarrow> nat \<Rightarrow> nat \<Rightarrow> nat \<Rightarrow> u8 list" where
  "buf_bytes seg w k b n = take n (drop b (seg w k))"

definition regular_files ::
  "'w LibC \<Rightarrow> ('w \<Rightarrow> nat \<Rightarrow> u8 list) \<Rightarrow> (nat \<Rightarrow> u8 list \<Rightarrow> 'w \<Rightarrow> 'w) \<Rightarrow> ('w \<Rightarrow> i32 \<Rightarrow> u8 list option) \<Rightarrow> bool" where
  "regular_files L seg set_seg file \<longleftrightarrow>
     (\<forall>k m w. seg (set_seg k m w) k = m \<and> file (set_seg k m w) = file w) \<and>
     (\<forall>w fd bs k b n off. file w fd = Some bs \<longrightarrow> b + unat n \<le> length (seg w k) \<longrightarrow>
        unat n < 2 ^ 31 \<longrightarrow> unat off < 2 ^ 63 \<longrightarrow>
        (\<exists>w'. c_pwrite L w fd (k, b) n off = (n, w') \<and> seg w' k = seg w k \<and>
           file w' fd = Some (overwrite bs (unat off) (buf_bytes seg w k b (unat n))))) \<and>
     (\<forall>w fd bs k b n off. file w fd = Some bs \<longrightarrow> b + unat n \<le> length (seg w k) \<longrightarrow>
        unat n < 2 ^ 31 \<longrightarrow> unat off < 2 ^ 63 \<longrightarrow>
        (\<exists>w'. c_pread L w fd (k, b) n off = (of_nat (length (file_range bs off n)), w') \<and>
           file w' fd = Some bs \<and> seg w' k = overwrite (seg w k) b (file_range bs off n)))"

lemma regular_seg: "regular_files L seg set_seg file \<Longrightarrow> seg (set_seg k m w) k = m \<and> file (set_seg k m w) = file w"
  by (simp add: regular_files_def)

lemma regular_pwrite:
  assumes "regular_files L seg set_seg file" "file w fd = Some bs" "b + unat n \<le> length (seg w k)"
    "unat n < 2 ^ 31" "unat off < 2 ^ 63"
  obtains w' where "c_pwrite L w fd (k, b) n off = (n, w')" "seg w' k = seg w k"
    "file w' fd = Some (overwrite bs (unat off) (buf_bytes seg w k b (unat n)))"
  using assms(1) [unfolded regular_files_def, THEN conjunct2, THEN conjunct1, rule_format, OF assms(2-5)]
  by blast

lemma regular_pread:
  assumes "regular_files L seg set_seg file" "file w fd = Some bs" "b + unat n \<le> length (seg w k)"
    "unat n < 2 ^ 31" "unat off < 2 ^ 63"
  obtains w' where "c_pread L w fd (k, b) n off = (of_nat (length (file_range bs off n)), w')"
    "file w' fd = Some bs" "seg w' k = overwrite (seg w k) b (file_range bs off n)"
  using assms(1) [unfolded regular_files_def, THEN conjunct2, THEN conjunct2, rule_format, OF assms(2-5)]
  by blast

lemma not_negative_small:
  fixes n :: u64
  assumes "unat n < 2 ^ 31"
  shows "\<not> negative n"
proof -
  have "unat n < 2 ^ 63" using assms by simp
  then show ?thesis using sint_u64_small [of n] by simp
qed

text \<open>A data request whose system call transfers bytes, by the specification.\<close>

lemma answer_pwrite_any:
  assumes "io_op r = Some Write" "fds (rq_fd r) = Some fd"
    and "c_pwrite L w fd (k, unat (rq_data_offset r)) (as_u64 (rq_len r)) (rq_offset r) = (rc, w')"
    and "\<not> negative rc"
  shows "answer p (PosixExecutor L) k r (fds, nf, w) =
    Inr ((IoResponse_ok (rq_id r))\<lparr>rs_data_len := rq_len r\<rparr>, fds, nf, w')"
  using assms by (simp add: answer_def batch_of_one_def PosixExecutor_def posix_batch_def BatchOp_new_def
      run_kind_def posix_pwrite_def)

lemma answer_pwrite:
  assumes "io_op r = Some Write" "fds (rq_fd r) = Some fd" "unat (rq_len r) < 2 ^ 31"
    and "c_pwrite L w fd (k, unat (rq_data_offset r)) (as_u64 (rq_len r)) (rq_offset r) = (as_u64 (rq_len r), w')"
  shows "answer p (PosixExecutor L) k r (fds, nf, w) =
    Inr ((IoResponse_ok (rq_id r))\<lparr>rs_data_len := rq_len r\<rparr>, fds, nf, w')"
  by (rule answer_pwrite_any [where fds = fds and r = r, OF assms(1,2,4)])
    (use assms(3) in \<open>simp add: not_negative_small\<close>)

lemma answer_pread:
  assumes "io_op r = Some Read" "fds (rq_fd r) = Some fd" "unat (rq_len r) < 2 ^ 31" "m \<le> unat (rq_len r)"
    and "c_pread L w fd (k, unat (rq_data_offset r)) (as_u64 (rq_len r)) (rq_offset r) = (of_nat m, w')"
  shows "answer p (PosixExecutor L) k r (fds, nf, w) =
    Inr ((IoResponse_ok (rq_id r))\<lparr>rs_data_offset := rq_data_offset r, rs_data_len := of_nat m\<rparr>, fds, nf, w')"
proof -
  have m: "unat (of_nat m :: u64) = m" "unat (of_nat m :: u32) = m" using assms(3,4) by (simp_all add: unat_of_nat)
  then have neg: "\<not> negative (of_nat m :: u64)" using assms(3,4) by (intro not_negative_small) simp
  have cast: "as_u32 (of_nat m :: u64) = of_nat m"
    using m assms(3,4) by (simp add: word_unat_eq_iff unat_as_u32_u64)
  have sint: "sint (of_nat m :: u64) = int m" using sint_u64_small [of "of_nat m"] m assms(3,4) by simp
  have "(of_nat m :: u32) \<le> rq_len r" using m assms(4) by (simp add: word_le_nat_alt)
  then have "(if 0 < sint (of_nat m :: u64) then min (as_u32 (of_nat m :: u64)) (rq_len r) else 0) = of_nat m"
    unfolding sint cast by (simp add: min_def)
  then show ?thesis
    using assms(1,2,5) neg
    by (simp add: answer_def batch_of_one_def PosixExecutor_def posix_batch_def BatchOp_new_def
        run_kind_def posix_pread_def)
qed

section \<open>Writing and reading through the service\<close>

text \<open>A client whose system is idle, with the file \<open>bs\<close> open behind the descriptor \<open>fd\<close>.\<close>

definition file_open ::
  "nat \<Rightarrow> 's Pipeline \<Rightarrow> ('s \<Rightarrow> bool) \<Rightarrow> ('w \<Rightarrow> i32 \<Rightarrow> u8 list option) \<Rightarrow> u64 \<Rightarrow> u8 list \<Rightarrow>
   ('w, 's) AtlasService AtlasClient \<Rightarrow> bool" where
  "file_open k Pl invar file fd bs ac \<longleftrightarrow>
     system_idle k Pl invar (ac_channel ac) \<and> region_wf (cc_data (ac_channel ac)) \<and>
     (\<exists>rfd. fd_table (cc_peer (ac_channel ac)) fd = Some rfd \<and>
        file (executor (cc_peer (ac_channel ac))) rfd = Some bs)"

lemma on_channel_served:
  assumes "system_idle k Pl invar (ac_channel ac)" "batch_executor (ex_batch E)"
    and "lone_stage (pl_add Pl) (pl_is_empty Pl) (pl_drain Pl) held invar" "range_fits p r"
    and "answer p E k r (core (shared_service k set_seg (ac_channel ac))) = Inr (resp, a)"
  shows "\<exists>c'. on_channel [service_move p E Pl k seg set_seg] r ac = Inr (resp, ac\<lparr>ac_channel := c'\<rparr>, []) \<and>
    system_idle k Pl invar c' \<and> core (cc_peer c') = a \<and>
    cc_data c' = (cc_data (ac_channel ac))\<lparr>dr_mem := seg (executor (cc_peer c')) k\<rparr>"
  using send_request_served [OF assms, of seg] by (auto simp: on_channel_def)

lemma idle_data: "system_idle k Pl invar (c\<lparr>cc_data := d\<rparr>) = system_idle k Pl invar c"
  by (simp add: system_idle_def cc_wf_def)

lemma core_shared:
  "core (shared_service k set_seg c) =
     (fd_table (cc_peer c), next_fd (cc_peer c), set_seg k (dr_mem (cc_data c)) (executor (cc_peer c)))"
  by (simp add: core_def shared_service_def)

lemma data_call_served:
  assumes "system_idle k Pl invar (ac_channel ac)" "batch_executor (ex_batch E)"
    and "lone_stage (pl_add Pl) (pl_is_empty Pl) (pl_drain Pl) held invar" "range_fits p r"
    and "answer p E k r (fd_table (cc_peer (ac_channel ac)), next_fd (cc_peer (ac_channel ac)),
      set_seg k (dr_mem d) (executor (cc_peer (ac_channel ac)))) = Inr (resp, a)"
  obtains ac' where "on_channel [service_move p E Pl k seg set_seg] r (with_data d ac) = Inr (resp, ac', [])"
    "system_idle k Pl invar (ac_channel ac')" "core (cc_peer (ac_channel ac')) = a"
    "cc_data (ac_channel ac') = d\<lparr>dr_mem := seg (executor (cc_peer (ac_channel ac'))) k\<rparr>"
proof -
  have "system_idle k Pl invar (ac_channel (with_data d ac))" using assms(1) by (simp add: idle_data)
  moreover have "answer p E k r (core (shared_service k set_seg (ac_channel (with_data d ac)))) = Inr (resp, a)"
    using assms(5) by (simp add: core_shared)
  ultimately show thesis
    using on_channel_served [OF _ assms(2-4), where ac = "with_data d ac" and set_seg = set_seg
        and resp = resp and a = a and seg = seg] that by fastforce
qed

section \<open>Calls and what the executor does\<close>

text \<open>The request of \<open>AtlasClient::open\<close>.\<close>

abbreviation open_request :: "u64 \<Rightarrow> u8 list \<Rightarrow> u32 \<Rightarrow> IoRequest" where
  "open_request i path flags \<equiv> (set_path (IoRequest_new i Open High) path)\<lparr>rq_len := flags\<rparr>"

lemma path_of_open_request:
  assumes "utf8_valid path" "0 \<notin> set path" "length path \<le> 255"
  shows "path_str (open_request i path flags) = path"
proof -
  have "path_str (open_request i path flags) = path_str (set_path (IoRequest_new i Open High) path)"
    by (simp add: path_str_def)
  then show ?thesis using path_str_kept [OF _ assms, of "IoRequest_new i Open High"] by simp
qed

text \<open>An open, for any outcome of the executor's.\<close>

lemma client_open_executed:
  assumes "system_idle k Pl invar (ac_channel ac)" "batch_executor (ex_batch E)"
    and "lone_stage (pl_add Pl) (pl_is_empty Pl) (pl_drain Pl) held invar"
    and "utf8_valid path" "0 \<notin> set path" "length path \<le> 255"
    and "ex_open E (executor (shared_service k set_seg (ac_channel ac))) path flags 420 = (rc, w)"
    and "i64_as_i32 rc \<noteq> 0 \<or> \<not> negative rc"
    and "unat (next_fd (cc_peer (ac_channel ac))) < 2 ^ 64 - 1"
  shows "\<exists>res ac'. client_open [service_move p E Pl k seg set_seg] path flags ac = Inr (res, ac', []) \<and>
    system_idle k Pl invar (ac_channel ac') \<and>
    cc_data (ac_channel ac') = (cc_data (ac_channel ac))\<lparr>dr_mem := seg w k\<rparr> \<and>
    executor (cc_peer (ac_channel ac')) = w \<and>
    (if negative rc
     then res = Inl (i64_as_i32 rc) \<and> fd_table (cc_peer (ac_channel ac')) = fd_table (cc_peer (ac_channel ac)) \<and>
       next_fd (cc_peer (ac_channel ac')) = next_fd (cc_peer (ac_channel ac))
     else res = Inr (next_fd (cc_peer (ac_channel ac))) \<and>
       fd_table (cc_peer (ac_channel ac')) =
         (fd_table (cc_peer (ac_channel ac)))(next_fd (cc_peer (ac_channel ac)) \<mapsto> i64_as_i32 rc) \<and>
       next_fd (cc_peer (ac_channel ac')) = next_fd (cc_peer (ac_channel ac)) + 1)"
proof -
  let ?c = "ac_channel ac" and ?r = "open_request (ac_next_id ac) path flags"
  let ?ac = "ac\<lparr>ac_next_id := ac_next_id ac + 1\<rparr>" and ?mv = "service_move p E Pl k seg set_seg"
  let ?fds = "fd_table (cc_peer ?c)" and ?nf = "next_fd (cc_peer ?c)"
  have fits: "range_fits p ?r"
    using less_trans [OF unat_u32_less [of flags], of "2 ^ 64"] by (simp add: range_fits_def)
  have op: "io_op ?r = Some Open" by (simp add: io_op_def op_from_u8_def)
  have up: "uadd p ?nf 1 = Inr (?nf + 1)" using assms(9) by (intro uadd_no_overflow) simp
  define resp where "resp = (if negative rc then IoResponse_err (ac_next_id ac) (i64_as_i32 rc)
    else (IoResponse_ok (ac_next_id ac))\<lparr>rs_fd := ?nf\<rparr>)"
  define a where "a = (if negative rc then (?fds, ?nf, w) else (?fds(?nf \<mapsto> i64_as_i32 rc), ?nf + 1, w))"
  have ex: "ex_open E (set_seg k (dr_mem (cc_data ?c)) (executor (cc_peer ?c))) path flags 420 = (rc, w)"
    using assms(7) by (simp add: shared_service_def)
  have ans: "answer p E k ?r (core (shared_service k set_seg (ac_channel ?ac))) = Inr (resp, a)"
    using op up ex path_of_open_request [OF assms(4-6), where i = "ac_next_id ac" and flags = flags]
    by (simp add: answer_def core_shared resp_def a_def)
  from on_channel_served [OF _ assms(2,3) fits, where ac = ?ac and set_seg = set_seg and seg = seg
      and resp = resp and a = a] assms(1) ans
  obtain c' where c': "on_channel [?mv] ?r ?ac = Inr (resp, ?ac\<lparr>ac_channel := c'\<rparr>, [])" "core (cc_peer c') = a"
    "system_idle k Pl invar c'" "cc_data c' = (cc_data ?c)\<lparr>dr_mem := seg (executor (cc_peer c')) k\<rparr>"
    by auto
  have "client_open [?mv] path flags ac =
      Inr (if rs_status resp \<noteq> 0 then Inl (rs_status resp) else Inr (rs_fd resp), ?ac\<lparr>ac_channel := c'\<rparr>, [])"
    using c'(1) by (simp add: client_open_def next_id_def Let_def)
  with c'(2-4) assms(8) show ?thesis by (auto simp: resp_def a_def core_def)
qed

text \<open>Syncs and closes whose system call succeeds.\<close>

lemma client_sync_executed:
  assumes "lone_stage (pl_add Pl) (pl_is_empty Pl) (pl_drain Pl) held invar"
    and "system_idle k Pl invar (ac_channel ac)" "fd_table (cc_peer (ac_channel ac)) fd = Some rfd"
    and "c_fsync L (set_seg k (dr_mem (cc_data (ac_channel ac))) (executor (cc_peer (ac_channel ac)))) rfd = (0, w')"
  obtains ac' where "client_sync [service_move p (PosixExecutor L) Pl k seg set_seg] fd ac = Inr (Inr (), ac', [])"
    "system_idle k Pl invar (ac_channel ac')"
    "core (cc_peer (ac_channel ac')) = (fd_table (cc_peer (ac_channel ac)), next_fd (cc_peer (ac_channel ac)), w')"
    "cc_data (ac_channel ac') = (cc_data (ac_channel ac))\<lparr>dr_mem := seg w' k\<rparr>"
proof -
  let ?ac = "ac\<lparr>ac_next_id := ac_next_id ac + 1\<rparr>" and ?r = "(IoRequest_new (ac_next_id ac) Sync Critical)\<lparr>rq_fd := fd\<rparr>"
  let ?a = "(fd_table (cc_peer (ac_channel ac)), next_fd (cc_peer (ac_channel ac)), w')"
  have ans: "answer p (PosixExecutor L) k ?r (core (shared_service k set_seg (ac_channel ?ac))) =
      Inr (IoResponse_ok (ac_next_id ac), ?a)"
    using assms(3,4) by (simp add: answer_def core_shared io_op_def op_from_u8_def batch_of_one_def PosixExecutor_def
        posix_batch_def BatchOp_new_def run_kind_def posix_fsync_def)
  have fits: "range_fits p ?r" by (simp add: range_fits_def)
  from on_channel_served [OF _ posix_batch_executor assms(1) fits ans, where seg = seg] assms(2) obtain c' where
    c': "on_channel [service_move p (PosixExecutor L) Pl k seg set_seg] ?r ?ac =
      Inr (IoResponse_ok (ac_next_id ac), ?ac\<lparr>ac_channel := c'\<rparr>, [])" "system_idle k Pl invar c'"
      "core (cc_peer c') = ?a" "cc_data c' = (cc_data (ac_channel ac))\<lparr>dr_mem := seg (executor (cc_peer c')) k\<rparr>"
    by auto
  have "client_sync [service_move p (PosixExecutor L) Pl k seg set_seg] fd ac =
      Inr (Inr (), ?ac\<lparr>ac_channel := c'\<rparr>, [])"
    using c'(1) by (simp add: client_sync_def next_id_def Let_def)
  then show thesis by (rule that) (use c'(2-4) in \<open>simp_all add: core_def\<close>)
qed

lemma client_close_executed:
  assumes "lone_stage (pl_add Pl) (pl_is_empty Pl) (pl_drain Pl) held invar"
    and "system_idle k Pl invar (ac_channel ac)" "fd_table (cc_peer (ac_channel ac)) fd = Some rfd"
    and "c_close L (set_seg k (dr_mem (cc_data (ac_channel ac))) (executor (cc_peer (ac_channel ac)))) rfd = (0, w')"
  obtains ac' where "client_close [service_move p (PosixExecutor L) Pl k seg set_seg] fd ac = Inr (Inr (), ac', [])"
    "system_idle k Pl invar (ac_channel ac')"
    "core (cc_peer (ac_channel ac')) =
       ((fd_table (cc_peer (ac_channel ac)))(fd := None), next_fd (cc_peer (ac_channel ac)), w')"
    "cc_data (ac_channel ac') = (cc_data (ac_channel ac))\<lparr>dr_mem := seg w' k\<rparr>"
proof -
  let ?ac = "ac\<lparr>ac_next_id := ac_next_id ac + 1\<rparr>" and ?r = "(IoRequest_new (ac_next_id ac) Close Low)\<lparr>rq_fd := fd\<rparr>"
  let ?a = "((fd_table (cc_peer (ac_channel ac)))(fd := None), next_fd (cc_peer (ac_channel ac)), w')"
  have ans: "answer p (PosixExecutor L) k ?r (core (shared_service k set_seg (ac_channel ?ac))) =
      Inr (IoResponse_ok (ac_next_id ac), ?a)"
    using assms(3,4) by (simp add: answer_def core_shared io_op_def op_from_u8_def PosixExecutor_def posix_close_def)
  have fits: "range_fits p ?r" by (simp add: range_fits_def)
  from on_channel_served [OF _ posix_batch_executor assms(1) fits ans, where seg = seg] assms(2) obtain c' where
    c': "on_channel [service_move p (PosixExecutor L) Pl k seg set_seg] ?r ?ac =
      Inr (IoResponse_ok (ac_next_id ac), ?ac\<lparr>ac_channel := c'\<rparr>, [])" "system_idle k Pl invar c'"
      "core (cc_peer c') = ?a" "cc_data c' = (cc_data (ac_channel ac))\<lparr>dr_mem := seg (executor (cc_peer c')) k\<rparr>"
    by auto
  have "client_close [service_move p (PosixExecutor L) Pl k seg set_seg] fd ac =
      Inr (Inr (), ?ac\<lparr>ac_channel := c'\<rparr>, [])"
    using c'(1) by (simp add: client_close_def next_id_def Let_def)
  then show thesis by (rule that) (use c'(2-4) in \<open>simp_all add: core_def\<close>)
qed

text \<open>A write or read of the client on a descriptor of the table, for any outcome of the system call that
  is no error (a write is not asked how many bytes it wrote): the call returns them, and the executor is left as the system call leaves it.\<close>

lemma client_write_counted:
  assumes Pl: "lone_stage (pl_add Pl) (pl_is_empty Pl) (pl_drain Pl) held invar"
    and idle: "system_idle k Pl invar (ac_channel ac)" and wf: "region_wf (cc_data (ac_channel ac))"
    and rfd: "fd_table (cc_peer (ac_channel ac)) fd = Some rfd"
    and fit: "length buf \<le> unat (dr_len (cc_data (ac_channel ac)))" "unat off + length buf < 2 ^ 63"
    and call: "\<And>start m. \<lbrakk>length m = unat (dr_len (cc_data (ac_channel ac))); start + length buf \<le> length m;
      take (length buf) (drop start m) = buf\<rbrakk> \<Longrightarrow>
      \<exists>rc w'. c_pwrite L (set_seg k m (executor (cc_peer (ac_channel ac)))) rfd (k, start) (of_nat (length buf)) off =
        (rc, w') \<and> \<not> negative rc \<and> seg w' k = m \<and> Q w'"
  obtains ac' where "client_write p [] [service_move p (PosixExecutor L) Pl k seg set_seg] fd buf off ac =
      Inr (Inr (of_nat (length buf)), ac', [])"
    "system_idle k Pl invar (ac_channel ac')" "region_wf (cc_data (ac_channel ac'))"
    "dr_len (cc_data (ac_channel ac')) = dr_len (cc_data (ac_channel ac))"
    "fd_table (cc_peer (ac_channel ac')) = fd_table (cc_peer (ac_channel ac))"
    "next_fd (cc_peer (ac_channel ac')) = next_fd (cc_peer (ac_channel ac))"
    "Q (executor (cc_peer (ac_channel ac')))"
proof -
  let ?c = "ac_channel ac" and ?E = "PosixExecutor L"
  let ?mv = "service_move p ?E Pl k seg set_seg" and ?fds = "fd_table (cc_peer ?c)" and ?nf = "next_fd (cc_peer ?c)"
  have noone: "\<forall>x \<in> set []. unat (x :: u32) \<le> unat (dr_len (cc_data ?c))" by simp
  obtain start d where w: "client_write p [] [?mv] fd buf off ac =
       and_then (on_channel [?mv] (data_request Write (ac_next_id ac) fd off (length buf) start) (with_data d ac))
         (\<lambda>res. case res of (resp, ac2, ms) \<Rightarrow>
           Inr (if rs_status resp \<noteq> 0 then Inl (rs_status resp) else Inr (as_u64 (rs_data_len resp)), ac2, ms))"
    and d: "dr_read start (length buf) d = Inr buf" "region_wf d" "dr_len d = dr_len (cc_data ?c)"
      "unat start + length buf \<le> unat (dr_len d)"
    by (rule client_write_sends [OF wf fit(1) noone])
  let ?r = "data_request Write (ac_next_id ac) fd off (length buf) start"
    and ?w = "set_seg k (dr_mem d) (executor (cc_peer ?c))"
  note n = small_len [OF wf fit(1)]
  have n64: "as_u64 (rq_len ?r) = of_nat (length buf)" using n by (simp add: word_unat_eq_iff)
  have "take (length buf) (drop (unat start) (dr_mem d)) = buf"
    using d(1) by (auto simp: dr_read_def split: if_splits)
  then obtain rc w' where
    w': "c_pwrite L ?w rfd (k, unat start) (of_nat (length buf)) off = (rc, w')"
      "seg w' k = dr_mem d" "Q w'" and count: "\<not> negative rc"
    using call [of "dr_mem d" "unat start"] d(2-4) by (auto simp: region_wf_def)
  have ans: "answer p ?E k ?r (?fds, ?nf, ?w) =
      Inr ((IoResponse_ok (rq_id ?r))\<lparr>rs_data_len := rq_len ?r\<rparr>, ?fds, ?nf, w')"
  proof (rule answer_pwrite_any [where fd = rfd])
    show "c_pwrite L ?w rfd (k, unat (rq_data_offset ?r)) (as_u64 (rq_len ?r)) (rq_offset ?r) = (rc, w')"
      unfolding n64 using w'(1) by simp
  qed (use rfd count data_request_op in simp_all)
  have fits: "range_fits p ?r" using fit(2) n by (simp add: range_fits_def)
  obtain ac' where ac': "on_channel [?mv] ?r (with_data d ac) =
      Inr ((IoResponse_ok (rq_id ?r))\<lparr>rs_data_len := rq_len ?r\<rparr>, ac', [])"
    "system_idle k Pl invar (ac_channel ac')" "core (cc_peer (ac_channel ac')) = (?fds, ?nf, w')"
    "cc_data (ac_channel ac') = d\<lparr>dr_mem := seg (executor (cc_peer (ac_channel ac'))) k\<rparr>"
    by (rule data_call_served [where set_seg = set_seg and d = d, OF idle posix_batch_executor Pl fits ans])
  have "client_write p [] [?mv] fd buf off ac = Inr (Inr (of_nat (length buf)), ac', [])"
    using w ac'(1) n by (simp add: word_unat_eq_iff)
  then show thesis
    by (rule that) (use ac'(2-4) w'(2,3) d(2,3) in \<open>simp_all add: core_def region_wf_def\<close>)
qed

lemma client_write_executed:
  assumes Pl: "lone_stage (pl_add Pl) (pl_is_empty Pl) (pl_drain Pl) held invar"
    and idle: "system_idle k Pl invar (ac_channel ac)" and wf: "region_wf (cc_data (ac_channel ac))"
    and rfd: "fd_table (cc_peer (ac_channel ac)) fd = Some rfd"
    and fit: "length buf \<le> unat (dr_len (cc_data (ac_channel ac)))" "unat off + length buf < 2 ^ 63"
    and call: "\<And>start m. \<lbrakk>length m = unat (dr_len (cc_data (ac_channel ac))); start + length buf \<le> length m;
      take (length buf) (drop start m) = buf\<rbrakk> \<Longrightarrow>
      \<exists>w'. c_pwrite L (set_seg k m (executor (cc_peer (ac_channel ac)))) rfd (k, start) (of_nat (length buf)) off =
        (of_nat (length buf), w') \<and> seg w' k = m \<and> Q w'"
  obtains ac' where "client_write p [] [service_move p (PosixExecutor L) Pl k seg set_seg] fd buf off ac =
      Inr (Inr (of_nat (length buf)), ac', [])"
    "system_idle k Pl invar (ac_channel ac')" "region_wf (cc_data (ac_channel ac'))"
    "dr_len (cc_data (ac_channel ac')) = dr_len (cc_data (ac_channel ac))"
    "fd_table (cc_peer (ac_channel ac')) = fd_table (cc_peer (ac_channel ac))"
    "next_fd (cc_peer (ac_channel ac')) = next_fd (cc_peer (ac_channel ac))"
    "Q (executor (cc_peer (ac_channel ac')))"
proof -
  have "unat (of_nat (length buf) :: u64) < 2 ^ 31" using small_len [OF wf fit(1)] by simp
  then have "\<not> negative (of_nat (length buf) :: u64)" by (rule not_negative_small)
  with call show thesis
    using client_write_counted [OF Pl idle wf rfd fit, where L = L and set_seg = set_seg and seg = seg
        and Q = Q and p = p] that by metis
qed

lemma client_read_executed:
  assumes Pl: "lone_stage (pl_add Pl) (pl_is_empty Pl) (pl_drain Pl) held invar"
    and idle: "system_idle k Pl invar (ac_channel ac)" and wf: "region_wf (cc_data (ac_channel ac))"
    and rfd: "fd_table (cc_peer (ac_channel ac)) fd = Some rfd"
    and fit: "length buf \<le> unat (dr_len (cc_data (ac_channel ac)))" "unat off + length buf < 2 ^ 63"
    and data: "length data \<le> length buf"
    and call: "\<And>start m. \<lbrakk>length m = unat (dr_len (cc_data (ac_channel ac))); start + length buf \<le> length m\<rbrakk> \<Longrightarrow>
      \<exists>w'. c_pread L (set_seg k m (executor (cc_peer (ac_channel ac)))) rfd (k, start) (of_nat (length buf)) off =
        (of_nat (length data), w') \<and> seg w' k = overwrite m start data \<and> Q w'"
  obtains ac' where "client_read p [] [service_move p (PosixExecutor L) Pl k seg set_seg] fd buf off ac =
      Inr (Inr (length data, data @ drop (length data) buf), ac', [])"
    "system_idle k Pl invar (ac_channel ac')" "region_wf (cc_data (ac_channel ac'))"
    "dr_len (cc_data (ac_channel ac')) = dr_len (cc_data (ac_channel ac))"
    "fd_table (cc_peer (ac_channel ac')) = fd_table (cc_peer (ac_channel ac))"
    "next_fd (cc_peer (ac_channel ac')) = next_fd (cc_peer (ac_channel ac))"
    "Q (executor (cc_peer (ac_channel ac')))"
proof -
  let ?c = "ac_channel ac" and ?E = "PosixExecutor L"
  let ?mv = "service_move p ?E Pl k seg set_seg" and ?fds = "fd_table (cc_peer ?c)" and ?nf = "next_fd (cc_peer ?c)"
  have noone: "\<forall>x \<in> set []. unat (x :: u32) \<le> unat (dr_len (cc_data ?c))" by simp
  obtain start d where r: "client_read p [] [?mv] fd buf off ac =
       and_then (on_channel [?mv] (data_request Read (ac_next_id ac) fd off (length buf) start) (with_data d ac))
         (\<lambda>res. case res of (resp, ac2, ms) \<Rightarrow>
           if rs_status resp \<noteq> 0 then Inr (Inl (rs_status resp), ac2, ms)
           else and_then (dr_read (rs_data_offset resp) (unat (rs_data_len resp)) (cc_data (ac_channel ac2)))
             (\<lambda>data. and_then
               (if length data \<le> length buf then Inr (length data, data @ drop (length data) buf)
                else Inl Index_Range)
               (\<lambda>x. Inr (Inr x, ac2, ms))))"
    and d: "region_wf d" "dr_len d = dr_len (cc_data ?c)" "unat start + length buf \<le> unat (dr_len d)"
    by (rule client_read_sends [OF wf fit(1) noone])
  let ?r = "data_request Read (ac_next_id ac) fd off (length buf) start"
    and ?w = "set_seg k (dr_mem d) (executor (cc_peer ?c))"
    and ?resp = "\<lambda>r. (IoResponse_ok (rq_id r))\<lparr>rs_data_offset := rq_data_offset r, rs_data_len := of_nat (length data)\<rparr>"
  note n = small_len [OF wf fit(1)]
  have n64: "as_u64 (rq_len ?r) = of_nat (length buf)" using n by (simp add: word_unat_eq_iff)
  obtain w' where
    w': "c_pread L ?w rfd (k, unat start) (of_nat (length buf)) off = (of_nat (length data), w')"
      "seg w' k = overwrite (dr_mem d) (unat start) data" "Q w'"
    using call [of "dr_mem d" "unat start"] d by (auto simp: region_wf_def)
  have ans: "answer p ?E k ?r (?fds, ?nf, ?w) = Inr (?resp ?r, ?fds, ?nf, w')"
  proof (rule answer_pread [where fd = rfd])
    show "c_pread L ?w rfd (k, unat (rq_data_offset ?r)) (as_u64 (rq_len ?r)) (rq_offset ?r) = (of_nat (length data), w')"
      unfolding n64 using w'(1) by simp
  qed (use n rfd data data_request_op in simp_all)
  have fits: "range_fits p ?r" using fit(2) n by (simp add: range_fits_def)
  obtain ac' where ac': "on_channel [?mv] ?r (with_data d ac) = Inr (?resp ?r, ac', [])"
    "system_idle k Pl invar (ac_channel ac')" "core (cc_peer (ac_channel ac')) = (?fds, ?nf, w')"
    "cc_data (ac_channel ac') = d\<lparr>dr_mem := seg (executor (cc_peer (ac_channel ac'))) k\<rparr>"
    by (rule data_call_served [where set_seg = set_seg and d = d, OF idle posix_batch_executor Pl fits ans])
  have mem: "dr_mem (cc_data (ac_channel ac')) = overwrite (dr_mem d) (unat start) data"
    using ac'(3,4) w'(2) by (simp add: core_def)
  have len: "length (overwrite (dr_mem d) (unat start) data) = unat (dr_len d)"
    using d(1,3) data by (simp add: length_overwrite region_wf_def)
  have m: "unat (of_nat (length data) :: u32) = length data" using data n(3) by (simp add: unat_of_nat)
  have "dr_read start (length data) (cc_data (ac_channel ac')) = Inr data"
    using overwrite_read [of data "unat start" "dr_mem d"] data d(3) len by (simp add: dr_read_def mem)
  then have "client_read p [] [?mv] fd buf off ac = Inr (Inr (length data, data @ drop (length data) buf), ac', [])"
    using r ac'(1) m data by simp
  then show thesis
    by (rule that) (use ac'(2-4) w'(2,3) d(1,2) len in \<open>simp_all add: core_def region_wf_def\<close>)
qed

lemma client_write_served:
  assumes L: "regular_files L seg set_seg file"
    and Pl: "lone_stage (pl_add Pl) (pl_is_empty Pl) (pl_drain Pl) held invar"
    and ac: "file_open k Pl invar file fd bs ac"
    and fit: "length buf \<le> unat (dr_len (cc_data (ac_channel ac)))" "unat off + length buf < 2 ^ 63"
  shows "\<exists>ac'. client_write p [] [service_move p (PosixExecutor L) Pl k seg set_seg] fd buf off ac =
      Inr (Inr (of_nat (length buf)), ac', []) \<and>
    file_open k Pl invar file fd (overwrite bs (unat off) buf) ac' \<and>
    dr_len (cc_data (ac_channel ac')) = dr_len (cc_data (ac_channel ac))"
proof -
  let ?c = "ac_channel ac" and ?n = "of_nat (length buf) :: usize"
  obtain rfd where idle: "system_idle k Pl invar ?c" and wf: "region_wf (cc_data ?c)"
    and rfd: "fd_table (cc_peer ?c) fd = Some rfd" "file (executor (cc_peer ?c)) rfd = Some bs"
    using ac by (auto simp: file_open_def)
  note n = small_len [OF wf fit(1)]
  have "\<exists>w'. c_pwrite L (set_seg k m (executor (cc_peer ?c))) rfd (k, start) ?n off = (?n, w') \<and> seg w' k = m \<and>
      file w' rfd = Some (overwrite bs (unat off) buf)"
    if m: "length m = unat (dr_len (cc_data ?c))" "start + length buf \<le> length m"
      "take (length buf) (drop start m) = buf" for start m
  proof -
    let ?w = "set_seg k m (executor (cc_peer ?c))"
    have seg: "seg ?w k = m" "file ?w rfd = Some bs" using regular_seg [OF L] rfd(2) by simp_all
    have "buf_bytes seg ?w k start (length buf) = buf" by (simp only: buf_bytes_def seg(1) m(3))
    then show ?thesis
      using regular_pwrite [OF L seg(2), of start ?n k off] n m(2) fit(2) seg(1) by auto
  qed
  then show ?thesis
    using client_write_executed [OF Pl idle wf rfd(1) fit, where L = L and set_seg = set_seg and seg = seg
        and Q = "\<lambda>w'. file w' rfd = Some (overwrite bs (unat off) buf)" and p = p] rfd(1)
    by (simp add: file_open_def) metis
qed

text \<open>A read returns the bytes of the file in its range, fewer than asked for at the end of the file, and
  leaves the rest of the buffer.\<close>

lemma client_read_served:
  assumes L: "regular_files L seg set_seg file"
    and Pl: "lone_stage (pl_add Pl) (pl_is_empty Pl) (pl_drain Pl) held invar"
    and ac: "file_open k Pl invar file fd bs ac"
    and fit: "length buf \<le> unat (dr_len (cc_data (ac_channel ac)))" "unat off + length buf < 2 ^ 63"
    and data: "data = take (length buf) (drop (unat off) bs)"
  shows "\<exists>ac'. client_read p [] [service_move p (PosixExecutor L) Pl k seg set_seg] fd buf off ac =
      Inr (Inr (length data, data @ drop (length data) buf), ac', []) \<and>
    file_open k Pl invar file fd bs ac' \<and>
    dr_len (cc_data (ac_channel ac')) = dr_len (cc_data (ac_channel ac))"
proof -
  let ?c = "ac_channel ac" and ?n = "of_nat (length buf) :: usize"
  obtain rfd where idle: "system_idle k Pl invar ?c" and wf: "region_wf (cc_data ?c)"
    and rfd: "fd_table (cc_peer ?c) fd = Some rfd" "file (executor (cc_peer ?c)) rfd = Some bs"
    using ac by (auto simp: file_open_def)
  note n = small_len [OF wf fit(1)]
  have range: "file_range bs off ?n = data" using n by (simp add: file_range_def data)
  have "\<exists>w'. c_pread L (set_seg k m (executor (cc_peer ?c))) rfd (k, start) ?n off = (of_nat (length data), w') \<and>
      seg w' k = overwrite m start data \<and> file w' rfd = Some bs"
    if m: "length m = unat (dr_len (cc_data ?c))" "start + length buf \<le> length m" for start m
  proof -
    let ?w = "set_seg k m (executor (cc_peer ?c))"
    have seg: "seg ?w k = m" "file ?w rfd = Some bs" using regular_seg [OF L] rfd(2) by simp_all
    show ?thesis
      using regular_pread [OF L seg(2), of start ?n k off] n m(2) fit(2) seg(1) range by auto
  qed
  moreover have "length data \<le> length buf" by (simp add: data)
  ultimately show ?thesis
    using client_read_executed [OF Pl idle wf rfd(1) fit, where L = L and set_seg = set_seg and seg = seg
        and Q = "\<lambda>w'. file w' rfd = Some bs" and p = p and data = data] rfd(1)
    by (simp add: file_open_def) metis
qed

section \<open>Unknown descriptors\<close>

lemma answer_unknown:
  assumes "io_op r = Some op" "op \<noteq> Open" "fds (rq_fd r) = None"
  shows "answer p E k r (fds, nf, w) = Inr (IoResponse_err (rq_id r) (- EBADF), fds, nf, w)"
  using assms by (cases op) (simp_all add: answer_def)

lemma EBADF_status [simp]: "EBADF \<noteq> 0"
  by (simp add: EBADF_def)

text \<open>An idle system in which \<open>fd\<close> is not in the table.\<close>

definition unknown_fd ::
  "nat \<Rightarrow> 's Pipeline \<Rightarrow> ('s \<Rightarrow> bool) \<Rightarrow> u64 \<Rightarrow> ('w, 's) AtlasService AtlasClient \<Rightarrow> bool" where
  "unknown_fd k Pl invar fd ac \<longleftrightarrow> system_idle k Pl invar (ac_channel ac) \<and>
     fd_table (cc_peer (ac_channel ac)) fd = None"

lemma refused_call:
  assumes "unknown_fd k Pl invar fd ac" "batch_executor (ex_batch E)"
    and "lone_stage (pl_add Pl) (pl_is_empty Pl) (pl_drain Pl) held invar" "range_fits p r"
    and "io_op r = Some op" "op \<noteq> Open" "rq_fd r = fd"
  obtains ac' where
    "on_channel [service_move p E Pl k seg set_seg] r ac = Inr (IoResponse_err (rq_id r) (- EBADF), ac', [])"
    "unknown_fd k Pl invar fd ac'"
proof -
  have idle: "system_idle k Pl invar (ac_channel ac)" and none: "fd_table (cc_peer (ac_channel ac)) (rq_fd r) = None"
    using assms(1,7) by (simp_all add: unknown_fd_def)
  let ?a = "core (shared_service k set_seg (ac_channel ac))"
  have "answer p E k r ?a = Inr (IoResponse_err (rq_id r) (- EBADF), ?a)"
    unfolding core_shared using none by (intro answer_unknown [OF assms(5,6)])
  from on_channel_served [OF idle assms(2-4) this, of seg] obtain c' where
    "on_channel [service_move p E Pl k seg set_seg] r ac =
       Inr (IoResponse_err (rq_id r) (- EBADF), ac\<lparr>ac_channel := c'\<rparr>, [])"
    "system_idle k Pl invar c'" "core (cc_peer c') = ?a" by blast
  with none assms(7) show thesis
    by (intro that [of "ac\<lparr>ac_channel := c'\<rparr>"]) (auto simp: unknown_fd_def core_def core_shared shared_service_def)
qed

text \<open>Both stages are lone stages.\<close>

lemma lone_pass_through:
  "lone_stage (pl_add pass_through) (pl_is_empty pass_through) (pl_drain pass_through) pt_held (\<lambda>_. True)"
  using lone_passthrough.lone_stage_axioms by (simp add: pass_through_def)

lemma lone_batched_stage:
  "lone_stage (pl_add batched) (pl_is_empty batched) (pl_drain batched) bt_held bt_wf"
  using lone_batched.lone_stage_axioms by (simp add: batched_def)

end
