(* ===== verification/File_System.thy ===== *)
theory File_System
  imports Client_Service
begin

text \<open>
  What POSIX says of a directory of regular files, and the client's calls on such files through the
  service: each is the system call.
\<close>

section \<open>A directory of regular files\<close>

text \<open>The files by name, their bytes, and the open descriptors with the flags they were opened with.\<close>

record fs_view =
  fv_names :: "u8 list \<Rightarrow> nat option"
  fv_data :: "nat \<Rightarrow> u8 list"
  fv_open :: "i32 \<Rightarrow> (nat \<times> u32) option"

unbundle bit_operations_syntax

definition can_read :: "u32 \<Rightarrow> bool" where
  "can_read flags \<longleftrightarrow> flags AND 3 \<in> {O_RDONLY, O_RDWR}"

definition can_write :: "u32 \<Rightarrow> bool" where
  "can_write flags \<longleftrightarrow> flags AND 3 \<in> {O_WRONLY, O_RDWR}"

text \<open>Nothing but an access mode, \<open>O_CREAT\<close> and \<open>O_TRUNC\<close>.\<close>

definition plain_flags :: "u32 \<Rightarrow> bool" where
  "plain_flags flags \<longleftrightarrow> flags AND NOT (3 OR O_CREAT OR O_TRUNC) = 0 \<and> flags AND 3 \<noteq> 3"

definition fresh_file :: "nat \<Rightarrow> fs_view \<Rightarrow> bool" where
  "fresh_file i v \<longleftrightarrow> (\<forall>path. fv_names v path \<noteq> Some i) \<and> (\<forall>fd flags. fv_open v fd \<noteq> Some (i, flags))"

text \<open>The file that an open of a path opens, and its effect.\<close>

definition opens_file :: "u8 list \<Rightarrow> nat \<Rightarrow> fs_view \<Rightarrow> bool" where
  "opens_file path i v \<longleftrightarrow> (case fv_names v path of Some j \<Rightarrow> i = j | None \<Rightarrow> fresh_file i v)"

definition file_opened :: "u8 list \<Rightarrow> u32 \<Rightarrow> i32 \<Rightarrow> nat \<Rightarrow> fs_view \<Rightarrow> fs_view" where
  "file_opened path flags fd i v =
     v\<lparr>fv_names := (fv_names v)(path \<mapsto> i),
       fv_data := (if fv_names v path = None \<or> flags AND O_TRUNC \<noteq> 0 then (fv_data v)(i := []) else fv_data v),
       fv_open := (fv_open v)(fd \<mapsto> (i, flags))\<rparr>"

text \<open>The C library on the files \<open>paths\<close>: a directory the process may use, with room on the
  disk, no signals. The process may have \<open>room\<close> of these files open at a time. A buffer is in a mapped segment.
  (POSIX.1-2017: \<open>open\<close>, \<open>close\<close>, \<open>fsync\<close>, \<open>pwrite\<close>, \<open>pread\<close>.)\<close>

definition open_files_law ::
  "'w LibC \<Rightarrow> ('w \<Rightarrow> nat \<Rightarrow> u8 list) \<Rightarrow> ('w \<Rightarrow> fs_view) \<Rightarrow> u8 list set \<Rightarrow> nat \<Rightarrow> bool" where
  "open_files_law L seg fs paths room \<longleftrightarrow>
     (\<forall>w flags mode. \<forall>path \<in> paths. plain_flags flags \<longrightarrow> card (dom (fv_open (fs w))) < room \<longrightarrow>
        (fv_names (fs w) path \<noteq> None \<or> flags AND O_CREAT \<noteq> 0) \<longrightarrow>
        (\<exists>fd i w'. c_open L w path flags mode = (fd, w') \<and> \<not> negative fd \<and> fv_open (fs w) fd = None \<and>
           opens_file path i (fs w) \<and> seg w' = seg w \<and> fs w' = file_opened path flags fd i (fs w)))"

definition descriptor_law :: "'w LibC \<Rightarrow> ('w \<Rightarrow> nat \<Rightarrow> u8 list) \<Rightarrow> ('w \<Rightarrow> fs_view) \<Rightarrow> bool" where
  "descriptor_law L seg fs \<longleftrightarrow>
     (\<forall>w fd. fv_open (fs w) fd \<noteq> None \<longrightarrow>
        (\<exists>w'. c_close L w fd = (0, w') \<and> seg w' = seg w \<and>
           fs w' = (fs w)\<lparr>fv_open := (fv_open (fs w))(fd := None)\<rparr>) \<and>
        (\<exists>w'. c_fsync L w fd = (0, w') \<and> seg w' = seg w \<and> fs w' = fs w))"

definition transfer_law :: "'w LibC \<Rightarrow> ('w \<Rightarrow> nat \<Rightarrow> u8 list) \<Rightarrow> ('w \<Rightarrow> fs_view) \<Rightarrow> bool" where
  "transfer_law L seg fs \<longleftrightarrow>
     (\<forall>w fd i flags k b n off. fv_open (fs w) fd = Some (i, flags) \<longrightarrow> b + unat n \<le> length (seg w k) \<longrightarrow>
        unat n < 2 ^ 31 \<longrightarrow> unat off < 2 ^ 63 \<longrightarrow>
        (can_write flags \<longrightarrow>
          (\<exists>w'. c_pwrite L w fd (k, b) n off = (n, w') \<and> seg w' = seg w \<and>
             fs w' = (fs w)\<lparr>fv_data := (fv_data (fs w))
               (i := overwrite (fv_data (fs w) i) (unat off) (buf_bytes seg w k b (unat n)))\<rparr>)) \<and>
        (can_read flags \<longrightarrow>
          (\<exists>w'. c_pread L w fd (k, b) n off = (of_nat (length (file_range (fv_data (fs w) i) off n)), w') \<and>
             fs w' = fs w \<and>
             seg w' = (seg w)(k := overwrite (seg w k) b (file_range (fv_data (fs w) i) off n)))))"

definition file_directory ::
  "'w LibC \<Rightarrow> ('w \<Rightarrow> nat \<Rightarrow> u8 list) \<Rightarrow> (nat \<Rightarrow> u8 list \<Rightarrow> 'w \<Rightarrow> 'w) \<Rightarrow> ('w \<Rightarrow> fs_view) \<Rightarrow>
   u8 list set \<Rightarrow> nat \<Rightarrow> bool" where
  "file_directory L seg set_seg fs paths room \<longleftrightarrow>
     (\<forall>k m w. seg (set_seg k m w) = (seg w)(k := m) \<and> fs (set_seg k m w) = fs w) \<and>
     open_files_law L seg fs paths room \<and> descriptor_law L seg fs \<and> transfer_law L seg fs"

lemma directory_seg:
  "file_directory L seg set_seg fs paths room \<Longrightarrow> seg (set_seg k m w) = (seg w)(k := m) \<and> fs (set_seg k m w) = fs w"
  by (simp add: file_directory_def)

lemma directory_open:
  assumes "file_directory L seg set_seg fs paths room" "path \<in> paths" "plain_flags flags"
    and "card (dom (fv_open (fs w))) < room" "fv_names (fs w) path \<noteq> None \<or> flags AND O_CREAT \<noteq> 0"
  obtains fd i w' where "c_open L w path flags mode = (fd, w')" "\<not> negative fd" "fv_open (fs w) fd = None"
    "opens_file path i (fs w)" "seg w' = seg w" "fs w' = file_opened path flags fd i (fs w)"
  using assms unfolding file_directory_def open_files_law_def by blast

lemma directory_descriptor:
  assumes "file_directory L seg set_seg fs paths room" "fv_open (fs w) fd \<noteq> None"
  shows "\<exists>w'. c_close L w fd = (0, w') \<and> seg w' = seg w \<and> fs w' = (fs w)\<lparr>fv_open := (fv_open (fs w))(fd := None)\<rparr>"
    and "\<exists>w'. c_fsync L w fd = (0, w') \<and> seg w' = seg w \<and> fs w' = fs w"
  using assms unfolding file_directory_def descriptor_law_def by blast+

lemma directory_law: "file_directory L seg set_seg fs paths room \<Longrightarrow> transfer_law L seg fs"
  by (simp add: file_directory_def)

lemma transfer_lawD:
  assumes "transfer_law L seg fs" "fv_open (fs w) fd = Some (i, flags)"
    and "b + unat n \<le> length (seg w k)" "unat n < 2 ^ 31" "unat off < 2 ^ 63"
  shows "can_write flags \<Longrightarrow> \<exists>w'. c_pwrite L w fd (k, b) n off = (n, w') \<and> seg w' = seg w \<and>
      fs w' = (fs w)\<lparr>fv_data := (fv_data (fs w))
        (i := overwrite (fv_data (fs w) i) (unat off) (buf_bytes seg w k b (unat n)))\<rparr>"
    and "can_read flags \<Longrightarrow>
      \<exists>w'. c_pread L w fd (k, b) n off = (of_nat (length (file_range (fv_data (fs w) i) off n)), w') \<and> fs w' = fs w \<and>
        seg w' = (seg w)(k := overwrite (seg w k) b (file_range (fv_data (fs w) i) off n))"
proof -
  note law = assms(1) [unfolded transfer_law_def, rule_format, OF assms(2-5)]
  show "can_write flags \<Longrightarrow> \<exists>w'. c_pwrite L w fd (k, b) n off = (n, w') \<and> seg w' = seg w \<and>
      fs w' = (fs w)\<lparr>fv_data := (fv_data (fs w))
        (i := overwrite (fv_data (fs w) i) (unat off) (buf_bytes seg w k b (unat n)))\<rparr>"
    using law by blast
  show "can_read flags \<Longrightarrow>
      \<exists>w'. c_pread L w fd (k, b) n off = (of_nat (length (file_range (fv_data (fs w) i) off n)), w') \<and> fs w' = fs w \<and>
        seg w' = (seg w)(k := overwrite (seg w k) b (file_range (fv_data (fs w) i) off n))"
    using law by blast
qed

lemmas directory_transfer = transfer_lawD [OF directory_law]

subsection \<open>Without room\<close>

text \<open>The weaker contract of a directory in which opens may fail and clients may misuse a descriptor.\<close>

text \<open>A call that fails sets \<open>errno\<close> and does nothing else.\<close>

definition fails_cleanly :: "'w LibC \<Rightarrow> ('w \<Rightarrow> nat \<Rightarrow> u8 list) \<Rightarrow> ('w \<Rightarrow> fs_view) \<Rightarrow> 'w \<Rightarrow> 'w \<Rightarrow> bool" where
  "fails_cleanly L seg fs w w' \<longleftrightarrow> seg w' = seg w \<and> fs w' = fs w \<and>
     (\<exists>e. c_last_os_error L w' = Some e \<and> 0 < sint e \<and> sint e < 4096)"

text \<open>An open fails or opens the file (\<open>ENOENT\<close>, \<open>EMFILE\<close>, \<open>ENAMETOOLONG\<close> and so on are possible).\<close>

definition open_or_fail_law ::
  "'w LibC \<Rightarrow> ('w \<Rightarrow> nat \<Rightarrow> u8 list) \<Rightarrow> ('w \<Rightarrow> fs_view) \<Rightarrow> u8 list set \<Rightarrow> bool" where
  "open_or_fail_law L seg fs paths \<longleftrightarrow>
     (\<forall>w flags mode. \<forall>path \<in> paths. plain_flags flags \<longrightarrow>
        (\<exists>fd w'. c_open L w path flags mode = (fd, w') \<and>
           (if negative fd then fails_cleanly L seg fs w w'
            else fv_open (fs w) fd = None \<and> (fv_names (fs w) path \<noteq> None \<or> flags AND O_CREAT \<noteq> 0) \<and>
              (\<exists>i. opens_file path i (fs w) \<and> seg w' = seg w \<and> fs w' = file_opened path flags fd i (fs w)))))"

text \<open>\<open>EBADF\<close> for a descriptor that is not open for writing or reading.\<close>

definition refusal_law :: "'w LibC \<Rightarrow> ('w \<Rightarrow> nat \<Rightarrow> u8 list) \<Rightarrow> ('w \<Rightarrow> fs_view) \<Rightarrow> bool" where
  "refusal_law L seg fs \<longleftrightarrow>
     (\<forall>w fd i flags b n off. fv_open (fs w) fd = Some (i, flags) \<longrightarrow>
        (\<not> can_write flags \<longrightarrow>
          (\<exists>rc w'. c_pwrite L w fd b n off = (rc, w') \<and> negative rc \<and> fails_cleanly L seg fs w w')) \<and>
        (\<not> can_read flags \<longrightarrow>
          (\<exists>rc w'. c_pread L w fd b n off = (rc, w') \<and> negative rc \<and> fails_cleanly L seg fs w w')))"

definition shared_directory ::
  "'w LibC \<Rightarrow> ('w \<Rightarrow> nat \<Rightarrow> u8 list) \<Rightarrow> (nat \<Rightarrow> u8 list \<Rightarrow> 'w \<Rightarrow> 'w) \<Rightarrow> ('w \<Rightarrow> fs_view) \<Rightarrow>
   u8 list set \<Rightarrow> bool" where
  "shared_directory L seg set_seg fs paths \<longleftrightarrow>
     (\<forall>k m w. seg (set_seg k m w) = (seg w)(k := m) \<and> fs (set_seg k m w) = fs w) \<and>
     open_or_fail_law L seg fs paths \<and> descriptor_law L seg fs \<and> transfer_law L seg fs \<and> refusal_law L seg fs"

lemma shared_directoryD:
  assumes "shared_directory L seg set_seg fs paths"
  shows "seg (set_seg k m w) = (seg w)(k := m) \<and> fs (set_seg k m w) = fs w" "open_or_fail_law L seg fs paths"
    "descriptor_law L seg fs" "transfer_law L seg fs" "refusal_law L seg fs"
  using assms by (simp_all add: shared_directory_def)

section \<open>The client's calls\<close>

text \<open>An idle system whose executor works on such files: the view, the descriptor table and the counter.\<close>

definition serving_files ::
  "nat \<Rightarrow> 's Pipeline \<Rightarrow> ('s \<Rightarrow> bool) \<Rightarrow> ('w \<Rightarrow> fs_view) \<Rightarrow> ('w, 's) AtlasService AtlasClient \<Rightarrow>
   fs_view \<Rightarrow> (u64 \<Rightarrow> i32 option) \<Rightarrow> u64 \<Rightarrow> bool" where
  "serving_files k Pl invar fs ac v fds nf \<longleftrightarrow> system_idle k Pl invar (ac_channel ac) \<and>
     region_wf (cc_data (ac_channel ac)) \<and> dr_len (cc_data (ac_channel ac)) = DATA_REGION_SIZE \<and>
     fs (executor (cc_peer (ac_channel ac))) = v \<and> fd_table (cc_peer (ac_channel ac)) = fds \<and>
     next_fd (cc_peer (ac_channel ac)) = nf"

lemma serving_filesD:
  assumes "serving_files k Pl invar fs ac v fds nf"
  shows "system_idle k Pl invar (ac_channel ac)" "region_wf (cc_data (ac_channel ac))"
    "dr_len (cc_data (ac_channel ac)) = DATA_REGION_SIZE" "fs (executor (cc_peer (ac_channel ac))) = v"
    "fd_table (cc_peer (ac_channel ac)) = fds" "next_fd (cc_peer (ac_channel ac)) = nf"
  using assms by (simp_all add: serving_files_def)

text \<open>A path that fits the request.\<close>

definition good_path :: "u8 list \<Rightarrow> bool" where
  "good_path path \<longleftrightarrow> utf8_valid path \<and> 0 \<notin> set path \<and> length path \<le> 255"

lemma file_open_call:
  assumes L: "file_directory L seg set_seg fs paths room"
    and Pl: "lone_stage (pl_add Pl) (pl_is_empty Pl) (pl_drain Pl) held invar"
    and r: "serving_files k Pl invar fs ac v fds nf"
    and path: "path \<in> paths" "good_path path" "plain_flags flags" "fv_names v path \<noteq> None \<or> flags AND O_CREAT \<noteq> 0"
    and room: "card (dom (fv_open v)) < room" and nf: "unat nf < 2 ^ 64 - 1"
  obtains ac' rfd i where
    "client_open [service_move p (PosixExecutor L) Pl k seg set_seg] path flags ac = Inr (Inr nf, ac', [])"
    "serving_files k Pl invar fs ac' (file_opened path flags rfd i v) (fds(nf \<mapsto> rfd)) (nf + 1)"
    "opens_file path i v" "fv_open v rfd = None"
proof -
  let ?c = "ac_channel ac" and ?E = "PosixExecutor L"
  note rd = serving_filesD [OF r]
  let ?w = "set_seg k (dr_mem (cc_data ?c)) (executor (cc_peer ?c))"
  have w: "seg ?w k = dr_mem (cc_data ?c)" "fs ?w = v" using directory_seg [OF L] rd(4) by simp_all
  obtain rfd i w' where o: "c_open L ?w path flags 420 = (rfd, w')" "\<not> negative rfd" "fv_open v rfd = None"
    "opens_file path i v" "seg w' = seg ?w" "fs w' = file_opened path flags rfd i v"
    using directory_open [OF L path(1,3), where w = ?w and mode = 420] path(4) room unfolding w(2) by metis
  have sint: "sint (i32_as_i64 rfd) = sint rfd" by (rule sint_i32_as_i64)
  have ex: "ex_open ?E (executor (shared_service k set_seg ?c)) path flags 420 = (i32_as_i64 rfd, w')"
    using o(1,2) path(2) by (simp add: PosixExecutor_def posix_open_def shared_service_def good_path_def)
  have "i64_as_i32 (i32_as_i64 rfd) \<noteq> 0 \<or> \<not> negative (i32_as_i64 rfd)" using o(2) sint by simp
  moreover have "utf8_valid path" "0 \<notin> set path" "length path \<le> 255" using path(2) by (simp_all add: good_path_def)
  ultimately obtain res ac' where
    a: "client_open [service_move p ?E Pl k seg set_seg] path flags ac = Inr (res, ac', [])"
      "system_idle k Pl invar (ac_channel ac')" "cc_data (ac_channel ac') = (cc_data ?c)\<lparr>dr_mem := seg w' k\<rparr>"
      "executor (cc_peer (ac_channel ac')) = w'"
    and b: "if negative (i32_as_i64 rfd)
     then res = Inl (i64_as_i32 (i32_as_i64 rfd)) \<and> fd_table (cc_peer (ac_channel ac')) = fds \<and>
       next_fd (cc_peer (ac_channel ac')) = nf
     else res = Inr nf \<and> fd_table (cc_peer (ac_channel ac')) = fds(nf \<mapsto> i64_as_i32 (i32_as_i64 rfd)) \<and>
       next_fd (cc_peer (ac_channel ac')) = nf + 1"
    using client_open_executed [OF rd(1) posix_batch_executor Pl _ _ _ ex, where p = p and seg = seg] nf
    unfolding rd(5,6) by blast
  have "region_wf (cc_data (ac_channel ac'))" using rd(2) a(3) o(5) w(1) by (simp add: region_wf_def)
  with a b o sint rd(3) show thesis by (intro that [of ac' rfd i]) (simp_all add: serving_files_def i32_as_i64_back)
qed

lemma file_close_call:
  assumes L: "file_directory L seg set_seg fs paths room"
    and Pl: "lone_stage (pl_add Pl) (pl_is_empty Pl) (pl_drain Pl) held invar"
    and r: "serving_files k Pl invar fs ac v fds nf" and fd: "fds fd = Some rfd" "fv_open v rfd \<noteq> None"
  obtains ac' where "client_close [service_move p (PosixExecutor L) Pl k seg set_seg] fd ac = Inr (Inr (), ac', [])"
    "serving_files k Pl invar fs ac' (v\<lparr>fv_open := (fv_open v)(rfd := None)\<rparr>) (fds(fd := None)) nf"
proof -
  let ?c = "ac_channel ac"
  note rd = serving_filesD [OF r]
  let ?w = "set_seg k (dr_mem (cc_data ?c)) (executor (cc_peer ?c))"
  have w: "seg ?w k = dr_mem (cc_data ?c)" "fs ?w = v" using directory_seg [OF L] rd(4) by simp_all
  obtain w' where w': "c_close L ?w rfd = (0, w')" "seg w' = seg ?w" "fs w' = v\<lparr>fv_open := (fv_open v)(rfd := None)\<rparr>"
    using directory_descriptor(1) [OF L, of ?w rfd] fd(2) unfolding w(2) by blast
  have tab: "fd_table (cc_peer ?c) fd = Some rfd" using fd(1) rd(5) by simp
  from client_close_executed [where L = L and set_seg = set_seg and seg = seg and k = k and p = p,
      OF Pl rd(1) tab w'(1)] obtain ac' where
    "client_close [service_move p (PosixExecutor L) Pl k seg set_seg] fd ac = Inr (Inr (), ac', [])"
    "system_idle k Pl invar (ac_channel ac')" "core (cc_peer (ac_channel ac')) = (fds(fd := None), nf, w')"
    "cc_data (ac_channel ac') = (cc_data ?c)\<lparr>dr_mem := seg w' k\<rparr>"
    unfolding rd(5,6) by blast
  then show thesis
    using w w' rd(2,3) by (intro that [of ac']) (auto simp: serving_files_def core_def region_wf_def)
qed

lemma file_sync_call:
  assumes L: "file_directory L seg set_seg fs paths room"
    and Pl: "lone_stage (pl_add Pl) (pl_is_empty Pl) (pl_drain Pl) held invar"
    and r: "serving_files k Pl invar fs ac v fds nf" and fd: "fds fd = Some rfd" "fv_open v rfd \<noteq> None"
  obtains ac' where "client_sync [service_move p (PosixExecutor L) Pl k seg set_seg] fd ac = Inr (Inr (), ac', [])"
    "serving_files k Pl invar fs ac' v fds nf"
proof -
  let ?c = "ac_channel ac"
  note rd = serving_filesD [OF r]
  let ?w = "set_seg k (dr_mem (cc_data ?c)) (executor (cc_peer ?c))"
  have w: "seg ?w k = dr_mem (cc_data ?c)" "fs ?w = v" using directory_seg [OF L] rd(4) by simp_all
  obtain w' where w': "c_fsync L ?w rfd = (0, w')" "seg w' = seg ?w" "fs w' = v"
    using directory_descriptor(2) [OF L, of ?w rfd] fd(2) unfolding w(2) by blast
  have tab: "fd_table (cc_peer ?c) fd = Some rfd" using fd(1) rd(5) by simp
  from client_sync_executed [where L = L and set_seg = set_seg and seg = seg and k = k and p = p,
      OF Pl rd(1) tab w'(1)] obtain ac' where
    "client_sync [service_move p (PosixExecutor L) Pl k seg set_seg] fd ac = Inr (Inr (), ac', [])"
    "system_idle k Pl invar (ac_channel ac')" "core (cc_peer (ac_channel ac')) = (fds, nf, w')"
    "cc_data (ac_channel ac') = (cc_data ?c)\<lparr>dr_mem := seg w' k\<rparr>"
    unfolding rd(5,6) by blast
  then show thesis
    using w w' rd(2,3) by (intro that [of ac']) (auto simp: serving_files_def core_def region_wf_def)
qed

lemma file_write_call:
  assumes L: "file_directory L seg set_seg fs paths room"
    and Pl: "lone_stage (pl_add Pl) (pl_is_empty Pl) (pl_drain Pl) held invar"
    and r: "serving_files k Pl invar fs ac v fds nf"
    and fd: "fds fd = Some rfd" "fv_open v rfd = Some (i, flags)" "can_write flags"
    and fit: "length buf \<le> unat DATA_REGION_SIZE" "unat off + length buf < 2 ^ 63"
  obtains ac' where "client_write p [] [service_move p (PosixExecutor L) Pl k seg set_seg] fd buf off ac =
      Inr (Inr (of_nat (length buf)), ac', [])"
    "serving_files k Pl invar fs ac' (v\<lparr>fv_data := (fv_data v)(i := overwrite (fv_data v i) (unat off) buf)\<rparr>) fds nf"
proof -
  let ?c = "ac_channel ac" and ?n = "of_nat (length buf) :: usize"
  let ?v = "v\<lparr>fv_data := (fv_data v)(i := overwrite (fv_data v i) (unat off) buf)\<rparr>"
  note rd = serving_filesD [OF r]
  have len: "length buf \<le> unat (dr_len (cc_data ?c))" using fit(1) rd(3) by simp
  note n = small_len [OF rd(2) len]
  have call: "\<exists>w'. c_pwrite L (set_seg k m (executor (cc_peer ?c))) rfd (k, start) ?n off = (?n, w') \<and> seg w' k = m \<and> fs w' = ?v"
    if m: "length m = unat (dr_len (cc_data ?c))" "start + length buf \<le> length m"
      "take (length buf) (drop start m) = buf" for start m
  proof -
    let ?w = "set_seg k m (executor (cc_peer ?c))"
    have w: "seg ?w k = m" "fs ?w = v" using directory_seg [OF L] rd(4) by simp_all
    have "buf_bytes seg ?w k start (length buf) = buf" by (simp only: buf_bytes_def w(1) m(3))
    then show ?thesis
      using directory_transfer(1) [OF L, of ?w rfd i flags start ?n k off] fd(2,3) n m(2) fit(2) w by auto
  qed
  have tab: "fd_table (cc_peer ?c) fd = Some rfd" using fd(1) rd(5) by simp
  show thesis
    by (rule client_write_executed [OF Pl rd(1,2) tab len fit(2), where L = L and set_seg = set_seg
          and seg = seg and Q = "\<lambda>w'. fs w' = ?v" and p = p])
      (erule (2) call, rule that, assumption, simp add: serving_files_def rd)
qed

lemma file_read_call:
  assumes L: "file_directory L seg set_seg fs paths room"
    and Pl: "lone_stage (pl_add Pl) (pl_is_empty Pl) (pl_drain Pl) held invar"
    and r: "serving_files k Pl invar fs ac v fds nf"
    and fd: "fds fd = Some rfd" "fv_open v rfd = Some (i, flags)" "can_read flags"
    and fit: "length buf \<le> unat DATA_REGION_SIZE" "unat off + length buf < 2 ^ 63"
    and data: "data = take (length buf) (drop (unat off) (fv_data v i))"
  obtains ac' where "client_read p [] [service_move p (PosixExecutor L) Pl k seg set_seg] fd buf off ac =
      Inr (Inr (length data, data @ drop (length data) buf), ac', [])"
    "serving_files k Pl invar fs ac' v fds nf"
proof -
  let ?c = "ac_channel ac" and ?n = "of_nat (length buf) :: usize"
  note rd = serving_filesD [OF r]
  have len: "length buf \<le> unat (dr_len (cc_data ?c))" using fit(1) rd(3) by simp
  note n = small_len [OF rd(2) len]
  have range: "file_range (fv_data v i) off ?n = data" using n by (simp add: file_range_def data)
  have call: "\<exists>w'. c_pread L (set_seg k m (executor (cc_peer ?c))) rfd (k, start) ?n off = (of_nat (length data), w') \<and>
      seg w' k = overwrite m start data \<and> fs w' = v"
    if m: "length m = unat (dr_len (cc_data ?c))" "start + length buf \<le> length m" for start m
  proof -
    let ?w = "set_seg k m (executor (cc_peer ?c))"
    have w: "seg ?w k = m" "fs ?w = v" using directory_seg [OF L] rd(4) by simp_all
    show ?thesis
      using directory_transfer(2) [OF L, of ?w rfd i flags start ?n k off] fd(2,3) n m(2) fit(2) w range by auto
  qed
  have small: "length data \<le> length buf" by (simp add: data)
  have tab: "fd_table (cc_peer ?c) fd = Some rfd" using fd(1) rd(5) by simp
  show thesis
    by (rule client_read_executed [OF Pl rd(1,2) tab len fit(2) small, where L = L and set_seg = set_seg
          and seg = seg and Q = "\<lambda>w'. fs w' = v" and p = p])
      (erule (1) call, rule that, assumption, simp add: serving_files_def rd)
qed

end
