(* ===== verification/Own_Files.thy ===== *)
theory Own_Files
  imports Concurrent_Properties File_System
begin

text \<open>
  Concurrent clients that each work on a file of their own, as in the test \<open>multi_instance_concurrent\<close>:
  what a client sees is what it would see if it were alone with its file. A lone client is a small
  specification of its own (\<open>solo\<close>), which knows nothing of the service, of descriptors of the operating
  system or of other clients.
\<close>

unbundle bit_operations_syntax

section \<open>A client alone with its file\<close>

text \<open>The bytes of the file (\<open>None\<close> before it exists), the descriptors with their flags, the data region.\<close>

record solo =
  so_file :: "u8 list option"
  so_fds :: "u64 \<Rightarrow> u32 option"
  so_mem :: "u8 list"

text \<open>What a response to a request tells a lone client to have happened; \<open>None\<close> if a lone client cannot get it.
  Only an open may fail without the client's fault.\<close>

definition solo_open :: "IoRequest \<Rightarrow> IoResponse \<Rightarrow> solo \<Rightarrow> solo option" where
  "solo_open r resp s =
     (if rs_status resp \<noteq> 0 then Some s
      else if so_file s = None \<and> rq_len r AND O_CREAT = 0 \<or> so_fds s (rs_fd resp) \<noteq> None then None
      else Some (s\<lparr>so_file := Some (if rq_len r AND O_TRUNC \<noteq> 0 then [] else (case so_file s of None \<Rightarrow> [] | Some bs \<Rightarrow> bs)),
        so_fds := (so_fds s)(rs_fd resp \<mapsto> rq_len r)\<rparr>))"

definition solo_write :: "IoRequest \<Rightarrow> IoResponse \<Rightarrow> u32 \<Rightarrow> u8 list \<Rightarrow> solo \<Rightarrow> solo option" where
  "solo_write r resp flags bs s =
     (if \<not> can_write flags then if rs_status resp \<noteq> 0 then Some s else None
      else if rs_status resp = 0 \<and> rs_data_len resp = rq_len r then
        Some (s\<lparr>so_file := Some (overwrite bs (unat (rq_offset r))
          (take (unat (rq_len r)) (drop (unat (rq_data_offset r)) (so_mem s))))\<rparr>)
      else None)"

definition solo_read :: "IoRequest \<Rightarrow> IoResponse \<Rightarrow> u32 \<Rightarrow> u8 list \<Rightarrow> solo \<Rightarrow> solo option" where
  "solo_read r resp flags bs s =
     (if \<not> can_read flags then if rs_status resp \<noteq> 0 then Some s else None
      else let data = take (unat (rq_len r)) (drop (unat (rq_offset r)) bs) in
        if rs_status resp = 0 \<and> rs_data_offset resp = rq_data_offset r \<and> unat (rs_data_len resp) = length data then
          Some (s\<lparr>so_mem := overwrite (so_mem s) (unat (rq_data_offset r)) data\<rparr>)
        else None)"

definition solo_answer :: "IoRequest \<Rightarrow> IoResponse \<Rightarrow> solo \<Rightarrow> solo option" where
  "solo_answer r resp s =
     (case io_op r of
        None \<Rightarrow> if rs_status resp \<noteq> 0 then Some s else None
      | Some Open \<Rightarrow> solo_open r resp s
      | Some op \<Rightarrow>
          (case (so_fds s (rq_fd r), so_file s) of
             (Some flags, Some bs) \<Rightarrow>
               (case op of
                  Write \<Rightarrow> solo_write r resp flags bs s
                | Read \<Rightarrow> solo_read r resp flags bs s
                | Sync \<Rightarrow> if resp = IoResponse_ok (rq_id r) then Some s else None
                | _ \<Rightarrow> if resp = IoResponse_ok (rq_id r) then Some (s\<lparr>so_fds := (so_fds s)(rq_fd r := None)\<rparr>) else None)
           | _ \<Rightarrow> None))"

text \<open>A client's part of a trace, replayed alone.\<close>

definition solo_event :: "nat \<Rightarrow> event \<Rightarrow> solo \<Rightarrow> solo option" where
  "solo_event k e s =
     (case e of
        Stores j store \<Rightarrow> Some (if j = k then s\<lparr>so_mem := store (so_mem s)\<rparr> else s)
      | Answers j r resp \<Rightarrow> if j = k then solo_answer r resp s else Some s
      | _ \<Rightarrow> Some s)"

primrec solo_run :: "nat \<Rightarrow> event list \<Rightarrow> solo \<Rightarrow> solo option" where
  "solo_run k [] s = Some s"
| "solo_run k (e # tr) s = Option.bind (solo_event k e s) (solo_run k tr)"

lemma solo_run_snoc: "solo_run k (tr @ [e]) s = Option.bind (solo_run k tr s) (solo_event k e)"
  by (induction tr arbitrary: s) (auto split: bind_splits)

text \<open>A client's requests: opens of its own file with plain flags, data in its region.\<close>

definition own_request :: "nat \<Rightarrow> u8 list \<Rightarrow> IoRequest \<Rightarrow> bool" where
  "own_request sz path r \<longleftrightarrow>
     (io_op r = Some Open \<longrightarrow> path_str r = path \<and> plain_flags (rq_len r)) \<and>
     (io_op r \<in> {Some Read, Some Write} \<longrightarrow>
        unat (rq_data_offset r) + unat (rq_len r) \<le> sz \<and> unat (rq_len r) < 2 ^ 31 \<and> unat (rq_offset r) < 2 ^ 63)"

section \<open>The clients' views of the system\<close>

text \<open>The lone clients \<open>\<sigma>\<close> together describe the system: each file, each region, each descriptor.\<close>

definition solo_views ::
  "('w \<Rightarrow> nat \<Rightarrow> u8 list) \<Rightarrow> ('w \<Rightarrow> fs_view) \<Rightarrow> (nat \<Rightarrow> u8 list) \<Rightarrow> 'w core \<Rightarrow> (nat \<Rightarrow> solo) \<Rightarrow> bool" where
  "solo_views seg fs path c \<sigma> \<longleftrightarrow>
     (case c of (fds, nf, w) \<Rightarrow>
        (\<forall>k. so_mem (\<sigma> k) = seg w k) \<and>
        (\<forall>k. so_file (\<sigma> k) = map_option (fv_data (fs w)) (fv_names (fs w) (path k))) \<and>
        (\<forall>k u flags. so_fds (\<sigma> k) u = Some flags \<longrightarrow>
          (\<exists>rfd i. fds u = Some rfd \<and> fv_open (fs w) rfd = Some (i, flags) \<and> fv_names (fs w) (path k) = Some i)) \<and>
        (\<forall>j k u. so_fds (\<sigma> j) u \<noteq> None \<longrightarrow> so_fds (\<sigma> k) u \<noteq> None \<longrightarrow> j = k) \<and>
        (\<forall>u v rfd. fds u = Some rfd \<longrightarrow> fds v = Some rfd \<longrightarrow> u = v) \<and>
        (\<forall>u rfd. fds u = Some rfd \<longrightarrow> fv_open (fs w) rfd \<noteq> None \<and> u < nf) \<and>
        (\<forall>j k i. fv_names (fs w) (path j) = Some i \<longrightarrow> fv_names (fs w) (path k) = Some i \<longrightarrow> j = k))"

lemma solo_viewsD:
  assumes "solo_views seg fs path (fds, nf, w) \<sigma>"
  shows "so_mem (\<sigma> k) = seg w k"
    "so_file (\<sigma> k) = map_option (fv_data (fs w)) (fv_names (fs w) (path k))"
    "so_fds (\<sigma> k) u = Some flags \<Longrightarrow>
      \<exists>rfd i. fds u = Some rfd \<and> fv_open (fs w) rfd = Some (i, flags) \<and> fv_names (fs w) (path k) = Some i"
    "so_fds (\<sigma> j) u \<noteq> None \<Longrightarrow> so_fds (\<sigma> k) u \<noteq> None \<Longrightarrow> j = k"
    "fds u = Some rfd \<Longrightarrow> fds v = Some rfd \<Longrightarrow> u = v"
    "fds u = Some rfd \<Longrightarrow> fv_open (fs w) rfd \<noteq> None \<and> u < nf"
    "fv_names (fs w) (path j) = Some i \<Longrightarrow> fv_names (fs w) (path k) = Some i \<Longrightarrow> j = k"
proof -
  note all = assms [unfolded solo_views_def prod.case]
  show "so_mem (\<sigma> k) = seg w k" using all by blast
  show "so_file (\<sigma> k) = map_option (fv_data (fs w)) (fv_names (fs w) (path k))" using all by blast
  show "so_fds (\<sigma> k) u = Some flags \<Longrightarrow>
      \<exists>rfd i. fds u = Some rfd \<and> fv_open (fs w) rfd = Some (i, flags) \<and> fv_names (fs w) (path k) = Some i"
    using all by blast
  show "so_fds (\<sigma> j) u \<noteq> None \<Longrightarrow> so_fds (\<sigma> k) u \<noteq> None \<Longrightarrow> j = k" using all by blast
  show "fds u = Some rfd \<Longrightarrow> fds v = Some rfd \<Longrightarrow> u = v" using all by blast
  show "fds u = Some rfd \<Longrightarrow> fv_open (fs w) rfd \<noteq> None \<and> u < nf" using all by blast
  show "fv_names (fs w) (path j) = Some i \<Longrightarrow> fv_names (fs w) (path k) = Some i \<Longrightarrow> j = k" using all by blast
qed

lemma solo_viewsI:
  assumes "\<And>k. so_mem (\<sigma> k) = seg w k"
    and "\<And>k. so_file (\<sigma> k) = map_option (fv_data (fs w)) (fv_names (fs w) (path k))"
    and "\<And>k u flags. so_fds (\<sigma> k) u = Some flags \<Longrightarrow>
      \<exists>rfd i. fds u = Some rfd \<and> fv_open (fs w) rfd = Some (i, flags) \<and> fv_names (fs w) (path k) = Some i"
    and "\<And>j k u. so_fds (\<sigma> j) u \<noteq> None \<Longrightarrow> so_fds (\<sigma> k) u \<noteq> None \<Longrightarrow> j = k"
    and "\<And>u v rfd. fds u = Some rfd \<Longrightarrow> fds v = Some rfd \<Longrightarrow> u = v"
    and "\<And>u rfd. fds u = Some rfd \<Longrightarrow> fv_open (fs w) rfd \<noteq> None \<and> u < nf"
    and "\<And>j k i. fv_names (fs w) (path j) = Some i \<Longrightarrow> fv_names (fs w) (path k) = Some i \<Longrightarrow> j = k"
  shows "solo_views seg fs path (fds, nf, w) \<sigma>"
  unfolding solo_views_def prod.case by (intro conjI allI impI assms)

lemma views_region:
  assumes v: "solo_views seg fs path (fds, nf, w) \<sigma>" and w': "fs w' = fs w" "seg w' = (seg w)(k := m)"
  shows "solo_views seg fs path (fds, nf, w') (\<sigma>(k := (\<sigma> k)\<lparr>so_mem := m\<rparr>))"
proof -
  let ?\<sigma> = "\<sigma>(k := (\<sigma> k)\<lparr>so_mem := m\<rparr>)"
  have mem: "so_mem (?\<sigma> j) = seg w' j" for j using solo_viewsD(1) [OF v] w'(2) by simp
  have same: "so_file (?\<sigma> j) = so_file (\<sigma> j)" "so_fds (?\<sigma> j) = so_fds (\<sigma> j)" for j by simp_all
  show ?thesis
    by (rule solo_viewsI; (unfold same w'(1))?)
      (rule mem | rule solo_viewsD(2) [OF v] | erule solo_viewsD(3,6) [OF v] | erule (1) solo_viewsD(4,5,7) [OF v])+
qed

lemma views_same:
  assumes "solo_views seg fs path (fds, nf, w) \<sigma>" "fs w' = fs w" "seg w' = seg w"
  shows "solo_views seg fs path (fds, nf, w') \<sigma>"
  using assms(1) unfolding solo_views_def prod.case assms(2,3) .

lemma views_write:
  assumes v: "solo_views seg fs path (fds, nf, w) \<sigma>" and i: "fv_names (fs w) (path k) = Some i"
    and w': "fs w' = (fs w)\<lparr>fv_data := (fv_data (fs w))(i := bs)\<rparr>" "seg w' = seg w"
  shows "solo_views seg fs path (fds, nf, w') (\<sigma>(k := (\<sigma> k)\<lparr>so_file := Some bs\<rparr>))"
proof -
  let ?\<sigma> = "\<sigma>(k := (\<sigma> k)\<lparr>so_file := Some bs\<rparr>)"
  have other: "so_file (\<sigma> j) = map_option ((fv_data (fs w))(i := bs)) (fv_names (fs w) (path j))" if "j \<noteq> k" for j
    using solo_viewsD(2) [OF v, of j] solo_viewsD(7) [OF v i, of j] that
    by (cases "fv_names (fs w) (path j)") auto
  have bytes: "so_file (?\<sigma> j) = map_option ((fv_data (fs w))(i := bs)) (fv_names (fs w) (path j))" for j
    using i other by (cases "j = k") simp_all
  have same: "so_mem (?\<sigma> j) = so_mem (\<sigma> j)" "so_fds (?\<sigma> j) = so_fds (\<sigma> j)" for j by simp_all
  have fsw: "fv_names (fs w') = fv_names (fs w)" "fv_open (fs w') = fv_open (fs w)"
    "fv_data (fs w') = (fv_data (fs w))(i := bs)" using w'(1) by simp_all
  show ?thesis
    by (rule solo_viewsI; (unfold same fsw w'(2))?)
      (rule bytes | rule solo_viewsD(1) [OF v] | erule solo_viewsD(3,6) [OF v] | erule (1) solo_viewsD(4,5,7) [OF v])+
qed

lemma views_close:
  assumes v: "solo_views seg fs path (fds, nf, w) \<sigma>" and u: "so_fds (\<sigma> k) u \<noteq> None" and rfd: "fds u = Some rfd"
    and w': "fs w' = (fs w)\<lparr>fv_open := (fv_open (fs w))(rfd := None)\<rparr>" "seg w' = seg w"
  shows "solo_views seg fs path (fds(u := None), nf, w') (\<sigma>(k := (\<sigma> k)\<lparr>so_fds := (so_fds (\<sigma> k))(u := None)\<rparr>))"
proof -
  let ?\<sigma> = "\<sigma>(k := (\<sigma> k)\<lparr>so_fds := (so_fds (\<sigma> k))(u := None)\<rparr>)"
  have fsw: "fv_names (fs w') = fv_names (fs w)" "fv_open (fs w') = (fv_open (fs w))(rfd := None)"
    "fv_data (fs w') = fv_data (fs w)" using w'(1) by simp_all
  have less: "so_fds (\<sigma> j) x = Some flags \<and> x \<noteq> u" if "so_fds (?\<sigma> j) x = Some flags" for j x flags
    using that solo_viewsD(4) [OF v u, of j] by (cases "j = k") (auto split: if_splits)
  show ?thesis
  proof (rule solo_viewsI)
    show "so_mem (?\<sigma> j) = seg w' j" for j using solo_viewsD(1) [OF v, of j] w'(2) by (cases "j = k") simp_all
    show "so_file (?\<sigma> j) = map_option (fv_data (fs w')) (fv_names (fs w') (path j))" for j
      using solo_viewsD(2) [OF v, of j] by (cases "j = k") (simp_all add: fsw)
  next
    fix j x flags assume "so_fds (?\<sigma> j) x = Some flags"
    note l = less [OF this]
    obtain r i where "fds x = Some r" "fv_open (fs w) r = Some (i, flags)" "fv_names (fs w) (path j) = Some i"
      using solo_viewsD(3) [OF v conjunct1 [OF l]] by blast
    with l solo_viewsD(5) [OF v rfd, of x] show "\<exists>r i. (fds(u := None)) x = Some r \<and>
        fv_open (fs w') r = Some (i, flags) \<and> fv_names (fs w') (path j) = Some i"
      by (auto simp: fsw)
  next
    fix j l x assume "so_fds (?\<sigma> j) x \<noteq> None" "so_fds (?\<sigma> l) x \<noteq> None"
    then have "so_fds (\<sigma> j) x \<noteq> None" "so_fds (\<sigma> l) x \<noteq> None" using less by blast+
    then show "j = l" by (rule solo_viewsD(4) [OF v])
  next
    fix x y r assume "(fds(u := None)) x = Some r" "(fds(u := None)) y = Some r"
    then show "x = y" using solo_viewsD(5) [OF v, of x r y] by (simp split: if_splits)
  next
    fix x r assume "(fds(u := None)) x = Some r"
    then have "fds x = Some r" "x \<noteq> u" by (simp_all split: if_splits)
    with solo_viewsD(5) [OF v rfd, of x] solo_viewsD(6) [OF v, of x r]
    show "fv_open (fs w') r \<noteq> None \<and> x < nf" by (auto simp: fsw)
  next
    fix j l i assume "fv_names (fs w') (path j) = Some i" "fv_names (fs w') (path l) = Some i"
    then show "j = l" unfolding fsw by (rule solo_viewsD(7) [OF v])
  qed
qed

lemma views_open:
  assumes v: "solo_views seg fs path (fds, nf, w) \<sigma>" and path: "inj path" and small: "unat nf + 1 < 2 ^ 64"
    and o: "fv_open (fs w) rfd = None" "opens_file (path k) i (fs w)"
    and w': "fs w' = file_opened (path k) flags rfd i (fs w)" "seg w' = seg w"
  shows "solo_views seg fs path (fds(nf \<mapsto> rfd), nf + 1, w') (\<sigma>(k := (\<sigma> k)
      \<lparr>so_file := Some (if flags AND O_TRUNC \<noteq> 0 then [] else case so_file (\<sigma> k) of None \<Rightarrow> [] | Some bs \<Rightarrow> bs),
       so_fds := (so_fds (\<sigma> k))(nf \<mapsto> flags)\<rparr>))"
    and "so_fds (\<sigma> j) nf = None"
proof -
  let ?new = "(\<sigma> k)\<lparr>so_file := Some (if flags AND O_TRUNC \<noteq> 0 then [] else case so_file (\<sigma> k) of None \<Rightarrow> [] | Some bs \<Rightarrow> bs),
       so_fds := (so_fds (\<sigma> k))(nf \<mapsto> flags)\<rparr>"
  let ?\<sigma> = "\<sigma>(k := ?new)" and ?n = "fv_names (fs w)" and ?d = "fv_data (fs w)"
  have fsw: "fv_names (fs w') = ?n(path k \<mapsto> i)" "fv_open (fs w') = (fv_open (fs w))(rfd \<mapsto> (i, flags))"
    "fv_data (fs w') = (if ?n (path k) = None \<or> flags AND O_TRUNC \<noteq> 0 then ?d(i := []) else ?d)"
    using w'(1) by (simp_all add: file_opened_def)
  have lt: "nf < nf + 1" using small unat_add_no_overflow [of nf 1] by (simp add: word_less_nat_alt)
  have free: "fds nf = None"
    using solo_viewsD(6) [OF v, of nf] by (cases "fds nf") auto
  have unused: "so_fds (\<sigma> j) nf = None" for j
    using solo_viewsD(3) [OF v, of j nf] free by (cases "so_fds (\<sigma> j) nf") auto
  then show "so_fds (\<sigma> j) nf = None" .
  have apart: "path j \<noteq> path k" if "j \<noteq> k" for j using path that by (auto dest: injD)
  have mine: "j = k" if "?n (path j) = Some i" for j
    using that o(2) solo_viewsD(7) [OF v, of j i k] by (cases "?n (path k)") (auto simp: opens_file_def fresh_file_def)
  have known: "?n (path k) = Some i \<or> ?n (path k) = None"
    using o(2) by (cases "?n (path k)") (auto simp: opens_file_def)
  show "solo_views seg fs path (fds(nf \<mapsto> rfd), nf + 1, w') ?\<sigma>"
  proof (rule solo_viewsI)
    show "so_mem (?\<sigma> j) = seg w' j" for j using solo_viewsD(1) [OF v, of j] w'(2) by (cases "j = k") simp_all
  next
    fix j
    show "so_file (?\<sigma> j) = map_option (fv_data (fs w')) (fv_names (fs w') (path j))"
    proof (cases "j = k")
      case True
      then show ?thesis using solo_viewsD(2) [OF v, of k] known by (auto simp: fsw)
    next
      case False
      then have "?n (path j) \<noteq> Some i" using mine by blast
      then show ?thesis
        using solo_viewsD(2) [OF v, of j] False apart [OF False] by (cases "?n (path j)") (auto simp: fsw)
    qed
  next
    fix j x f assume x: "so_fds (?\<sigma> j) x = Some f"
    show "\<exists>r i'. (fds(nf \<mapsto> rfd)) x = Some r \<and> fv_open (fs w') r = Some (i', f) \<and> fv_names (fs w') (path j) = Some i'"
    proof (cases "x = nf")
      case True
      then show ?thesis using x unused by (cases "j = k") (auto simp: fsw)
    next
      case False
      then have "so_fds (\<sigma> j) x = Some f" using x by (cases "j = k") simp_all
      from solo_viewsD(3) [OF v this] obtain r i' where
        r: "fds x = Some r" "fv_open (fs w) r = Some (i', f)" "?n (path j) = Some i'" by blast
      have "r \<noteq> rfd" using r(2) o(1) by auto
      moreover have "fv_names (fs w') (path j) = Some i'"
        using r(3) known apart [of j] by (cases "j = k") (auto simp: fsw)
      ultimately show ?thesis using r False by (auto simp: fsw)
    qed
  next
    fix j l x assume "so_fds (?\<sigma> j) x \<noteq> None" "so_fds (?\<sigma> l) x \<noteq> None"
    then show "j = l"
      using solo_viewsD(4) [OF v, of j x l] unused
      by (cases "x = nf"; cases "j = k"; cases "l = k") simp_all
  next
    fix x y r assume xy: "(fds(nf \<mapsto> rfd)) x = Some r" "(fds(nf \<mapsto> rfd)) y = Some r"
    have "fds z \<noteq> Some rfd" for z using solo_viewsD(6) [OF v, of z rfd] o(1) by auto
    with xy show "x = y" using solo_viewsD(5) [OF v, of x r y] by (auto split: if_splits)
  next
    fix x r assume "(fds(nf \<mapsto> rfd)) x = Some r"
    then show "fv_open (fs w') r \<noteq> None \<and> x < nf + 1"
      using solo_viewsD(6) [OF v, of x r] lt by (auto simp: fsw split: if_splits)
  next
    have names: "i' = i \<and> j = k \<or> ?n (path j) = Some i' \<and> j \<noteq> k" if "fv_names (fs w') (path j) = Some i'" for j i'
      using that apart [of j] by (cases "j = k") (simp_all add: fsw)
    fix j l i' assume n: "fv_names (fs w') (path j) = Some i'" "fv_names (fs w') (path l) = Some i'"
    show "j = l" using names [OF n(1)] names [OF n(2)] mine solo_viewsD(7) [OF v, of j i' l] by blast
  qed
qed

section \<open>An answer is an answer to a lone client\<close>

lemma failure_code:
  assumes "0 < sint (e :: i32)" "sint e < 4096"
  shows "negative (- i32_as_i64 e)" "i64_as_i32 (- i32_as_i64 e) \<noteq> 0"
proof -
  have "sint (- i32_as_i64 e) = signed_take_bit 63 (- sint e)"
    by (simp add: sint_word_ariths sint_i32_as_i64)
  also have "\<dots> = - sint e" using assms by (intro signed_take_bit_int_eq_self) simp_all
  finally show "negative (- i32_as_i64 e)" using assms(1) by simp
  show "i64_as_i32 (- i32_as_i64 e) \<noteq> 0" using assms(1) by (auto simp: narrow_errno)
qed

lemma clean_failure:
  assumes "fails_cleanly L seg fs w w'"
  shows "negative (- i32_as_i64 (errno L w'))" "i64_as_i32 (- i32_as_i64 (errno L w')) \<noteq> 0"
    "seg w' = seg w" "fs w' = fs w"
  using assms failure_code by (auto simp: fails_cleanly_def errno_def)

text \<open>A data request whose system call fails.\<close>

lemma answer_refused:
  assumes "fds (rq_fd r) = Some fd" "fails_cleanly L seg fs w w'" "negative rc"
  shows "io_op r = Some Write \<Longrightarrow>
      c_pwrite L w fd (k, unat (rq_data_offset r)) (as_u64 (rq_len r)) (rq_offset r) = (rc, w') \<Longrightarrow>
      \<exists>st. st \<noteq> 0 \<and> answer p (PosixExecutor L) k r (fds, nf, w) = Inr (IoResponse_err (rq_id r) st, fds, nf, w')"
    and "io_op r = Some Read \<Longrightarrow>
      c_pread L w fd (k, unat (rq_data_offset r)) (as_u64 (rq_len r)) (rq_offset r) = (rc, w') \<Longrightarrow>
      \<exists>st. st \<noteq> 0 \<and> answer p (PosixExecutor L) k r (fds, nf, w) = Inr (IoResponse_err (rq_id r) st, fds, nf, w')"
  using assms clean_failure [OF assms(2)]
  by (simp_all add: answer_def batch_of_one_def PosixExecutor_def posix_batch_def BatchOp_new_def run_kind_def
      posix_pwrite_def posix_pread_def) blast+

lemma answer_sync:
  assumes "io_op r = Some Sync" "fds (rq_fd r) = Some fd" "c_fsync L w fd = (0, w')"
  shows "answer p (PosixExecutor L) k r (fds, nf, w) = Inr (IoResponse_ok (rq_id r), fds, nf, w')"
  using assms by (simp add: answer_def batch_of_one_def PosixExecutor_def posix_batch_def BatchOp_new_def run_kind_def
      posix_fsync_def)

lemma answer_close:
  assumes "io_op r = Some Close" "fds (rq_fd r) = Some fd" "c_close L w fd = (0, w')"
  shows "answer p (PosixExecutor L) k r (fds, nf, w) = Inr (IoResponse_ok (rq_id r), fds(rq_fd r := None), nf, w')"
  using assms by (simp add: answer_def PosixExecutor_def posix_close_def)

lemma response_fields [simp]:
  "rs_status (IoResponse_ok i) = 0" "rs_status (IoResponse_err i st) = st"
  by (simp_all add: IoResponse_ok_def IoResponse_err_def)

text \<open>The one step for each operation.\<close>

lemma open_alone:
  assumes L: "shared_directory L seg set_seg fs paths" and path: "range path \<subseteq> paths" "inj path"
    and v: "solo_views seg fs path (fds, nf, w) \<sigma>" and small: "unat nf + 1 < 2 ^ 64"
    and r: "io_op r = Some Open" "path_str r = path k" "plain_flags (rq_len r)"
    and ans: "answer p (PosixExecutor L) k r (fds, nf, w) = Inr (resp, fds', nf', w')"
  shows "\<exists>s. solo_open r resp (\<sigma> k) = Some s \<and> so_mem s = so_mem (\<sigma> k) \<and>
    solo_views seg fs path (fds', nf', w') (\<sigma>(k := s))"
proof -
  have up: "uadd p nf 1 = Inr (nf + 1)" using small uadd_no_overflow [of nf 1 p] by simp
  have failed: ?thesis if "resp = IoResponse_err (rq_id r) st" "st \<noteq> 0" "fds' = fds" "nf' = nf" "seg w' = seg w" "fs w' = fs w" for st
    using that views_same [OF v that(6,5)] by (intro exI [of _ "\<sigma> k"]) (simp add: solo_open_def)
  show ?thesis
  proof (cases "0 \<in> set (path k)")
    case True
    have "0 < sint EINVAL" "sint EINVAL < 4096" by (simp_all add: EINVAL_def)
    note code = failure_code [OF this]
    have "ex_open (PosixExecutor L) w (path k) (rq_len r) 420 = (- i32_as_i64 EINVAL, w)"
      using True by (simp add: PosixExecutor_def posix_open_def)
    then show ?thesis using ans r(1,2) code by (intro failed [of "i64_as_i32 (- i32_as_i64 EINVAL)"]) (auto simp: answer_def)
  next
    case False
    have "path k \<in> paths" using path(1) by blast
    from shared_directoryD(2) [OF L, unfolded open_or_fail_law_def, rule_format, OF this r(3), of w 420] obtain fd w1 where
      o: "c_open L w (path k) (rq_len r) 420 = (fd, w1)" and
      res: "if negative fd then fails_cleanly L seg fs w w1
        else fv_open (fs w) fd = None \<and> (fv_names (fs w) (path k) \<noteq> None \<or> rq_len r AND O_CREAT \<noteq> 0) \<and>
          (\<exists>i. opens_file (path k) i (fs w) \<and> seg w1 = seg w \<and> fs w1 = file_opened (path k) (rq_len r) fd i (fs w))"
      by blast
    show ?thesis
    proof (cases "negative fd")
      case True
      with res have "fails_cleanly L seg fs w w1" by simp
      note fail = clean_failure [OF this]
      have "ex_open (PosixExecutor L) w (path k) (rq_len r) 420 = (- i32_as_i64 (errno L w1), w1)"
        using o True False by (simp add: PosixExecutor_def posix_open_def)
      then show ?thesis
        using ans r(1,2) fail by (intro failed [of "i64_as_i32 (- i32_as_i64 (errno L w1))"]) (auto simp: answer_def)
    next
      case ok: False
      with res obtain i where i: "fv_open (fs w) fd = None" "opens_file (path k) i (fs w)"
        "fs w1 = file_opened (path k) (rq_len r) fd i (fs w)" "seg w1 = seg w"
        and there: "fv_names (fs w) (path k) \<noteq> None \<or> rq_len r AND O_CREAT \<noteq> 0" by auto
      have "ex_open (PosixExecutor L) w (path k) (rq_len r) 420 = (i32_as_i64 fd, w1)"
        using o ok False by (simp add: PosixExecutor_def posix_open_def)
      then have a: "resp = (IoResponse_ok (rq_id r))\<lparr>rs_fd := nf\<rparr>" "fds' = fds(nf \<mapsto> fd)" "nf' = nf + 1" "w' = w1"
        using ans r(1,2) ok up by (simp_all add: answer_def sint_i32_as_i64 i32_as_i64_back)
      note o = views_open [OF v path(2) small i]
      have "so_file (\<sigma> k) = None \<longrightarrow> rq_len r AND O_CREAT \<noteq> 0" using there solo_viewsD(2) [OF v, of k] by auto
      with o a show ?thesis by (auto simp: solo_open_def)
    qed
  qed
qed

lemma data_alone:
  assumes L: "shared_directory L seg set_seg fs paths"
    and v: "solo_views seg fs path (fds, nf, w) \<sigma>"
    and r: "io_op r = Some op" "op \<in> {Read, Write, Sync, Close}" "own_request sz (path k) r" "length (so_mem (\<sigma> k)) = sz"
    and held: "so_fds (\<sigma> k) (rq_fd r) = Some flags"
    and ans: "answer p (PosixExecutor L) k r (fds, nf, w) = Inr (resp, fds', nf', w')"
  shows "\<exists>s. solo_answer r resp (\<sigma> k) = Some s \<and> length (so_mem s) = sz \<and>
    solo_views seg fs path (fds', nf', w') (\<sigma>(k := s))"
proof -
  obtain rfd i where rfd: "fds (rq_fd r) = Some rfd" "fv_open (fs w) rfd = Some (i, flags)"
    "fv_names (fs w) (path k) = Some i" using solo_viewsD(3) [OF v held] by blast
  let ?bs = "fv_data (fs w) i" and ?b = "unat (rq_data_offset r)" and ?n = "as_u64 (rq_len r)"
  have bytes: "so_file (\<sigma> k) = Some ?bs" using solo_viewsD(2) [OF v, of k] rfd(3) by simp
  have mem: "so_mem (\<sigma> k) = seg w k" by (rule solo_viewsD(1) [OF v])
  have n: "unat ?n = unat (rq_len r)" by simp
  have fit: "?b + unat ?n \<le> length (seg w k)" "unat ?n < 2 ^ 31" "unat (rq_offset r) < 2 ^ 63"
    if "op \<in> {Read, Write}" using that r(1,3,4) mem by (auto simp: own_request_def)
  have refused: ?thesis if "resp = IoResponse_err (rq_id r) st" "st \<noteq> 0" "fds' = fds" "nf' = nf" "seg w' = seg w" "fs w' = fs w"
    "op = Read \<and> \<not> can_read flags \<or> op = Write \<and> \<not> can_write flags" for st
  proof -
    have "solo_answer r resp (\<sigma> k) = Some (\<sigma> k)"
      using that(1,2,7) r(1) held bytes by (elim disjE conjE) (simp_all add: solo_answer_def solo_read_def solo_write_def)
    with views_same [OF v that(6,5)] that(3,4) r(4) show ?thesis by (intro exI [of _ "\<sigma> k"]) simp
  qed
  note T = transfer_lawD [OF shared_directoryD(4) [OF L] rfd(2), where k = k and b = ?b and n = ?n and off = "rq_offset r"]
  note R = shared_directoryD(5) [OF L, unfolded refusal_law_def, rule_format, OF rfd(2)]
  consider "op = Read" "can_read flags" | "op = Write" "can_write flags" | "op = Read" "\<not> can_read flags"
    | "op = Write" "\<not> can_write flags" | "op = Sync" | "op = Close" using r(2) by auto
  then show ?thesis
  proof cases
    case 1
    let ?data = "file_range ?bs (rq_offset r) ?n"
    obtain w1 where w1: "c_pread L w rfd (k, ?b) ?n (rq_offset r) = (of_nat (length ?data), w1)" "fs w1 = fs w"
      "seg w1 = (seg w)(k := overwrite (seg w k) ?b ?data)"
      using T(2) fit 1 by blast
    have small: "length ?data \<le> unat (rq_len r)" "unat (rq_len r) < 2 ^ 31"
      using length_file_range [of ?bs "rq_offset r" ?n] fit(2) 1 by simp_all
    then have len: "unat (of_nat (length ?data) :: u32) = length ?data" by (simp add: unat_of_nat)
    have a: "resp = (IoResponse_ok (rq_id r))\<lparr>rs_data_offset := rq_data_offset r, rs_data_len := of_nat (length ?data)\<rparr>"
      "fds' = fds" "nf' = nf" "w' = w1"
      using ans answer_pread [where fds = fds and p = p and nf = nf, OF r(1) [unfolded 1(1)] rfd(1) small(2,1) w1(1)] by simp_all
    have "length (overwrite (seg w k) ?b ?data) = sz"
      using fit(1) 1 small(1) r(4) mem by (simp add: length_overwrite)
    then show ?thesis
      using views_region [OF v w1(2,3)] a 1 held bytes r(1) len mem
      by (simp add: solo_answer_def solo_read_def file_range_def Let_def)
  next
    case 2
    obtain w1 where w1: "c_pwrite L w rfd (k, ?b) ?n (rq_offset r) = (?n, w1)" "seg w1 = seg w"
      "fs w1 = (fs w)\<lparr>fv_data := (fv_data (fs w))
        (i := overwrite ?bs (unat (rq_offset r)) (buf_bytes seg w k ?b (unat ?n)))\<rparr>"
      using T(1) fit 2 by blast
    have "unat (rq_len r) < 2 ^ 31" using fit(2) 2 by simp
    from ans answer_pwrite [where fds = fds and p = p and nf = nf, OF r(1) [unfolded 2(1)] rfd(1) this w1(1)] have
      a: "resp = (IoResponse_ok (rq_id r))\<lparr>rs_data_len := rq_len r\<rparr>" "fds' = fds" "nf' = nf" "w' = w1" by simp_all
    show ?thesis
      using views_write [OF v rfd(3) w1(3,2)] a 2 held bytes r(1,4) mem
      by (simp add: solo_answer_def solo_write_def buf_bytes_def)
  next
    case 3
    from R 3(2) obtain rc w1 where w1: "c_pread L w rfd (k, ?b) ?n (rq_offset r) = (rc, w1)" "negative rc"
      "fails_cleanly L seg fs w w1" by blast
    obtain st where "st \<noteq> 0" "answer p (PosixExecutor L) k r (fds, nf, w) = Inr (IoResponse_err (rq_id r) st, fds, nf, w1)"
      using answer_refused(2) [where fds = fds, OF rfd(1) w1(3,2) _ w1(1)] r(1) 3(1) by blast
    then show ?thesis using ans clean_failure(3,4) [OF w1(3)] 3 by (intro refused [of st]) simp_all
  next
    case 4
    from R 4(2) obtain rc w1 where w1: "c_pwrite L w rfd (k, ?b) ?n (rq_offset r) = (rc, w1)" "negative rc"
      "fails_cleanly L seg fs w w1" by blast
    obtain st where "st \<noteq> 0" "answer p (PosixExecutor L) k r (fds, nf, w) = Inr (IoResponse_err (rq_id r) st, fds, nf, w1)"
      using answer_refused(1) [where fds = fds, OF rfd(1) w1(3,2) _ w1(1)] r(1) 4(1) by blast
    then show ?thesis using ans clean_failure(3,4) [OF w1(3)] 4 by (intro refused [of st]) simp_all
  next
    case 5
    obtain w1 where w1: "c_fsync L w rfd = (0, w1)" "seg w1 = seg w" "fs w1 = fs w"
      using shared_directoryD(3) [OF L] rfd(2) unfolding descriptor_law_def by blast
    from ans answer_sync [where fds = fds and p = p and nf = nf, OF r(1) [unfolded 5] rfd(1) w1(1)] have
      a: "resp = IoResponse_ok (rq_id r)" "fds' = fds" "nf' = nf" "w' = w1" by simp_all
    show ?thesis using views_same [OF v w1(3,2)] a 5 held bytes r(1,4) by (simp add: solo_answer_def)
  next
    case 6
    obtain w1 where w1: "c_close L w rfd = (0, w1)" "seg w1 = seg w"
      "fs w1 = (fs w)\<lparr>fv_open := (fv_open (fs w))(rfd := None)\<rparr>"
      using shared_directoryD(3) [OF L] rfd(2) unfolding descriptor_law_def by blast
    from ans answer_close [where fds = fds and p = p and nf = nf, OF r(1) [unfolded 6] rfd(1) w1(1)] have
      a: "resp = IoResponse_ok (rq_id r)" "fds' = fds(rq_fd r := None)" "nf' = nf" "w' = w1" by simp_all
    have "so_fds (\<sigma> k) (rq_fd r) \<noteq> None" using held by simp
    from views_close [OF v this rfd(1) w1(3,2)] show ?thesis
      using a 6 held bytes r(1,4) by (simp add: solo_answer_def)
  qed
qed

lemma answer_alone:
  assumes L: "shared_directory L seg set_seg fs paths" and path: "range path \<subseteq> paths" "inj path"
    and v: "solo_views seg fs path (fds, nf, w) \<sigma>" and small: "unat nf + 1 < 2 ^ 64"
    and r: "own_request sz (path k) r" "length (so_mem (\<sigma> k)) = sz"
    and held: "uses_fd r \<Longrightarrow> rq_fd r \<in> dom (so_fds (\<sigma> k))"
    and ans: "answer p (PosixExecutor L) k r (fds, nf, w) = Inr (resp, fds', nf', w')"
  shows "\<exists>s. solo_answer r resp (\<sigma> k) = Some s \<and> length (so_mem s) = sz \<and>
    solo_views seg fs path (fds', nf', w') (\<sigma>(k := s))"
proof -
  consider "io_op r = None" | "io_op r = Some Open" | op where "io_op r = Some op" "op \<in> {Read, Write, Sync, Close}"
    by (cases "io_op r") (auto intro: IoOp.exhaust)
  then show ?thesis
  proof cases
    case 1
    then show ?thesis using ans v r(2) by (intro exI [of _ "\<sigma> k"]) (auto simp: answer_def solo_answer_def)
  next
    case 2
    then have "path_str r = path k" "plain_flags (rq_len r)" using r(1) by (simp_all add: own_request_def)
    from open_alone [OF L path v small 2 this ans] r(2) 2 show ?thesis by (auto simp: solo_answer_def)
  next
    case 3
    then have "rq_fd r \<in> dom (so_fds (\<sigma> k))" by (intro held) (auto simp: uses_fd_def is_data_def)
    then obtain flags where "so_fds (\<sigma> k) (rq_fd r) = Some flags" by blast
    from data_alone [OF L v 3 r this ans] show ?thesis .
  qed
qed

lemma solo_answer_fds:
  assumes "solo_answer r resp s = Some s'"
  shows "so_fds s' =
    (if io_op r = Some Open \<and> rs_status resp = 0 then (so_fds s)(rs_fd resp \<mapsto> rq_len r)
     else if io_op r = Some Close then (so_fds s)(rq_fd r := None) else so_fds s)"
  using assms
  by (auto simp: solo_answer_def solo_open_def solo_write_def solo_read_def Let_def
      split: option.splits IoOp.splits if_splits)

section \<open>Runs\<close>

text \<open>Every call of a run kept to the descriptors that its client held.\<close>

definition disciplined :: "event list \<Rightarrow> bool" where
  "disciplined tr \<longleftrightarrow> (\<forall>tr1 k r tr2. tr = tr1 @ Calls k r # tr2 \<longrightarrow> may_call k r tr1)"

lemma disciplined_snoc:
  "disciplined (tr @ [e]) \<longleftrightarrow> disciplined tr \<and> (\<forall>k r. e = Calls k r \<longrightarrow> may_call k r tr)"
proof
  assume d: "disciplined (tr @ [e])"
  have "may_call k r tr1" if "tr = tr1 @ Calls k r # tr2" for tr1 k r tr2
    using d that unfolding disciplined_def by (metis append_Cons append_assoc)
  then have "disciplined tr" unfolding disciplined_def by blast
  moreover have "may_call k r tr" if "e = Calls k r" for k r using d that unfolding disciplined_def by blast
  ultimately show "disciplined tr \<and> (\<forall>k r. e = Calls k r \<longrightarrow> may_call k r tr)" by blast
next
  assume d: "disciplined tr \<and> (\<forall>k r. e = Calls k r \<longrightarrow> may_call k r tr)"
  have "may_call k r tr1" if "tr @ [e] = tr1 @ Calls k r # tr2" for tr1 k r tr2
    using that d unfolding disciplined_def by (cases tr2 rule: rev_cases) auto
  then show "disciplined (tr @ [e])" unfolding disciplined_def by blast
qed

lemma disciplined_append:
  assumes "disciplined tr" "\<And>k r. Calls k r \<notin> set es"
  shows "disciplined (tr @ es)"
  using assms(2)
proof (induction es rule: rev_induct)
  case (snoc e es)
  then have "disciplined (tr @ es)" "\<And>k r. e \<noteq> Calls k r" by auto
  then show ?case by (simp add: disciplined_snoc flip: append_assoc)
qed (simp add: assms(1))

lemma run_disciplined:
  assumes "clients_run p E seg set_seg (clients_start svc0) s"
  shows "disciplined (sy_trace s)"
  using assms
proof (induction rule: rtranclp_induct)
  case base
  show ?case by (simp add: clients_start_def disciplined_def)
next
  case (step s t)
  from step.hyps(2) show ?case
  proof cases
    case (begin_call k r store)
    have "held k (sy_trace s @ [Stores k store]) = held k (sy_trace s)" by (simp add: held_append hold_def)
    then have "may_call k r (sy_trace s @ [Stores k store])" using begin_call by (simp add: may_call_def)
    moreover have "disciplined (sy_trace s @ [Stores k store])" using step.IH by (simp add: disciplined_snoc)
    moreover have "sy_trace t = (sy_trace s @ [Stores k store]) @ [Calls k r]" using begin_call by simp
    ultimately show ?thesis by (simp only: disciplined_snoc event.inject) blast
  next
    case (iterate svc' w)
    have "Calls k r \<notin> set (answered p E (sy_service s))" for k r
      by (auto simp: answered_def Let_def split: sum.splits)
    with step.IH iterate show ?thesis by (simp add: disciplined_append)
  qed (use step.IH in \<open>simp_all add: disciplined_snoc\<close>)
qed

text \<open>What links a client's part of a trace to the lone client: the descriptors it can name are there.\<close>

definition alone_ok :: "nat \<Rightarrow> event list \<Rightarrow> nat \<Rightarrow> solo \<Rightarrow> bool" where
  "alone_ok sz tr k s \<longleftrightarrow> length (so_mem s) = sz \<and> own k tr \<subseteq> dom (so_fds s) \<and>
     (\<forall>r. call_state k tr = Some (Pending r) \<longrightarrow> Calls k r \<in> set tr \<and>
        (io_op r = Some Close \<longrightarrow> rq_fd r \<notin> held k tr))"

lemma alone_ok_other:
  assumes "client_of_event e \<noteq> k" "alone_ok sz tr k s"
  shows "alone_ok sz (tr @ [e]) k s" "solo_event k e s = Some s"
  using assms(2) trace_of_another [OF assms(1)] assms(1)
  by (auto simp: alone_ok_def) (cases e; simp add: solo_event_def)

lemma alone_ok_quiet:
  assumes "alone_ok sz tr k s" "own k (tr @ [e]) \<subseteq> own k tr" "call_state k (tr @ [e]) = Some c" "\<forall>r. c \<noteq> Pending r"
    and "so_fds s' = so_fds s" "length (so_mem s') = sz"
  shows "alone_ok sz (tr @ [e]) k s'"
  using assms by (auto simp: alone_ok_def)

definition event_ok :: "nat \<Rightarrow> (nat \<Rightarrow> u8 list) \<Rightarrow> event \<Rightarrow> bool" where
  "event_ok sz path e \<longleftrightarrow>
     (case e of
        Stores k store \<Rightarrow> \<forall>m. length m = sz \<longrightarrow> length (store m) = sz
      | Calls k r \<Rightarrow> own_request sz (path k) r
      | _ \<Rightarrow> True)"

lemma event_alone:
  assumes L: "shared_directory L seg set_seg fs paths" and path: "range path \<subseteq> paths" "inj path"
    and ev: "event_ok sz path e" "\<forall>x \<in> set tr. event_ok sz path x" and state: "call_state (client_of_event e) (tr @ [e]) \<noteq> None"
    and call: "\<And>k r. e = Calls k r \<Longrightarrow> may_call k r tr"
    and v: "solo_views seg fs path (fds, nf, w) \<sigma>" and ok: "fds_ok n0 tr nf" and few: "n0 + length tr < 2 ^ 64 - 1"
    and alone: "\<And>k. alone_ok sz tr k (\<sigma> k)"
    and step: "replay p (PosixExecutor L) seg set_seg [e] (fds, nf, w) = Some (fds', nf', w')"
  shows "\<exists>s. solo_event (client_of_event e) e (\<sigma> (client_of_event e)) = Some s \<and>
    solo_views seg fs path (fds', nf', w') (\<sigma>(client_of_event e := s)) \<and> fds_ok n0 (tr @ [e]) nf' \<and>
    alone_ok sz (tr @ [e]) (client_of_event e) s"
proof -
  obtain k where k: "client_of_event e = k" by blast
  obtain c c' where c: "call_state k tr = Some c" "next_state k e c = Some c'"
    using state k by (cases "call_state k tr") (auto simp: state_from_append split: bind_splits)
  note o = own_event [OF c]
  have len: "length (so_mem (\<sigma> k)) = sz" and own: "own k tr \<subseteq> dom (so_fds (\<sigma> k))" using alone [of k] by (simp_all add: alone_ok_def)
  show ?thesis
    unfolding k
  proof (cases e)
    case (Stores j f)
    then have e: "e = Stores k f" "c = No_Call" "c' = No_Call"
      using k c(2) by (auto simp: next_state_def split: if_splits)
    have "own k (tr @ [e]) \<subseteq> own k tr" unfolding o(2,3) by (auto simp: e hold_def)
    moreover have m: "length (f (so_mem (\<sigma> k))) = sz" using ev(1) len e by (simp add: event_ok_def)
    ultimately have "alone_ok sz (tr @ [e]) k ((\<sigma> k)\<lparr>so_mem := f (so_mem (\<sigma> k))\<rparr>)"
      using e by (intro alone_ok_quiet [OF alone _ o(1)]) simp_all
    moreover have "(fds', nf', w') = (fds, nf, set_seg k (f (seg w k)) w)" using step e by simp
    moreover have "solo_views seg fs path (fds, nf, set_seg k (f (seg w k)) w) (\<sigma>(k := (\<sigma> k)\<lparr>so_mem := f (seg w k)\<rparr>))"
      using shared_directoryD(1) [OF L] by (intro views_region [OF v]) simp_all
    moreover have "fds_ok n0 (tr @ [e]) nf" using fds_ok_stores(1) [OF ok] c(1) e by simp
    ultimately show "\<exists>s. solo_event k e (\<sigma> k) = Some s \<and> solo_views seg fs path (fds', nf', w') (\<sigma>(k := s)) \<and>
        fds_ok n0 (tr @ [e]) nf' \<and> alone_ok sz (tr @ [e]) k s"
      using solo_viewsD(1) [OF v, of k] by (auto simp: e solo_event_def)
  next
    case (Calls j r)
    then have e: "e = Calls k r" "c = No_Call" "c' = Pending r"
      using k c(2) by (auto simp: next_state_def split: if_splits)
    have may: "may_call k r tr" using call e(1) by blast
    have "own k (tr @ [e]) \<subseteq> own k tr"
      using may unfolding o(2,3) by (auto simp: e hold_def under_way_def may_call_def uses_fd_def)
    moreover have "io_op r = Some Close \<longrightarrow> rq_fd r \<notin> held k (tr @ [e])" by (simp add: held_append e hold_def)
    ultimately have "alone_ok sz (tr @ [e]) k (\<sigma> k)" using o(1) own len e by (auto simp: alone_ok_def)
    moreover have "fds_ok n0 (tr @ [e]) nf" using fds_ok_calls(1) [OF ok _ may] c(1) e by simp
    ultimately show "\<exists>s. solo_event k e (\<sigma> k) = Some s \<and> solo_views seg fs path (fds', nf', w') (\<sigma>(k := s)) \<and>
        fds_ok n0 (tr @ [e]) nf' \<and> alone_ok sz (tr @ [e]) k s"
      using step v e by (auto simp: solo_event_def)
  next
    case (Returns j r resp)
    then have e: "e = Returns k r resp" "c = Answered r resp" "c' = No_Call"
      using k c(2) by (auto simp: next_state_def split: if_splits)
    have "own k (tr @ [e]) \<subseteq> own k tr" unfolding o(2,3) by (auto simp: e hold_def under_way_def)
    then have "alone_ok sz (tr @ [e]) k (\<sigma> k)" using e len by (intro alone_ok_quiet [OF alone _ o(1)]) simp_all
    moreover have "fds_ok n0 (tr @ [e]) nf" using fds_ok_returns(1) [OF ok] c(1) e by simp
    ultimately show "\<exists>s. solo_event k e (\<sigma> k) = Some s \<and> solo_views seg fs path (fds', nf', w') (\<sigma>(k := s)) \<and>
        fds_ok n0 (tr @ [e]) nf' \<and> alone_ok sz (tr @ [e]) k s"
      using step v e by (auto simp: solo_event_def)
  next
    case (Answers j r resp)
    then have e: "e = Answers k r resp" "c = Pending r" "c' = Answered r resp"
      using k c(2) by (auto simp: next_state_def split: if_splits)
    have ans: "answer p (PosixExecutor L) k r (fds, nf, w) = Inr (resp, fds', nf', w')"
      using step by (auto simp: e split: sum.splits if_splits)
    have called: "Calls k r \<in> set tr" "io_op r = Some Close \<longrightarrow> rq_fd r \<notin> held k tr"
      using alone [of k] c(1) e by (auto simp: alone_ok_def)
    have req: "own_request sz (path k) r" using ev(2) called(1) by (force simp: event_ok_def)
    have uses: "rq_fd r \<in> dom (so_fds (\<sigma> k))" if "uses_fd r"
    proof -
      have "call_state k tr = Some (Pending r)" using c(1) e(2) by simp
      then have "rq_fd r \<in> own k tr" using ok that unfolding fds_ok_def by blast
      then show ?thesis using own by blast
    qed
    have small: "unat nf + 1 < 2 ^ 64" using ok few by (simp add: fds_ok_def)
    from answer_alone [OF L path v small req len uses ans] obtain s where
      s: "solo_answer r resp (\<sigma> k) = Some s" "length (so_mem s) = sz" "solo_views seg fs path (fds', nf', w') (\<sigma>(k := s))"
      by blast
    have "own k (tr @ [e]) = held k tr \<union> under_way (Some (Answered r resp))" unfolding o(2) by (simp add: e hold_def)
    moreover have "held k tr \<subseteq> dom (so_fds (\<sigma> k))" using own o(3) by blast
    ultimately have "own k (tr @ [e]) \<subseteq> dom (so_fds s)"
      unfolding solo_answer_fds [OF s(1)] using called(2) by (auto simp: under_way_def)
    then have "alone_ok sz (tr @ [e]) k s" using s(2) o(1) e by (simp add: alone_ok_def)
    moreover have "fds_ok n0 (tr @ [e]) nf'"
      using fds_ok_answers(1) [OF ok _ ans posix_open_reports few] c(1) e by simp
    ultimately show "\<exists>s. solo_event k e (\<sigma> k) = Some s \<and> solo_views seg fs path (fds', nf', w') (\<sigma>(k := s)) \<and>
        fds_ok n0 (tr @ [e]) nf' \<and> alone_ok sz (tr @ [e]) k s"
      using s(1,3) by (auto simp: e solo_event_def)
  qed
qed

text \<open>Every client sees its own part of a trace alone.\<close>

lemma trace_alone:
  assumes L: "shared_directory L seg set_seg fs paths" and path: "range path \<subseteq> paths" "inj path"
    and start: "solo_views seg fs path (fds0, nf0, w0) \<sigma>0" "\<forall>k. length (so_mem (\<sigma>0 k)) = sz"
    and tr: "\<forall>k. call_state k tr \<noteq> None" "disciplined tr" "\<forall>x \<in> set tr. event_ok sz path x"
    and run: "replay p (PosixExecutor L) seg set_seg tr (fds0, nf0, w0) = Some c"
    and few: "unat nf0 + length tr < 2 ^ 64 - 1"
  shows "\<exists>fds nf w \<sigma>. c = (fds, nf, w) \<and> solo_views seg fs path (fds, nf, w) \<sigma> \<and> fds_ok (unat nf0) tr nf \<and>
    (\<forall>k. solo_run k tr (\<sigma>0 k) = Some (\<sigma> k) \<and> alone_ok sz tr k (\<sigma> k))"
  using tr run few
proof (induction tr arbitrary: c rule: rev_induct)
  case Nil
  have "fds_ok (unat nf0) [] nf0" by (simp add: fds_ok_def own_def held_def under_way_def)
  moreover have "alone_ok sz [] k (\<sigma>0 k)" for k using start(2) by (simp add: alone_ok_def own_def held_def under_way_def)
  ultimately show ?case
    using Nil start(1) by (intro exI [of _ fds0] exI [of _ nf0] exI [of _ w0] exI [of _ \<sigma>0]) simp
next
  case (snoc e tr)
  let ?E = "PosixExecutor L"
  from snoc.prems(4) obtain c1 where c1: "replay p ?E seg set_seg tr (fds0, nf0, w0) = Some c1"
    "replay p ?E seg set_seg [e] c1 = Some c" by (auto simp: replay_append split: bind_splits)
  have "call_state k tr \<noteq> None" for k
    using spec [OF snoc.prems(1), of k] by (cases "call_state k tr") (simp_all add: state_from_append)
  moreover have "disciplined tr" "\<forall>x \<in> set tr. event_ok sz path x" and few: "unat nf0 + length tr < 2 ^ 64 - 1"
    using snoc.prems(2,3,5) by (simp_all add: disciplined_snoc)
  ultimately obtain fds nf w \<sigma> where ih: "c1 = (fds, nf, w)" "solo_views seg fs path (fds, nf, w) \<sigma>"
    "fds_ok (unat nf0) tr nf" "\<forall>k. solo_run k tr (\<sigma>0 k) = Some (\<sigma> k) \<and> alone_ok sz tr k (\<sigma> k)"
    using snoc.IH [OF _ _ _ c1(1)] by blast
  obtain fds' nf' w' where c: "c = (fds', nf', w')" by (cases c)
  let ?k = "client_of_event e"
  have ev: "event_ok sz path e" "\<forall>x \<in> set tr. event_ok sz path x" using snoc.prems(3) by simp_all
  have may: "may_call k r tr" if "e = Calls k r" for k r using snoc.prems(2) that by (simp add: disciplined_snoc)
  from event_alone [OF L path ev spec [OF snoc.prems(1)] may ih(2,3) few] ih(4) c1(2) obtain s where
    s: "solo_event ?k e (\<sigma> ?k) = Some s" "solo_views seg fs path (fds', nf', w') (\<sigma>(?k := s))"
      "fds_ok (unat nf0) (tr @ [e]) nf'" "alone_ok sz (tr @ [e]) ?k s"
    unfolding ih(1) c by blast
  have "solo_run k (tr @ [e]) (\<sigma>0 k) = Some ((\<sigma>(?k := s)) k) \<and> alone_ok sz (tr @ [e]) k ((\<sigma>(?k := s)) k)" for k
    using ih(4) s(1,4) alone_ok_other [of e k sz tr "\<sigma> k"] by (cases "k = ?k") (auto simp: solo_run_snoc)
  with s(2,3) c show ?case by blast
qed

end
