(* ===== verification/Disk_World.thy ===== *)
theory Disk_World
  imports File_System "HOL-Library.AList"
begin

text \<open>
  A small file system that keeps the contracts of \<open>File_System\<close>, for the examples: the mapped segments, the
  names, the bytes and the open descriptors, at most 16.
\<close>

unbundle bit_operations_syntax

record disk_world =
  dw_segs :: "nat \<Rightarrow> u8 list"
  dw_names :: "(u8 list \<times> nat) list"
  dw_data :: "nat \<Rightarrow> u8 list"
  dw_open :: "(i32 \<times> nat \<times> u32) list"

definition dw_view :: "disk_world \<Rightarrow> fs_view" where
  "dw_view w = \<lparr>fv_names = map_of (dw_names w), fv_data = dw_data w, fv_open = map_of (dw_open w)\<rparr>"

definition dw_fresh :: "disk_world \<Rightarrow> nat" where
  "dw_fresh w = Suc (sum_list (map snd (dw_names w)) + sum_list (map (fst \<circ> snd) (dw_open w)))"

definition dw_unused :: "disk_world \<Rightarrow> i32 list" where
  "dw_unused w = filter (\<lambda>fd. map_of (dw_open w) fd = None) (map of_nat [0..<16])"

text \<open>\<open>open\<close>, which fails without a free descriptor, or without the file and \<open>O_CREAT\<close>.\<close>

definition dw_openat :: "disk_world \<Rightarrow> u8 list \<Rightarrow> u32 \<Rightarrow> i32 \<times> disk_world" where
  "dw_openat w path flags =
     (let i = (case map_of (dw_names w) path of Some i \<Rightarrow> i | None \<Rightarrow> dw_fresh w); fd = hd (dw_unused w) in
      if dw_unused w = [] \<or> map_of (dw_names w) path = None \<and> flags AND O_CREAT = 0 then (- 1, w)
      else
      (fd,
       w\<lparr>dw_names := (path, i) # dw_names w,
         dw_data := (if map_of (dw_names w) path = None \<or> flags AND O_TRUNC \<noteq> 0 then (dw_data w)(i := []) else dw_data w),
         dw_open := (fd, i, flags) # dw_open w\<rparr>))"

definition dw_libc :: "disk_world LibC" where
  "dw_libc =
     \<lparr>c_open = (\<lambda>w path flags mode. dw_openat w path flags),
      c_close = (\<lambda>w fd. (0, w\<lparr>dw_open := AList.delete fd (dw_open w)\<rparr>)),
      c_pread = (\<lambda>w fd (k, b) n off. case map_of (dw_open w) fd of
          Some (i, flags) \<Rightarrow>
            if can_read flags then let data = file_range (dw_data w i) off n in
              (of_nat (length data), w\<lparr>dw_segs := (dw_segs w)(k := overwrite (dw_segs w k) b data)\<rparr>)
            else (- 1, w)
        | None \<Rightarrow> (- 1, w)),
      c_pwrite = (\<lambda>w fd (k, b) n off. case map_of (dw_open w) fd of
          Some (i, flags) \<Rightarrow>
            if can_write flags then (n, w\<lparr>dw_data := (dw_data w)
              (i := overwrite (dw_data w i) (unat off) (take (unat n) (drop b (dw_segs w k))))\<rparr>)
            else (- 1, w)
        | None \<Rightarrow> (- 1, w)),
      c_fsync = (\<lambda>w fd. (0, w)),
      c_last_os_error = (\<lambda>w. Some 9)\<rparr>"

lemma dw_unused_hd:
  assumes "dw_unused w \<noteq> []"
  shows "map_of (dw_open w) (hd (dw_unused w)) = None" "\<not> negative (hd (dw_unused w))"
proof -
  have f: "hd (dw_unused w) \<in> set (dw_unused w)" using assms by (rule hd_in_set)
  then show "map_of (dw_open w) (hd (dw_unused w)) = None" unfolding dw_unused_def by simp
  have "\<forall>fd \<in> set (map of_nat [0..<16] :: i32 list). \<not> negative fd" by code_simp
  moreover have "hd (dw_unused w) \<in> set (map of_nat [0..<16])" using f unfolding dw_unused_def by simp
  ultimately show "\<not> negative (hd (dw_unused w))" by (rule bspec)
qed

lemma dw_unused_room:
  assumes "card (dom (map_of (dw_open w))) < 16"
  shows "dw_unused w \<noteq> []"
proof
  let ?fds = "map of_nat [0..<16] :: i32 list"
  assume "dw_unused w = []"
  then have "set ?fds \<subseteq> dom (map_of (dw_open w))" unfolding dw_unused_def filter_empty_conv by blast
  then have "card (set ?fds) \<le> card (dom (map_of (dw_open w)))" by (intro card_mono) (simp_all add: finite_dom_map_of)
  moreover have "card (set ?fds) = 16" by code_simp
  ultimately show False using assms by simp
qed

lemma dw_fresh_spec: "fresh_file (dw_fresh w) (dw_view w)"
proof -
  have "i < dw_fresh w" if "map_of (dw_names w) path = Some i" for path i
  proof -
    have "snd (path, i) \<in> set (map snd (dw_names w))"
      unfolding set_map using map_of_SomeD [OF that] by (rule imageI)
    then have "i \<in> set (map snd (dw_names w))" by simp
    from member_le_sum_list [OF this] show ?thesis by (simp add: dw_fresh_def)
  qed
  moreover have "i < dw_fresh w" if "map_of (dw_open w) fd = Some (i, flags)" for fd i flags
  proof -
    have "(fst \<circ> snd) (fd, i, flags) \<in> set (map (fst \<circ> snd) (dw_open w))"
      unfolding set_map using map_of_SomeD [OF that] by (rule imageI)
    then have "i \<in> set (map (fst \<circ> snd) (dw_open w))" by simp
    from member_le_sum_list [OF this] show ?thesis by (simp add: dw_fresh_def)
  qed
  ultimately show ?thesis by (force simp: fresh_file_def dw_view_def)
qed

lemma dw_opens:
  assumes "dw_unused w \<noteq> []" "fv_names (dw_view w) path \<noteq> None \<or> flags AND O_CREAT \<noteq> 0"
  shows "\<exists>fd i w'. c_open dw_libc w path flags mode = (fd, w') \<and> \<not> negative fd \<and>
    fv_open (dw_view w) fd = None \<and> opens_file path i (dw_view w) \<and> dw_segs w' = dw_segs w \<and>
    dw_view w' = file_opened path flags fd i (dw_view w)"
proof -
  let ?i = "case map_of (dw_names w) path of Some i \<Rightarrow> i | None \<Rightarrow> dw_fresh w" and ?fd = "hd (dw_unused w)"
  have may: "\<not> (dw_unused w = [] \<or> map_of (dw_names w) path = None \<and> flags AND O_CREAT = 0)"
    using assms by (simp add: dw_view_def)
  obtain w' where w': "dw_openat w path flags = (?fd, w')" "dw_segs w' = dw_segs w"
    "dw_view w' = file_opened path flags ?fd ?i (dw_view w)"
    unfolding dw_openat_def Let_def if_not_P [OF may] by (simp add: dw_view_def file_opened_def cong: if_cong)
  have "opens_file path ?i (dw_view w)"
    using dw_fresh_spec [of w] by (simp add: opens_file_def dw_view_def split: option.split)
  with w' dw_unused_hd [OF assms(1)] show ?thesis
    by (intro exI [of _ ?fd] exI [of _ ?i] exI [of _ w']) (simp add: dw_libc_def dw_view_def)
qed

lemma dw_open_law: "open_files_law dw_libc dw_segs dw_view paths 16"
  unfolding open_files_law_def
  by (intro allI ballI impI dw_opens dw_unused_room) (simp_all add: dw_view_def)

lemma dw_open_or_fail: "open_or_fail_law dw_libc dw_segs dw_view paths"
  unfolding open_or_fail_law_def
proof (intro allI ballI impI)
  fix w flags and mode :: u32 and path
  show "\<exists>fd w'. c_open dw_libc w path flags mode = (fd, w') \<and>
      (if negative fd then fails_cleanly dw_libc dw_segs dw_view w w'
       else fv_open (dw_view w) fd = None \<and> (fv_names (dw_view w) path \<noteq> None \<or> flags AND O_CREAT \<noteq> 0) \<and>
         (\<exists>i. opens_file path i (dw_view w) \<and> dw_segs w' = dw_segs w \<and> dw_view w' = file_opened path flags fd i (dw_view w)))"
  proof (cases "dw_unused w \<noteq> [] \<and> (fv_names (dw_view w) path \<noteq> None \<or> flags AND O_CREAT \<noteq> 0)")
    case True
    with dw_opens [of w path flags mode] show ?thesis by (metis (no_types))
  next
    case False
    then have "c_open dw_libc w path flags mode = (- 1, w)" by (auto simp: dw_libc_def dw_openat_def dw_view_def Let_def)
    then show ?thesis by (simp add: fails_cleanly_def dw_libc_def)
  qed
qed

definition dw_set_seg :: "nat \<Rightarrow> u8 list \<Rightarrow> disk_world \<Rightarrow> disk_world" where
  "dw_set_seg k m w = w\<lparr>dw_segs := (dw_segs w)(k := m)\<rparr>"

lemma dw_laws:
  "dw_segs (dw_set_seg k m w) = (dw_segs w)(k := m) \<and> dw_view (dw_set_seg k m w) = dw_view w"
  "descriptor_law dw_libc dw_segs dw_view" "transfer_law dw_libc dw_segs dw_view"
  "refusal_law dw_libc dw_segs dw_view"
  by (auto simp: dw_set_seg_def descriptor_law_def dw_libc_def dw_view_def delete_conv' transfer_law_def buf_bytes_def
      Let_def refusal_law_def fails_cleanly_def)

lemma dw_directory: "file_directory dw_libc dw_segs dw_set_seg dw_view paths 16"
  unfolding file_directory_def by (intro conjI allI dw_open_law dw_laws)

lemma dw_shared: "shared_directory dw_libc dw_segs dw_set_seg dw_view paths"
  unfolding shared_directory_def by (intro conjI allI dw_open_or_fail dw_laws)

end
