(* ===== verification/Own_Files_Properties.thy ===== *)
theory Own_Files_Properties
  imports Own_Files Disk_World
begin

text \<open>
  Concurrent clients with files of their own do not notice each other; the test \<open>multi_instance_concurrent\<close>
  of \<open>atlas-client/tests/e2e.rs\<close>.
\<close>

unbundle bit_operations_syntax

section \<open>Isolation\<close>

definition solo_start ::
  "('w \<Rightarrow> nat \<Rightarrow> u8 list) \<Rightarrow> ('w \<Rightarrow> fs_view) \<Rightarrow> (nat \<Rightarrow> u8 list) \<Rightarrow> 'w \<Rightarrow> nat \<Rightarrow> solo" where
  "solo_start seg fs path w k =
     \<lparr>so_file = map_option (fv_data (fs w)) (fv_names (fs w) (path k)), so_fds = Map.empty, so_mem = seg w k\<rparr>"

text \<open>The files of the clients are different files (no hard links), the regions have one size.\<close>

definition files_apart ::
  "nat \<Rightarrow> ('w \<Rightarrow> nat \<Rightarrow> u8 list) \<Rightarrow> ('w \<Rightarrow> fs_view) \<Rightarrow> (nat \<Rightarrow> u8 list) \<Rightarrow> 'w \<Rightarrow> bool" where
  "files_apart sz seg fs path w \<longleftrightarrow> (\<forall>k. length (seg w k) = sz) \<and>
     (\<forall>j k i. fv_names (fs w) (path j) = Some i \<longrightarrow> fv_names (fs w) (path k) = Some i \<longrightarrow> j = k)"

lemma run_alone:
  assumes run: "clients_run p (PosixExecutor L) seg set_seg (clients_start svc0) s" "quiet_service svc0"
    and L: "shared_directory L seg set_seg fs paths" and path: "range path \<subseteq> paths" "inj path"
    and start: "fd_table svc0 = Map.empty" "files_apart sz seg fs path (executor svc0)"
    and ev: "\<forall>x \<in> set (sy_trace s). event_ok sz path x"
    and few: "unat (next_fd svc0) + length (sy_trace s) + length (channels svc0) < 2 ^ 64 - 1"
  shows "\<exists>st. solo_run k (sy_trace s) (solo_start seg fs path (executor svc0) k) = Some st \<and>
    so_mem st = seg (executor (sy_service s)) k \<and>
    so_file st = map_option (fv_data (fs (executor (sy_service s)))) (fv_names (fs (executor (sy_service s))) (path k))"
proof -
  let ?E = "PosixExecutor L" and ?w = "executor svc0" and ?\<sigma> = "solo_start seg fs path (executor svc0)"
  have few': "unat (next_fd svc0) + length (sy_trace s) + length (channels svc0) < 2 ^ 64"
    "unat (next_fd svc0) + length (sy_trace s) < 2 ^ 64 - 1" using few by simp_all
  have inv: "clients_inv p ?E seg set_seg svc0 (sy_service s) (sy_pc s) (sy_trace s)"
    by (rule clients_run_inv [OF run(1) posix_sequential posix_open_reports clients_inv_start [OF run(2)] few'(1)])
  have replay: "replay p ?E seg set_seg (sy_trace s) (Map.empty, next_fd svc0, ?w) = Some (core (sy_service s))"
    using inv_parts(2) [OF inv] start(1) by (simp add: core_def)
  have "solo_views seg fs path (Map.empty, next_fd svc0, ?w) ?\<sigma>"
    using start(2) by (intro solo_viewsI) (simp_all add: solo_start_def files_apart_def)
  moreover have "\<forall>k. length (so_mem (?\<sigma> k)) = sz" using start(2) by (simp add: solo_start_def files_apart_def)
  moreover have "call_state k (sy_trace s) \<noteq> None" for k using inv_call_state [OF inv] by blast
  ultimately obtain fds nf w \<sigma> where c: "core (sy_service s) = (fds, nf, w)" "solo_views seg fs path (fds, nf, w) \<sigma>"
    "\<forall>k. solo_run k (sy_trace s) (?\<sigma> k) = Some (\<sigma> k)"
    using trace_alone [OF L path _ _ _ run_disciplined [OF run(1)] ev replay few'(2)] by blast
  have "w = executor (sy_service s)" using c(1) by (simp add: core_def)
  with c(3) solo_viewsD(1,2) [OF c(2), of k] show ?thesis by auto
qed

text \<open>C8. Concurrent clients with files of their own are isolated. Any number of clients open files, write, read,
  sync and close at the same time through one service, in any interleaving of pushes, iterations and pops; each
  opens only its own file, by a path that names no other client's file, and keeps data in its region.
  Then what happens to a client is what would happen if it were alone: each response it gets is one that
  a lone client with one file gets in the same place (opens may fail, everything else has the one result
  that the bytes of the file and the flags determine), and its file and its data region end up as the lone
  client leaves them.\<close>

theorem concurrent_clients_isolated:
  assumes "clients_run p (PosixExecutor L) seg set_seg (clients_start svc0) s" "quiet_service svc0"
    and "shared_directory L seg set_seg fs paths" "range path \<subseteq> paths" "inj path"
    and "fd_table svc0 = Map.empty" "files_apart sz seg fs path (executor svc0)"
    and "\<forall>x \<in> set (sy_trace s). event_ok sz path x"
    and "unat (next_fd svc0) + length (sy_trace s) + length (channels svc0) < 2 ^ 64 - 1"
  shows "\<exists>st. solo_run k (sy_trace s) (solo_start seg fs path (executor svc0) k) = Some st \<and>
    so_mem st = seg (executor (sy_service s)) k \<and>
    so_file st = map_option (fv_data (fs (executor (sy_service s)))) (fv_names (fs (executor (sy_service s))) (path k))"
  using assms by (rule run_alone)

text \<open>The example: two clients on an empty disk, of whom client 0 opens its file.\<close>

definition disk_clients :: "(disk_world, PassThrough) AtlasService" where
  "disk_clients = fresh_service (AtlasService_new
     \<lparr>dw_segs = (\<lambda>_. replicate 64 0), dw_names = [], dw_data = (\<lambda>_. []), dw_open = []\<rparr>) 2"

definition disk_path :: "nat \<Rightarrow> u8 list" where
  "disk_path k = replicate (Suc k) 97"

theorem concurrent_clients_isolated_witness:
  "\<exists>s st. clients_run Release (PosixExecutor dw_libc) dw_segs dw_set_seg (clients_start disk_clients) s \<and>
    sy_pc s 0 = At_Rest \<and>
    solo_run 0 (sy_trace s) (solo_start dw_segs dw_view disk_path (executor disk_clients) 0) = Some st \<and>
    so_mem st = dw_segs (executor (sy_service s)) 0"
proof -
  let ?r = "open_request 1 (disk_path 0) (O_CREAT OR O_RDWR)"
  have op: "io_op ?r = Some Open" by (simp add: io_op_def op_from_u8_def set_path_def IoRequest_new_def Let_def)
  then have free: "\<not> uses_fd ?r" by (simp add: uses_fd_def is_data_def)
  have "(2 :: nat) \<noteq> 0" "(2 :: nat) < 16" by simp_all
  from call_begun_returns [where L = dw_libc and seg = dw_segs and set_seg = dw_set_seg and n = 2 and
      w = "executor disk_clients", OF this free] obtain s es where
    s: "clients_run Release (PosixExecutor dw_libc) dw_segs dw_set_seg (clients_start disk_clients) s"
      "sy_pc s 0 = At_Rest" "sy_trace s = [Stores 0 id, Calls 0 ?r] @ es" "winds_up es" "length es < 300"
    by (elim exE conjE) (rule that, simp_all add: disk_clients_def fresh_service_def AtlasService_new_def with_pipeline_def)
  have facts: "fd_table disk_clients = Map.empty" "unat (next_fd disk_clients) = 1" "length (channels disk_clients) = 2"
    by (simp_all add: disk_clients_def fresh_service_def AtlasService_new_def with_pipeline_def)
  have quiet: "quiet_service disk_clients" unfolding disk_clients_def by (rule fresh_quiet)
  have inj: "inj disk_path" by (rule injI) (simp add: disk_path_def replicate_eq_replicate)
  have apart: "files_apart 64 dw_segs dw_view disk_path (executor disk_clients)"
    by (simp add: files_apart_def disk_clients_def fresh_service_def AtlasService_new_def with_pipeline_def dw_view_def)
  have "path_str ?r = disk_path 0" by (rule path_of_open_request) (simp_all add: disk_path_def utf8_valid.simps)
  then have "event_ok 64 disk_path (Calls 0 ?r)"
    using op by (simp add: event_ok_def own_request_def plain_flags_def O_CREAT_def O_RDWR_def O_TRUNC_def)
  moreover have "event_ok 64 disk_path e" if "e \<in> set es" for e
    using s(4) that by (cases e) (force simp: winds_up_def list_all_iff event_ok_def)+
  moreover have "event_ok 64 disk_path (Stores 0 id)" by (simp add: event_ok_def)
  ultimately have ev: "\<forall>x \<in> set (sy_trace s). event_ok 64 disk_path x" unfolding s(3) by simp
  have "unat (next_fd disk_clients) + length (sy_trace s) + length (channels disk_clients) < 2 ^ 64 - 1"
    using s(3,5) by (simp add: facts)
  from concurrent_clients_isolated [OF s(1) quiet dw_shared order.refl inj facts(1) apart ev this, of 0] s(1,2)
  show ?thesis by blast
qed

section \<open>The test with four threads\<close>

text \<open>\<open>multi_instance_concurrent\<close>: what one thread asks the service for, as requests of the client library.
  \<open>i\<close> is the first request id, \<open>off\<close> and \<open>off'\<close> are where the allocator puts the payload and the
  buffer of the read, \<open>rs\<close> the responses so far, from which it takes the descriptors.\<close>

definition instance_calls ::
  "u8 list \<Rightarrow> u8 list \<Rightarrow> (nat \<Rightarrow> u64) \<Rightarrow> u32 \<Rightarrow> u32 \<Rightarrow> IoResponse list \<Rightarrow> ((u8 list \<Rightarrow> u8 list) \<times> IoRequest) list" where
  "instance_calls path data i off off' rs =
     [(id, open_request (i 0) path (O_WRONLY OR O_CREAT OR O_TRUNC)),
      (\<lambda>m. overwrite m (unat off) data, (IoRequest_new (i 1) Write High)
         \<lparr>rq_fd := rs_fd (rs ! 0), rq_offset := 0, rq_len := of_nat (length data), rq_data_offset := off\<rparr>),
      (id, (IoRequest_new (i 2) Sync Critical)\<lparr>rq_fd := rs_fd (rs ! 0)\<rparr>),
      (id, (IoRequest_new (i 3) Close Low)\<lparr>rq_fd := rs_fd (rs ! 0)\<rparr>),
      (id, open_request (i 4) path O_RDONLY),
      (id, (IoRequest_new (i 5) Read High)
         \<lparr>rq_fd := rs_fd (rs ! 4), rq_offset := 0, rq_len := 128, rq_data_offset := off'\<rparr>),
      (id, (IoRequest_new (i 6) Close Low)\<lparr>rq_fd := rs_fd (rs ! 4)\<rparr>)]"

text \<open>The calls as events, one after the other.\<close>

definition call_events :: "nat \<Rightarrow> (u8 list \<Rightarrow> u8 list) \<times> IoRequest \<Rightarrow> IoResponse \<Rightarrow> event list" where
  "call_events k c resp = [Stores k (fst c), Calls k (snd c), Answers k (snd c) resp, Returns k (snd c) resp]"

definition instance_thread ::
  "nat \<Rightarrow> u8 list \<Rightarrow> u8 list \<Rightarrow> (nat \<Rightarrow> u64) \<Rightarrow> u32 \<Rightarrow> u32 \<Rightarrow> IoResponse list \<Rightarrow> event list" where
  "instance_thread k path data i off off' rs = concat (map2 (call_events k) (instance_calls path data i off off' rs) rs)"

lemma solo_run_own: "solo_run k tr s = solo_run k (filter (\<lambda>e. client_of_event e = k) tr) s"
proof (induction tr arbitrary: s)
  case (Cons e tr)
  have "solo_event k e s = Some s" if "client_of_event e \<noteq> k" using that by (cases e) (simp_all add: solo_event_def)
  with Cons show ?case by (cases "solo_event k e s") auto
qed simp

lemma solo_call:
  "solo_run k (call_events k (f, r) resp @ tr) s =
     Option.bind (solo_answer r resp (s\<lparr>so_mem := f (so_mem s)\<rparr>)) (solo_run k tr)"
  by (cases "solo_answer r resp (s\<lparr>so_mem := f (so_mem s)\<rparr>)") (simp_all add: call_events_def solo_event_def)

lemma request_ops:
  "io_op (open_request j path flags) = Some Open" "io_op ((IoRequest_new j op pr)\<lparr>rq_fd := fd\<rparr>) = Some op"
  "io_op ((IoRequest_new j op pr)\<lparr>rq_fd := fd, rq_offset := o', rq_len := n, rq_data_offset := d\<rparr>) = Some op"
  by (cases op; simp add: io_op_def op_from_u8_def set_path_def IoRequest_new_def Let_def)+

lemmas flags = can_read_def can_write_def O_RDONLY_def O_WRONLY_def O_RDWR_def O_CREAT_def O_TRUNC_def

lemma lone_thread:
  assumes run: "solo_run k (instance_thread k path data i off off' rs) s = Some st"
    and rs: "length rs = 7" "\<forall>resp \<in> set rs. rs_status resp = 0" and len: "length data \<le> 128"
  shows "take (unat (rs_data_len (rs ! 5))) (drop (unat (rs_data_offset (rs ! 5))) (so_mem st)) = data"
proof -
  obtain r0 r1 r2 r3 r4 r5 r6 where rsl: "rs = [r0, r1, r2, r3, r4, r5, r6]"
    using rs(1) by (auto simp: length_Suc_conv numeral_eq_Suc)
  have st: "rs_status r0 = 0" "rs_status r1 = 0" "rs_status r2 = 0" "rs_status r3 = 0" "rs_status r4 = 0"
    "rs_status r5 = 0" "rs_status r6 = 0" using rs(2) by (simp_all add: rsl)
  have n: "unat (of_nat (length data) :: u32) = length data" using len by (simp add: unat_of_nat)
  let ?s = "\<lambda>s f. s\<lparr>so_mem := f (so_mem s)\<rparr>"
  let ?q = "\<lambda>j. snd (instance_calls path data i off off' rs ! j)"
  from run obtain s1 s2 s3 s4 s5 s6 where
    1: "solo_answer (?q 0) r0 s = Some s1"
    and 2: "solo_answer (?q 1) r1 (?s s1 (\<lambda>m. overwrite m (unat off) data)) = Some s2"
    and 3: "solo_answer (?q 2) r2 s2 = Some s3" and 4: "solo_answer (?q 3) r3 s3 = Some s4"
    and 5: "solo_answer (?q 4) r4 s4 = Some s5" and 6: "solo_answer (?q 5) r5 s5 = Some s6"
    and 7: "solo_answer (?q 6) r6 s6 = Some st"
    by (auto simp: instance_thread_def instance_calls_def rsl solo_call solo_call [where tr = "[]", simplified]
        split: bind_splits)
  have f1: "so_file s1 = Some []" "so_fds s1 (rs_fd r0) = Some (O_WRONLY OR O_CREAT OR O_TRUNC)"
    using 1 st(1) by (auto simp: instance_calls_def solo_answer_def request_ops solo_open_def flags split: if_splits)
  have f2: "so_file s2 = Some data" "so_fds s2 = so_fds s1"
    using 2 st(2) f1 n by (auto simp: instance_calls_def solo_answer_def request_ops solo_write_def flags rsl overwrite_read
        overwrite_def split: if_splits)
  have f3: "so_file s3 = Some data" "so_fds s3 = so_fds s2"
    using 3 f1 f2 by (auto simp: instance_calls_def solo_answer_def request_ops rsl split: if_splits)
  have f4: "so_file s4 = Some data"
    using 4 f1 f2 f3 by (auto simp: instance_calls_def solo_answer_def request_ops rsl split: if_splits)
  have f5: "so_file s5 = Some data" "so_fds s5 (rs_fd r4) = Some O_RDONLY"
    using 5 st(5) f4 by (auto simp: instance_calls_def solo_answer_def request_ops solo_open_def flags split: if_splits)
  have f6: "unat (rs_data_len r5) = length data" "rs_data_offset r5 = off'"
    "so_mem s6 = overwrite (so_mem s5) (unat off') data" "so_fds s6 = so_fds s5" "so_file s6 = Some data"
    using 6 st(6) f5 len by (auto simp: instance_calls_def solo_answer_def request_ops solo_read_def flags rsl Let_def
        split: if_splits)
  have "so_mem st = so_mem s6"
    using 7 f5 f6(4,5) by (auto simp: instance_calls_def solo_answer_def request_ops rsl split: if_splits)
  then show ?thesis using f6 by (simp add: rsl overwrite_read)
qed

text \<open>The assertion of every thread holds: whatever the other threads do meanwhile, if its calls succeed
  (they are unwrapped), the slice that its read hands out holds its payload.\<close>

theorem multi_instance_concurrent:
  assumes "clients_run p (PosixExecutor L) seg set_seg (clients_start svc0) s" "quiet_service svc0"
    and "shared_directory L seg set_seg fs paths" "range path \<subseteq> paths" "inj path"
    and "fd_table svc0 = Map.empty" "files_apart sz seg fs path (executor svc0)"
    and "\<forall>x \<in> set (sy_trace s). event_ok sz path x"
    and "unat (next_fd svc0) + length (sy_trace s) + length (channels svc0) < 2 ^ 64 - 1"
    and "filter (\<lambda>e. client_of_event e = k) (sy_trace s) = instance_thread k (path k) data i off off' rs"
    and "length rs = 7" "\<forall>resp \<in> set rs. rs_status resp = 0" "length data \<le> 128"
  shows "take (unat (rs_data_len (rs ! 5))) (drop (unat (rs_data_offset (rs ! 5))) (seg (executor (sy_service s)) k)) = data"
proof -
  from run_alone [OF assms(1-9), of k] obtain st where
    st: "solo_run k (sy_trace s) (solo_start seg fs path (executor svc0) k) = Some st"
      "so_mem st = seg (executor (sy_service s)) k" by blast
  from st(1) have "solo_run k (instance_thread k (path k) data i off off' rs) (solo_start seg fs path (executor svc0) k) = Some st"
    unfolding solo_run_own [of k "sy_trace s"] assms(10) .
  from lone_thread [OF this assms(11-13)] show ?thesis unfolding st(2) .
qed

end
