(* ===== verification/Shm_Names.thy ===== *)
theory Shm_Names
  imports Protocol
begin

text \<open>
  The names of an instance's three shared-memory segments (\<open>atlas-protocol/src/lib.rs\<close>) and the parsing
  of instance ids from the command line (\<open>atlas-service/src/main.rs\<close>). Rust's formatting and parsing of
  unsigned integers are modelled on character lists.
\<close>

section \<open>Decimal numbers\<close>

definition digit :: "nat \<Rightarrow> char" where
  "digit d = char_of (48 + d)"

text \<open>Formatting with \<open>{}\<close>.\<close>

fun decimal :: "nat \<Rightarrow> string" where
  "decimal n = (if n < 10 then [digit n] else decimal (n div 10) @ [digit (n mod 10)])"

declare decimal.simps [simp del]

definition digit_value :: "char \<Rightarrow> nat option" where
  "digit_value c = (let v = (of_char c :: nat) in if 48 \<le> v \<and> v \<le> 57 then Some (v - 48) else None)"

text \<open>The loop of \<open>str::parse::<u32>\<close> over the digits: an error on any other character and on overflow.\<close>

fun parse_digits :: "nat \<Rightarrow> string \<Rightarrow> nat option" where
  "parse_digits acc [] = Some acc"
| "parse_digits acc (c # cs) =
     (case digit_value c of
        None \<Rightarrow> None
      | Some d \<Rightarrow> if 10 * acc + d < 2 ^ 32 then parse_digits (10 * acc + d) cs else None)"

definition parse_u32 :: "string \<Rightarrow> u32 option" where
  "parse_u32 s =
     (let t = (case s of c # cs \<Rightarrow> if c = CHR ''+'' then cs else s | [] \<Rightarrow> s) in
      if t = [] then None else map_option of_nat (parse_digits 0 t))"

section \<open>Names and arguments\<close>

definition shm_req_name :: "u32 \<Rightarrow> string" where
  "shm_req_name i = ''/'' @ SHM_PREFIX @ ''_req_'' @ decimal (unat i)"

definition shm_resp_name :: "u32 \<Rightarrow> string" where
  "shm_resp_name i = ''/'' @ SHM_PREFIX @ ''_resp_'' @ decimal (unat i)"

definition shm_data_name :: "u32 \<Rightarrow> string" where
  "shm_data_name i = ''/'' @ SHM_PREFIX @ ''_data_'' @ decimal (unat i)"

text \<open>The instances that \<open>register_and_run\<close> registers: the arguments that parse, in order.\<close>

definition instance_ids :: "string list \<Rightarrow> u32 list" where
  "instance_ids args = List.map_filter parse_u32 args"

section \<open>Lemmas\<close>

lemma digit_value_digit [simp]: "d < 10 \<Longrightarrow> digit_value (digit d) = Some d"
  by (simp add: digit_value_def digit_def Let_def)

lemma digit_plus [simp]: "d < 10 \<Longrightarrow> digit d \<noteq> CHR ''+''"
proof
  assume "d < 10" "digit d = CHR ''+''"
  then have "(of_char (digit d) :: nat) = of_char CHR ''+''" by simp
  with \<open>d < 10\<close> show False by (simp add: digit_def)
qed

lemma decimal_not_Nil [simp]: "decimal n \<noteq> []"
  by (subst decimal.simps) simp

lemma parse_digits_append:
  "parse_digits acc (xs @ ys) = Option.bind (parse_digits acc xs) (\<lambda>a. parse_digits a ys)"
  by (induction acc xs rule: parse_digits.induct) (auto split: option.splits)

lemma parse_digits_decimal: "n < 2 ^ 32 \<Longrightarrow> parse_digits 0 (decimal n) = Some n"
proof (induction n rule: decimal.induct)
  case (1 n)
  show ?case
  proof (cases "n < 10")
    case True
    then show ?thesis by (subst decimal.simps) simp
  next
    case False
    have "parse_digits 0 (decimal (n div 10)) = Some (n div 10)" using 1 False by simp
    moreover have "10 * (n div 10) + n mod 10 = n" by simp
    ultimately show ?thesis
      using False 1(2) by (subst decimal.simps) (simp add: parse_digits_append)
  qed
qed

lemma decimal_first: "\<exists>d cs. decimal n = digit d # cs \<and> d < 10"
proof (induction n rule: decimal.induct)
  case (1 n)
  show ?case
  proof (cases "n < 10")
    case True
    then have "decimal n = digit n # []" by (subst decimal.simps) simp
    with True show ?thesis by blast
  next
    case False
    with 1 obtain d cs where "decimal (n div 10) = digit d # cs" "d < 10" by blast
    with False have "decimal n = digit d # cs @ [digit (n mod 10)]" by (subst decimal.simps) simp
    with \<open>d < 10\<close> show ?thesis by blast
  qed
qed

lemma parse_u32_decimal: "parse_u32 (decimal (unat (i :: u32))) = Some i"
proof -
  obtain d cs where d: "decimal (unat i) = digit d # cs" "d < 10" using decimal_first by blast
  have "unat i < 2 ^ 32" using unsigned_less [of i] by simp
  then have "parse_digits 0 (digit d # cs) = Some (unat i)"
    unfolding d(1) [symmetric] by (rule parse_digits_decimal)
  then show ?thesis
    unfolding parse_u32_def Let_def d(1) using d(2) by (simp del: parse_digits.simps)
qed

lemma decimal_inj: "decimal (unat (i :: u32)) = decimal (unat j) \<Longrightarrow> i = j"
  using parse_u32_decimal [of i] parse_u32_decimal [of j] by (metis option.inject)

section \<open>Property\<close>

text \<open>Two segments have the same name only if they are the same segment of the same instance: the
  three names of an instance differ from one another and from those of every other instance. And an
  instance id written in decimal on the command line is registered as that id.\<close>

theorem shm_names_distinct:
  "(shm_req_name i = shm_req_name j \<longleftrightarrow> i = j) \<and> (shm_resp_name i = shm_resp_name j \<longleftrightarrow> i = j) \<and>
   (shm_data_name i = shm_data_name j \<longleftrightarrow> i = j) \<and> shm_req_name i \<noteq> shm_resp_name j \<and>
   shm_req_name i \<noteq> shm_data_name j \<and> shm_resp_name i \<noteq> shm_data_name j \<and>
   instance_ids [decimal (unat i)] = [i]"
  using decimal_inj [of i j]
  by (auto simp: shm_req_name_def shm_resp_name_def shm_data_name_def instance_ids_def
      List.map_filter_def parse_u32_decimal)

end
