(* ===== verification/Shm_Setup.thy ===== *)
theory Shm_Setup
  imports Channel_Rings Shm_Names
begin

text \<open>
  How a client and the service come to share an instance's three segments: \<open>PreparedChannel::create\<close> and
  \<open>connect\<close> of \<open>atlas-client/src/channel.rs\<close>, \<open>ServiceChannel::join\<close> of \<open>atlas-service/src/channel.rs\<close>, with
  the helpers that open, size and map segments. The system calls are a parameter, \<open>ShmOs\<close>; dropping
  a file descriptor closes it, which does not affect a mapping, and is left out.
\<close>

section \<open>The operating system\<close>

text \<open>The mapped memory as rings: the ring at an address, storing it, and what the iterations of an
  \<open>attach\<close> begun in a state load as its magic and capacity.\<close>

record ('s, 'a) RingMem =
  rm_at :: "'s \<Rightarrow> usize \<Rightarrow> 'a SpscRing"
  rm_put :: "usize \<Rightarrow> 'a SpscRing \<Rightarrow> 's \<Rightarrow> 's"
  rm_polls :: "'s \<Rightarrow> usize \<Rightarrow> nat \<Rightarrow> u64 \<times> usize"

text \<open>\<open>shm_unlink\<close> (its result is discarded), \<open>shm_open\<close> with or without \<open>O_CREAT\<close>, \<open>ftruncate\<close>, \<open>mmap\<close>.\<close>

record 's ShmOs =
  os_unlink :: "string \<Rightarrow> 's \<Rightarrow> 's"
  os_open :: "string \<Rightarrow> bool \<Rightarrow> 's \<Rightarrow> (i32 + i32) \<times> 's"
  os_truncate :: "i32 \<Rightarrow> usize \<Rightarrow> 's \<Rightarrow> (i32 + unit) \<times> 's"
  os_mmap :: "i32 \<Rightarrow> usize \<Rightarrow> 's \<Rightarrow> (i32 + usize) \<times> 's"
  os_req :: "('s, IoRequest) RingMem"
  os_resp :: "('s, IoResponse) RingMem"

text \<open>The errors of \<open>std::io::Result\<close> here: an error number, a failed attachment, and the timeout of
  \<open>connect\<close> with the last error seen.\<close>

datatype shm_error = Raw_Os i32 | Ring_Attach attach_error | Join_Timeout "(i32 + attach_error) option"

type_synonym ('s, 'a) shm_call = "'s \<Rightarrow> ((shm_error + 'a) \<times> 's) exec"

text \<open>Rust's \<open>?\<close>.\<close>

definition shm_then :: "('s, 'a) shm_call \<Rightarrow> ('a \<Rightarrow> ('s, 'b) shm_call) \<Rightarrow> ('s, 'b) shm_call" where
  "shm_then m f s =
     and_then (m s) (\<lambda>res. case res of (Inl e, s1) \<Rightarrow> Inr (Inl e, s1) | (Inr x, s1) \<Rightarrow> f x s1)"

definition shm_return :: "'a \<Rightarrow> ('s, 'a) shm_call" where
  "shm_return x s = Inr (Inr x, s)"

definition os_call :: "('s \<Rightarrow> (i32 + 'a) \<times> 's) \<Rightarrow> ('s, 'a) shm_call" where
  "os_call f s = (case f s of (Inl e, s1) \<Rightarrow> Inr (Inl (Raw_Os e), s1) | (Inr x, s1) \<Rightarrow> Inr (Inr x, s1))"

section \<open>Segments\<close>

text \<open>\<open>SpscRing::size_bytes\<close>: three padded 128-byte headers and \<open>N\<close> slots, rounded up to the alignment.\<close>

definition ring_size_bytes :: "usize \<Rightarrow> usize \<Rightarrow> usize" where
  "ring_size_bytes N slot = (384 + N * slot + 127) div 128 * 128"

text \<open>The sizes that the test \<open>sizes_are_stable\<close> fixes.\<close>

definition REQ_RING_BYTES :: usize where "REQ_RING_BYTES = ring_size_bytes RING_CAPACITY 296"
definition RESP_RING_BYTES :: usize where "RESP_RING_BYTES = ring_size_bytes RING_CAPACITY 32"

text \<open>\<open>NonZero::new(size).unwrap()\<close> panics on zero.\<close>

definition map_shm_sized :: "'s ShmOs \<Rightarrow> i32 \<Rightarrow> usize \<Rightarrow> ('s, usize) shm_call" where
  "map_shm_sized os fd sz s = (if sz = 0 then Inl Assertion else os_call (os_mmap os fd sz) s)"

definition create_ring_shm :: "'s ShmOs \<Rightarrow> string \<Rightarrow> usize \<Rightarrow> ('s, usize) shm_call" where
  "create_ring_shm os name sz s =
     shm_then (os_call (os_open os name True)) (\<lambda>fd.
     shm_then (os_call (os_truncate os fd sz)) (\<lambda>_. map_shm_sized os fd sz)) (os_unlink os name s)"

definition open_ring_shm :: "'s ShmOs \<Rightarrow> string \<Rightarrow> usize \<Rightarrow> ('s, usize) shm_call" where
  "open_ring_shm os name sz = shm_then (os_call (os_open os name False)) (\<lambda>fd. map_shm_sized os fd sz)"

text \<open>The service's copies of these helpers.\<close>

definition svc_map_shm_sized :: "'s ShmOs \<Rightarrow> i32 \<Rightarrow> usize \<Rightarrow> ('s, usize) shm_call" where
  "svc_map_shm_sized os fd sz s = (if sz = 0 then Inl Assertion else os_call (os_mmap os fd sz) s)"

definition open_existing_ring :: "'s ShmOs \<Rightarrow> string \<Rightarrow> usize \<Rightarrow> ('s, usize) shm_call" where
  "open_existing_ring os name sz =
     shm_then (os_call (os_open os name False)) (\<lambda>fd. svc_map_shm_sized os fd sz)"

definition create_or_open_ring :: "'s ShmOs \<Rightarrow> string \<Rightarrow> usize \<Rightarrow> ('s, usize) shm_call" where
  "create_or_open_ring os name sz =
     shm_then (os_call (os_open os name True)) (\<lambda>fd.
     shm_then (os_call (os_truncate os fd sz)) (\<lambda>_. svc_map_shm_sized os fd sz))"

text \<open>A mapped data region: pointer, length and the client's allocation counter.\<close>

record MappedRegion =
  mr_ptr :: usize
  mr_len :: usize
  mr_offset :: u32

definition DataRegion_create :: "'s ShmOs \<Rightarrow> string \<Rightarrow> ('s, MappedRegion) shm_call" where
  "DataRegion_create os name s =
     shm_then (os_call (os_open os name True)) (\<lambda>fd.
     shm_then (os_call (os_truncate os fd DATA_REGION_SIZE)) (\<lambda>_.
     shm_then (map_shm_sized os fd DATA_REGION_SIZE) (\<lambda>ptr.
       shm_return \<lparr>mr_ptr = ptr, mr_len = DATA_REGION_SIZE, mr_offset = 0\<rparr>))) (os_unlink os name s)"

text \<open>The client's \<open>DataRegion::join\<close>, which only its tests use, and the service's, which keeps the pointer.\<close>

definition DataRegion_join :: "'s ShmOs \<Rightarrow> string \<Rightarrow> ('s, MappedRegion) shm_call" where
  "DataRegion_join os name =
     shm_then (os_call (os_open os name False)) (\<lambda>fd.
     shm_then (map_shm_sized os fd DATA_REGION_SIZE) (\<lambda>ptr.
       shm_return \<lparr>mr_ptr = ptr, mr_len = DATA_REGION_SIZE, mr_offset = 0\<rparr>))"

definition svc_DataRegion_join :: "'s ShmOs \<Rightarrow> string \<Rightarrow> ('s, usize) shm_call" where
  "svc_DataRegion_join os name =
     shm_then (os_call (os_open os name False)) (\<lambda>fd s.
       if DATA_REGION_SIZE = 0 then Inl Assertion else os_call (os_mmap os fd DATA_REGION_SIZE) s)"

section \<open>The handshake\<close>

definition init_ring :: "('s, 'a) RingMem \<Rightarrow> usize \<Rightarrow> ('s, unit) shm_call" where
  "init_ring rm ptr s =
     and_then (init_in_place RING_CAPACITY ptr (rm_at rm s ptr)) (\<lambda>r. Inr (Inr (), rm_put rm ptr r s))"

definition attach_ring :: "('s, 'a) RingMem \<Rightarrow> usize \<Rightarrow> ('s, unit) shm_call" where
  "attach_ring rm ptr s =
     and_then (attach RING_CAPACITY ptr (rm_polls rm s ptr)) (\<lambda>res.
       Inr (case res of Inl e \<Rightarrow> Inl (Ring_Attach e) | Inr _ \<Rightarrow> Inr (), s))"

definition cleanup_shm :: "'s ShmOs \<Rightarrow> u32 \<Rightarrow> 's \<Rightarrow> 's" where
  "cleanup_shm os i s =
     os_unlink os (shm_data_name i) (os_unlink os (shm_resp_name i) (os_unlink os (shm_req_name i) s))"

record PreparedChannel =
  pc_req :: usize
  pc_req_tx :: Producer
  pc_data :: MappedRegion
  pc_instance :: u32

definition PreparedChannel_create :: "'s ShmOs \<Rightarrow> u32 \<Rightarrow> ('s, PreparedChannel) shm_call" where
  "PreparedChannel_create os i s =
     shm_then (create_ring_shm os (shm_req_name i) REQ_RING_BYTES) (\<lambda>req.
     shm_then (init_ring (os_req os) req) (\<lambda>_ s1.
       let tx = Producer_new (rm_at (os_req os) s1 req) in
       shm_then (DataRegion_create os (shm_data_name i)) (\<lambda>data.
         shm_return \<lparr>pc_req = req, pc_req_tx = tx, pc_data = data, pc_instance = i\<rparr>) s1))
     (cleanup_shm os i s)"

text \<open>The client's channel once connected, by its pointers and ends.\<close>

record ClientEnds =
  ce_req :: usize
  ce_req_tx :: Producer
  ce_resp :: usize
  ce_resp_rx :: Consumer
  ce_data :: MappedRegion
  ce_instance :: u32

text \<open>One attempt of \<open>connect\<close>.\<close>

definition connect_once :: "'s ShmOs \<Rightarrow> PreparedChannel \<Rightarrow> ('s, ClientEnds) shm_call" where
  "connect_once os pc =
     shm_then (open_ring_shm os (shm_resp_name (pc_instance pc)) RESP_RING_BYTES) (\<lambda>ptr.
     shm_then (attach_ring (os_resp os) ptr) (\<lambda>_ s.
       shm_return \<lparr>ce_req = pc_req pc, ce_req_tx = pc_req_tx pc, ce_resp = ptr,
         ce_resp_rx = Consumer_new (rm_at (os_resp os) s ptr), ce_data = pc_data pc,
         ce_instance = pc_instance pc\<rparr> s))"

text \<open>The loop: \<open>sleep i\<close> is what the other processes do while the client sleeps after attempt \<open>i\<close>.\<close>

definition last_error :: "shm_error \<Rightarrow> (i32 + attach_error) option" where
  "last_error e = (case e of Raw_Os n \<Rightarrow> Some (Inl n) | Ring_Attach a \<Rightarrow> Some (Inr a) | Join_Timeout l \<Rightarrow> l)"

fun connect_loop ::
  "'s ShmOs \<Rightarrow> (nat \<Rightarrow> 's \<Rightarrow> 's) \<Rightarrow> PreparedChannel \<Rightarrow> nat \<Rightarrow> nat \<Rightarrow> (i32 + attach_error) option \<Rightarrow>
   ('s, ClientEnds) shm_call" where
  "connect_loop os sleep pc i 0 last_err s = Inr (Inl (Join_Timeout last_err), s)"
| "connect_loop os sleep pc i (Suc n) last_err s =
     and_then (connect_once os pc s) (\<lambda>res. case res of
         (Inr ch, s1) \<Rightarrow> Inr (Inr ch, s1)
       | (Inl e, s1) \<Rightarrow> connect_loop os sleep pc (Suc i) n (last_error e) (sleep i s1))"

definition CONNECT_ATTEMPTS :: nat where "CONNECT_ATTEMPTS = 200"

definition PreparedChannel_connect ::
  "'s ShmOs \<Rightarrow> (nat \<Rightarrow> 's \<Rightarrow> 's) \<Rightarrow> PreparedChannel \<Rightarrow> ('s, ClientEnds) shm_call" where
  "PreparedChannel_connect os sleep pc = connect_loop os sleep pc 0 CONNECT_ATTEMPTS None"

text \<open>\<open>ClientChannel::create\<close>: both phases in a row.\<close>

definition ClientChannel_create ::
  "'s ShmOs \<Rightarrow> (nat \<Rightarrow> 's \<Rightarrow> 's) \<Rightarrow> u32 \<Rightarrow> ('s, ClientEnds) shm_call" where
  "ClientChannel_create os sleep i = shm_then (PreparedChannel_create os i) (PreparedChannel_connect os sleep)"

text \<open>\<open>AtlasClient::new\<close>, \<open>prepare\<close> and \<open>connect\<close> (the client has no state but its channel), and \<open>atlas_client_create\<close>
  of the C interface, where \<open>None\<close> is the null pointer.\<close>

definition AtlasClient_new :: "'s ShmOs \<Rightarrow> (nat \<Rightarrow> 's \<Rightarrow> 's) \<Rightarrow> u32 \<Rightarrow> ('s, ClientEnds) shm_call" where
  "AtlasClient_new os sleep i = shm_then (ClientChannel_create os sleep i) shm_return"

definition AtlasClient_prepare :: "'s ShmOs \<Rightarrow> u32 \<Rightarrow> ('s, PreparedChannel) shm_call" where
  "AtlasClient_prepare os i = PreparedChannel_create os i"

definition AtlasClient_connect ::
  "'s ShmOs \<Rightarrow> (nat \<Rightarrow> 's \<Rightarrow> 's) \<Rightarrow> PreparedChannel \<Rightarrow> ('s, ClientEnds) shm_call" where
  "AtlasClient_connect os sleep pc = shm_then (PreparedChannel_connect os sleep pc) shm_return"

definition ffi_create :: "'s ShmOs \<Rightarrow> (nat \<Rightarrow> 's \<Rightarrow> 's) \<Rightarrow> u32 \<Rightarrow> 's \<Rightarrow> (ClientEnds option \<times> 's) exec" where
  "ffi_create os sleep i s =
     and_then (AtlasClient_new os sleep i s) (\<lambda>res. case res of
         (Inr client, s1) \<Rightarrow> Inr (Some client, s1)
       | (Inl _, s1) \<Rightarrow> Inr (None, s1))"

record ServiceEnds =
  se_req :: usize
  se_req_rx :: Consumer
  se_resp :: usize
  se_resp_tx :: Producer
  se_data :: usize
  se_instance :: u32

definition ServiceChannel_join :: "'s ShmOs \<Rightarrow> u32 \<Rightarrow> ('s, ServiceEnds) shm_call" where
  "ServiceChannel_join os i =
     shm_then (open_existing_ring os (shm_req_name i) REQ_RING_BYTES) (\<lambda>req.
     shm_then (attach_ring (os_req os) req) (\<lambda>_ s1.
       let rx = Consumer_new (rm_at (os_req os) s1 req) in
       shm_then (create_or_open_ring os (shm_resp_name i) RESP_RING_BYTES) (\<lambda>resp.
       shm_then (init_ring (os_resp os) resp) (\<lambda>_ s2.
         let tx = Producer_new (rm_at (os_resp os) s2 resp) in
         shm_then (svc_DataRegion_join os (shm_data_name i)) (\<lambda>data.
           shm_return \<lparr>se_req = req, se_req_rx = rx, se_resp = resp, se_resp_tx = tx, se_data = data,
             se_instance = i\<rparr>) s2)) s1))"

section \<open>The daemon\<close>

text \<open>\<open>AtlasService::register\<close> on the list of channels, and \<open>register_and_run\<close> of \<open>main.rs\<close> up to the call of
  \<open>run\<close>: an argument that is not a number is skipped, a channel that cannot be joined is reported and
  left out.\<close>

definition register_channel :: "'s ShmOs \<Rightarrow> u32 \<Rightarrow> ServiceEnds list \<Rightarrow> ('s, ServiceEnds list) shm_call" where
  "register_channel os i chans = shm_then (ServiceChannel_join os i) (\<lambda>ch. shm_return (chans @ [ch]))"

fun register_args :: "'s ShmOs \<Rightarrow> string list \<Rightarrow> ServiceEnds list \<Rightarrow> 's \<Rightarrow> (ServiceEnds list \<times> 's) exec" where
  "register_args os [] chans s = Inr (chans, s)"
| "register_args os (arg # args) chans s =
     (case parse_u32 arg of
        None \<Rightarrow> register_args os args chans s
      | Some i \<Rightarrow>
          and_then (register_channel os i chans s) (\<lambda>res. case res of
              (Inr chans1, s1) \<Rightarrow> register_args os args chans1 s1
            | (Inl e, s1) \<Rightarrow> register_args os args chans s1))"

lemma shm_then_return [simp]: "shm_then m shm_return = m"
  by (auto simp: fun_eq_iff shm_then_def shm_return_def and_then_def split: sum.split)

lemma AtlasClient_simps [simp]:
  "AtlasClient_new os sleep i = ClientChannel_create os sleep i"
  "AtlasClient_prepare os i = PreparedChannel_create os i"
  "AtlasClient_connect os sleep pc = PreparedChannel_connect os sleep pc"
  by (simp_all add: AtlasClient_new_def AtlasClient_prepare_def AtlasClient_connect_def)

end
