(* ===== verification/Shm_Handshake.thy ===== *)
theory Shm_Handshake
  imports Shm_Setup Service_Channel
begin

text \<open>
  What the startup protocol establishes: after a client has prepared an instance, the service has joined
  it and the client has connected, the two processes hold the two ends of the same two empty rings and
  the same data region.
\<close>

section \<open>What the operating system promises\<close>

text \<open>The shared state behind the system calls: the object each name stands for, the object behind each
  descriptor and each mapped address, and the rings in the objects.\<close>

record shm_view =
  v_names :: "string \<Rightarrow> nat option"
  v_fds :: "i32 \<Rightarrow> nat option"
  v_maps :: "usize \<Rightarrow> nat option"
  v_req :: "nat \<Rightarrow> IoRequest SpscRing"
  v_resp :: "nat \<Rightarrow> IoResponse SpscRing"

text \<open>A new object has no name and no mapping, and its bytes are zero.\<close>

definition fresh_object :: "shm_view \<Rightarrow> nat \<Rightarrow> bool" where
  "fresh_object v x \<longleftrightarrow> (\<forall>n. v_names v n \<noteq> Some x) \<and> (\<forall>p. v_maps v p \<noteq> Some x) \<and>
     magic (v_req v x) = 0 \<and> magic (v_resp v x) = 0"

text \<open>What \<open>shm_open\<close> may open: the object of the name, or a new one with \<open>O_CREAT\<close>.\<close>

definition may_open :: "bool \<Rightarrow> string \<Rightarrow> shm_view \<Rightarrow> nat \<Rightarrow> bool" where
  "may_open create n v x \<longleftrightarrow> v_names v n = Some x \<or> create \<and> v_names v n = None \<and> fresh_object v x"

text \<open>Memory: every mapping of an object shows the same ring, a store goes to the object, the first loads
  of an \<open>attach\<close> see it, and an array has the length of its type.\<close>

definition ring_memory ::
  "('s \<Rightarrow> shm_view) \<Rightarrow> ('s, 'a) RingMem \<Rightarrow> (shm_view \<Rightarrow> nat \<Rightarrow> 'a SpscRing) \<Rightarrow> bool" where
  "ring_memory view rm ring \<longleftrightarrow>
     (\<forall>s p x. v_maps (view s) p = Some x \<longrightarrow> rm_at rm s p = ring (view s) x \<and>
        rm_polls rm s p 0 = (magic (ring (view s) x), capacity (ring (view s) x))) \<and>
     (\<forall>s x. length (slots (ring (view s) x)) = unat RING_CAPACITY)"

definition open_law :: "'s ShmOs \<Rightarrow> ('s \<Rightarrow> shm_view) \<Rightarrow> bool" where
  "open_law os view \<longleftrightarrow> (\<forall>n c s. case os_open os n c s of
       (Inl _, s') \<Rightarrow> view s' = view s
     | (Inr fd, s') \<Rightarrow> \<exists>x. may_open c n (view s) x \<and>
         view s' = (view s)\<lparr>v_names := (v_names (view s))(n \<mapsto> x), v_fds := (v_fds (view s))(fd \<mapsto> x)\<rparr>)"

definition mmap_law :: "'s ShmOs \<Rightarrow> ('s \<Rightarrow> shm_view) \<Rightarrow> bool" where
  "mmap_law os view \<longleftrightarrow> (\<forall>fd sz s. case os_mmap os fd sz s of
       (Inl _, s') \<Rightarrow> view s' = view s
     | (Inr p, s') \<Rightarrow> p mod 128 = 0 \<and> v_maps (view s) p = None \<and>
         (\<exists>x. v_fds (view s) fd = Some x \<and> view s' = (view s)\<lparr>v_maps := (v_maps (view s))(p \<mapsto> x)\<rparr>))"

definition put_law :: "'s ShmOs \<Rightarrow> ('s \<Rightarrow> shm_view) \<Rightarrow> bool" where
  "put_law os view \<longleftrightarrow> (\<forall>s p x. v_maps (view s) p = Some x \<longrightarrow>
     (\<forall>r. length (slots r) = unat RING_CAPACITY \<longrightarrow> (\<exists>g. view (rm_put (os_req os) p r s) =
        (view s)\<lparr>v_req := (v_req (view s))(x := r), v_resp := (v_resp (view s))(x := g)\<rparr>)) \<and>
     (\<forall>r. length (slots r) = unat RING_CAPACITY \<longrightarrow> (\<exists>g. view (rm_put (os_resp os) p r s) =
        (view s)\<lparr>v_resp := (v_resp (view s))(x := r), v_req := (v_req (view s))(x := g)\<rparr>)))"

definition shm_contract :: "'s ShmOs \<Rightarrow> ('s \<Rightarrow> shm_view) \<Rightarrow> bool" where
  "shm_contract os view \<longleftrightarrow>
     (\<forall>n s. view (os_unlink os n s) = (view s)\<lparr>v_names := (v_names (view s))(n := None)\<rparr>) \<and>
     (\<forall>fd sz s. view (snd (os_truncate os fd sz s)) = view s) \<and> open_law os view \<and> mmap_law os view \<and>
     put_law os view \<and> ring_memory view (os_req os) v_req \<and> ring_memory view (os_resp os) v_resp"

lemma contract_unlink: "shm_contract os view \<Longrightarrow>
  view (os_unlink os n s) = (view s)\<lparr>v_names := (v_names (view s))(n := None)\<rparr>"
  by (simp add: shm_contract_def)

lemma contract_open:
  assumes "shm_contract os view" "os_open os n c s = (r, s')"
  shows "case r of Inl _ \<Rightarrow> view s' = view s
    | Inr fd \<Rightarrow> \<exists>x. may_open c n (view s) x \<and>
        view s' = (view s)\<lparr>v_names := (v_names (view s))(n \<mapsto> x), v_fds := (v_fds (view s))(fd \<mapsto> x)\<rparr>"
proof -
  have "open_law os view" using assms(1) by (simp add: shm_contract_def)
  then show ?thesis
    unfolding open_law_def using assms(2) by (auto dest!: spec [of _ n] spec [of _ c] spec [of _ s])
qed

lemma contract_truncate: "shm_contract os view \<Longrightarrow> os_truncate os fd sz s = (r, s') \<Longrightarrow> view s' = view s"
  unfolding shm_contract_def by (metis snd_conv)

lemma contract_mmap:
  assumes "shm_contract os view" "os_mmap os fd sz s = (r, s')"
  shows "case r of Inl _ \<Rightarrow> view s' = view s
    | Inr p \<Rightarrow> p mod 128 = 0 \<and> v_maps (view s) p = None \<and>
        (\<exists>x. v_fds (view s) fd = Some x \<and> view s' = (view s)\<lparr>v_maps := (v_maps (view s))(p \<mapsto> x)\<rparr>)"
proof -
  have "mmap_law os view" using assms(1) by (simp add: shm_contract_def)
  then show ?thesis
    unfolding mmap_law_def using assms(2) by (auto dest!: spec [of _ fd] spec [of _ sz] spec [of _ s])
qed

lemma contract_rings: "shm_contract os view \<Longrightarrow> ring_memory view (os_req os) v_req"
  "shm_contract os view \<Longrightarrow> ring_memory view (os_resp os) v_resp"
  by (simp_all add: shm_contract_def)

lemma contract_put:
  assumes "shm_contract os view" "v_maps (view s) p = Some x"
  shows "length (slots r) = unat RING_CAPACITY \<Longrightarrow> \<exists>g. view (rm_put (os_req os) p r s) =
      (view s)\<lparr>v_req := (v_req (view s))(x := r), v_resp := (v_resp (view s))(x := g)\<rparr>"
    "length (slots r') = unat RING_CAPACITY \<Longrightarrow> \<exists>g. view (rm_put (os_resp os) p r' s) =
      (view s)\<lparr>v_resp := (v_resp (view s))(x := r'), v_req := (v_req (view s))(x := g)\<rparr>"
  using assms by (simp_all add: shm_contract_def put_law_def)

section \<open>The helpers\<close>

text \<open>A call returns, fails only with an error number, and ends as described.\<close>

definition ends ::
  "('s \<Rightarrow> shm_view) \<Rightarrow> (shm_view \<Rightarrow> bool) \<Rightarrow> ('a \<Rightarrow> shm_view \<Rightarrow> bool) \<Rightarrow> ((shm_error + 'a) \<times> 's) exec \<Rightarrow> bool" where
  "ends view failed done out \<longleftrightarrow>
     (case out of
        Inl _ \<Rightarrow> False
      | Inr (Inl e, s') \<Rightarrow> (\<exists>n. e = Raw_Os n) \<and> failed (view s')
      | Inr (Inr x, s') \<Rightarrow> done x (view s'))"

lemma ends_then:
  assumes "ends view failed mid (m s)" "\<And>x s1. mid x (view s1) \<Longrightarrow> ends view failed done (f x s1)"
  shows "ends view failed done (shm_then m f s)"
proof (cases "m s")
  case (Inl e)
  with assms(1) show ?thesis by (simp add: ends_def)
next
  case (Inr res)
  obtain r s1 where m: "m s = Inr (r, s1)" using Inr by (cases res) auto
  show ?thesis
  proof (cases r)
    case (Inl e)
    with assms(1) m show ?thesis by (auto simp: ends_def shm_then_def)
  next
    case (Inr x)
    with assms(1) m have "mid x (view s1)" by (simp add: ends_def)
    from assms(2) [OF this] Inr m show ?thesis by (simp add: shm_then_def)
  qed
qed

lemma ends_return: "done x (view s) \<Longrightarrow> ends view failed done (shm_return x s)"
  by (simp add: ends_def shm_return_def)

lemma ends_weaken:
  assumes "ends view failed mid out" "\<And>x v. mid x v \<Longrightarrow> done x v" "\<And>v. failed v \<Longrightarrow> failed' v"
  shows "ends view failed' done out"
  using assms by (auto simp: ends_def split: sum.splits prod.splits)

text \<open>From one view to the next the segments of an instance are left alone: its names stand for the same
  objects, the rings in them are unchanged, and no mapping is gone. Other instances may be at work.\<close>

definition instance_names :: "u32 \<Rightarrow> string set" where
  "instance_names i = {shm_req_name i, shm_resp_name i, shm_data_name i}"

definition same_segments :: "u32 \<Rightarrow> shm_view \<Rightarrow> shm_view \<Rightarrow> bool" where
  "same_segments i v v' \<longleftrightarrow> v_maps v \<subseteq>\<^sub>m v_maps v' \<and>
     (\<forall>n \<in> instance_names i. v_names v' n = v_names v n \<and>
        (\<forall>x. v_names v n = Some x \<longrightarrow> v_req v' x = v_req v x \<and> v_resp v' x = v_resp v x))"

lemma same_segments_refl [simp]: "same_segments i v v"
  by (simp add: same_segments_def)

lemma same_segments_fds [simp]: "same_segments i v (v\<lparr>v_fds := f\<rparr>)"
  by (simp add: same_segments_def)

lemma same_segments_trans: "same_segments i u v \<Longrightarrow> same_segments i v w \<Longrightarrow> same_segments i u w"
  by (auto simp: same_segments_def intro: map_le_trans)

lemma same_segments_map: "same_segments i v v' \<Longrightarrow> v_maps v p = Some x \<Longrightarrow> v_maps v' p = Some x"
  by (auto simp: same_segments_def map_le_def dom_def)

lemma same_segments_names:
  assumes "same_segments i v v'"
  shows "v_names v' (shm_req_name i) = v_names v (shm_req_name i)"
    "v_names v' (shm_resp_name i) = v_names v (shm_resp_name i)"
    "v_names v' (shm_data_name i) = v_names v (shm_data_name i)"
    "v_names v (shm_req_name i) = Some a \<Longrightarrow> v_req v' a = v_req v a"
    "v_names v (shm_resp_name i) = Some c \<Longrightarrow> v_resp v' c = v_resp v c"
  using assms by (auto simp: same_segments_def instance_names_def)

text \<open>A segment was opened by name and mapped at an address that was free.\<close>

definition mapped_at :: "bool \<Rightarrow> string \<Rightarrow> shm_view \<Rightarrow> usize \<Rightarrow> shm_view \<Rightarrow> bool" where
  "mapped_at create n v p v' \<longleftrightarrow> p mod 128 = 0 \<and> v_maps v p = None \<and>
     (\<exists>x f. may_open create n v x \<and>
        v' = v\<lparr>v_names := (v_names v)(n \<mapsto> x), v_fds := f, v_maps := (v_maps v)(p \<mapsto> x)\<rparr>)"

lemma open_map:
  assumes "shm_contract os view" "sz \<noteq> 0"
  shows "ends view (same_segments i (view s)) (mapped_at False n (view s))
    (shm_then (os_call (os_open os n False)) (\<lambda>fd. map_shm_sized os fd sz) s)"
proof -
  obtain r s1 where o: "os_open os n False s = (r, s1)" by force
  note co = contract_open [OF assms(1) o]
  show ?thesis
  proof (cases r)
    case (Inl e)
    with o co show ?thesis
      by (simp add: ends_def shm_then_def os_call_def)
  next
    case (Inr fd)
    with co obtain x where x: "may_open False n (view s) x"
      "view s1 = (view s)\<lparr>v_names := (v_names (view s))(n \<mapsto> x), v_fds := (v_fds (view s))(fd \<mapsto> x)\<rparr>"
      by auto
    have names: "(v_names (view s))(n \<mapsto> x) = v_names (view s)"
      using x(1) by (auto simp: may_open_def)
    obtain r2 s2 where m: "os_mmap os fd sz s1 = (r2, s2)" by force
    note cm = contract_mmap [OF assms(1) m]
    show ?thesis
    proof (cases r2)
      case (Inl e)
      with o Inr m cm x names assms(2) show ?thesis
        by (simp add: ends_def shm_then_def os_call_def map_shm_sized_def)
    next
      case (Inr p)
      with cm x have "mapped_at False n (view s) p (view s2)"
        by (auto simp: mapped_at_def)
      with o \<open>r = Inr fd\<close> m Inr assms(2) show ?thesis
        by (simp add: ends_def shm_then_def os_call_def map_shm_sized_def)
    qed
  qed
qed

lemma create_map:
  assumes "shm_contract os view" "sz \<noteq> 0"
  shows "ends view (\<lambda>_. True) (mapped_at True n (view s))
    (shm_then (os_call (os_open os n True)) (\<lambda>fd.
     shm_then (os_call (os_truncate os fd sz)) (\<lambda>_. map_shm_sized os fd sz)) s)"
proof -
  obtain r s1 where o: "os_open os n True s = (r, s1)" by force
  note co = contract_open [OF assms(1) o]
  show ?thesis
  proof (cases r)
    case (Inl e)
    with o show ?thesis by (simp add: ends_def shm_then_def os_call_def)
  next
    case (Inr fd)
    with co obtain x where x: "may_open True n (view s) x"
      "view s1 = (view s)\<lparr>v_names := (v_names (view s))(n \<mapsto> x), v_fds := (v_fds (view s))(fd \<mapsto> x)\<rparr>"
      by auto
    obtain r2 s2 where t: "os_truncate os fd sz s1 = (r2, s2)" by force
    have v2: "view s2 = view s1" using contract_truncate [OF assms(1) t] .
    obtain r3 s3 where m: "os_mmap os fd sz s2 = (r3, s3)" by force
    note cm = contract_mmap [OF assms(1) m]
    have "mapped_at True n (view s) p (view s3)" if "r3 = Inr p" for p
      using that cm x v2 by (auto simp: mapped_at_def)
    then show ?thesis
      using o Inr t m assms(2)
      by (auto simp: ends_def shm_then_def os_call_def map_shm_sized_def split: sum.split)
  qed
qed

lemma svc_map_eq: "svc_map_shm_sized = map_shm_sized"
  by (simp add: fun_eq_iff svc_map_shm_sized_def map_shm_sized_def)

lemma sizes_positive: "REQ_RING_BYTES \<noteq> 0" "RESP_RING_BYTES \<noteq> 0" "DATA_REGION_SIZE \<noteq> 0"
  by (simp_all add: REQ_RING_BYTES_def RESP_RING_BYTES_def ring_size_bytes_def RING_CAPACITY_def
      DATA_REGION_SIZE_def)

text \<open>A ring that has been initialised and not used.\<close>

definition ring_ready :: "'a SpscRing \<Rightarrow> bool" where
  "ring_ready r \<longleftrightarrow> magic r = MAGIC \<and> capacity r = RING_CAPACITY \<and> ring_tail r = 0 \<and> ring_head r = 0 \<and>
     length (slots r) = unat RING_CAPACITY"

lemma ring_ready_open:
  "ring_ready r \<Longrightarrow> spsc_wf RING_CAPACITY (spsc_open r) \<and> spsc_contents RING_CAPACITY (spsc_open r) = []"
  using RING_CAPACITY_power
  by (simp add: ring_ready_def spsc_wf_open ring_wf_def window_def spsc_contents_def ring_contents_def)

lemma place_ok_aligned: "p mod 128 = 0 \<Longrightarrow> place_ok RING_CAPACITY p"
  using RING_CAPACITY_power by (simp add: place_ok_def RING_CAPACITY_def)

lemma init_ready:
  assumes "ring_memory view rm ring" "v_maps (view s) p = Some x" "p mod 128 = 0" "magic (ring (view s) x) = 0"
    and put: "\<And>r. length (slots r) = unat RING_CAPACITY \<Longrightarrow> \<exists>g. view (rm_put rm p r s) = upd g r"
  shows "ends view failed (\<lambda>_ v'. \<exists>g r. ring_ready r \<and> v' = upd g r) (init_ring rm p s)"
proof -
  let ?r = "(ring (view s) x)\<lparr>capacity := RING_CAPACITY, ring_tail := 0, ring_head := 0, magic := MAGIC\<rparr>"
  have mem: "rm_at rm s p = ring (view s) x" "length (slots (ring (view s) x)) = unat RING_CAPACITY"
    using assms(1,2) by (auto simp: ring_memory_def)
  have "init_in_place RING_CAPACITY p (ring (view s) x) = Inr ?r"
    using place_ok_aligned [OF assms(3)] assms(4) by (simp add: init_in_place_def)
  moreover have "ring_ready ?r" using mem(2) by (simp add: ring_ready_def)
  moreover obtain g where "view (rm_put rm p ?r s) = upd g ?r" using put [of ?r] mem(2) by auto
  ultimately show ?thesis using mem(1) by (auto simp: init_ring_def ends_def)
qed

lemma init_req:
  assumes "shm_contract os view" "v_maps (view s) p = Some x" "p mod 128 = 0" "magic (v_req (view s) x) = 0"
  shows "ends view failed (\<lambda>_ v'. \<exists>g r. ring_ready r \<and>
      v' = (view s)\<lparr>v_req := (v_req (view s))(x := r), v_resp := (v_resp (view s))(x := g)\<rparr>)
    (init_ring (os_req os) p s)"
  by (rule init_ready [OF contract_rings(1) [OF assms(1)] assms(2-4) contract_put(1) [OF assms(1,2)]])

lemma init_resp:
  assumes "shm_contract os view" "v_maps (view s) p = Some x" "p mod 128 = 0" "magic (v_resp (view s) x) = 0"
  shows "ends view failed (\<lambda>_ v'. \<exists>g r. ring_ready r \<and>
      v' = (view s)\<lparr>v_resp := (v_resp (view s))(x := r), v_req := (v_req (view s))(x := g)\<rparr>)
    (init_ring (os_resp os) p s)"
  by (rule init_ready [OF contract_rings(2) [OF assms(1)] assms(2-4) contract_put(2) [OF assms(1,2)]])

text \<open>Attaching to an initialised ring succeeds at the first look and changes nothing.\<close>

lemma attach_initialised:
  assumes "ring_memory view rm ring" "v_maps (view s) p = Some x" "p mod 128 = 0"
    and "magic (ring (view s) x) = MAGIC" "capacity (ring (view s) x) = RING_CAPACITY"
  shows "ends view failed (\<lambda>_ v'. v' = view s) (attach_ring rm p s)"
proof -
  have "rm_polls rm s p 0 = (MAGIC, RING_CAPACITY)"
    using assms(1,2,4,5) by (auto simp: ring_memory_def)
  then have "attach RING_CAPACITY p (rm_polls rm s p) = Inr (Inr ())"
    using place_ok_aligned [OF assms(3)] by (simp add: attach_def attach_loop_first ATTACH_SPINS_def)
  then show ?thesis by (simp add: attach_ring_def ends_def)
qed

lemma attach_ready:
  assumes "ring_memory view rm ring" "v_maps (view s) p = Some x" "p mod 128 = 0" "ring_ready (ring (view s) x)"
  shows "ends view failed (\<lambda>_ v'. v' = view s) (attach_ring rm p s)"
  using assms(4) by (intro attach_initialised [OF assms(1-3)]) (simp_all add: ring_ready_def)

section \<open>The three phases\<close>

lemma names_differ [simp]:
  "shm_req_name i \<noteq> shm_resp_name j" "shm_req_name i \<noteq> shm_data_name j" "shm_resp_name i \<noteq> shm_data_name j"
  "shm_resp_name i \<noteq> shm_req_name j" "shm_data_name i \<noteq> shm_req_name j" "shm_data_name i \<noteq> shm_resp_name j"
  by (simp_all add: shm_req_name_def shm_resp_name_def shm_data_name_def)

text \<open>After the first phase: the client's request ring and data region exist under their names, and no
  response ring does.\<close>

definition fresh_region :: "MappedRegion \<Rightarrow> bool" where
  "fresh_region d \<longleftrightarrow> mr_len d = DATA_REGION_SIZE \<and> mr_offset d = 0"

definition client_prepared :: "PreparedChannel \<Rightarrow> u32 \<Rightarrow> shm_view \<Rightarrow> bool" where
  "client_prepared pc i v \<longleftrightarrow> pc_instance pc = i \<and> fresh_region (pc_data pc) \<and> v_names v (shm_resp_name i) = None \<and>
     (\<exists>a b. v_names v (shm_req_name i) = Some a \<and> v_names v (shm_data_name i) = Some b \<and> a \<noteq> b \<and>
        v_maps v (pc_req pc) = Some a \<and> v_maps v (mr_ptr (pc_data pc)) = Some b \<and>
        ring_ready (v_req v a) \<and> pc_req_tx pc = Producer_new (v_req v a))"

lemma create_ring_ends:
  assumes "shm_contract os view" "sz \<noteq> 0"
  shows "ends view (\<lambda>_. True) (mapped_at True n ((view s)\<lparr>v_names := (v_names (view s))(n := None)\<rparr>))
    (create_ring_shm os n sz s)"
  using create_map [OF assms, of n "os_unlink os n s"] contract_unlink [OF assms(1)]
  by (simp add: create_ring_shm_def)

lemma data_create_ends:
  assumes "shm_contract os view"
  shows "ends view (\<lambda>_. True)
    (\<lambda>d v'. fresh_region d \<and>
       mapped_at True n ((view s)\<lparr>v_names := (v_names (view s))(n := None)\<rparr>) (mr_ptr d) v')
    (DataRegion_create os n s)"
proof -
  have assoc: "DataRegion_create os n s =
      shm_then (create_ring_shm os n DATA_REGION_SIZE)
        (\<lambda>ptr. shm_return \<lparr>mr_ptr = ptr, mr_len = DATA_REGION_SIZE, mr_offset = 0\<rparr>) s"
    by (auto simp: DataRegion_create_def create_ring_shm_def shm_then_def and_then_def split: sum.split prod.split)
  show ?thesis
    unfolding assoc
    by (rule ends_then [OF create_ring_ends [OF assms sizes_positive(3)]]) (simp add: ends_return fresh_region_def)
qed

text \<open>The first phase up to the request ring.\<close>

definition ring_made :: "u32 \<Rightarrow> usize \<Rightarrow> shm_view \<Rightarrow> bool" where
  "ring_made i req v \<longleftrightarrow> v_names v (shm_resp_name i) = None \<and>
     (\<exists>a. v_names v (shm_req_name i) = Some a \<and> v_maps v req = Some a \<and> ring_ready (v_req v a))"

lemma ring_made_init:
  assumes "shm_contract os view" "v_names v (shm_resp_name i) = None"
    and "mapped_at True (shm_req_name i) (v\<lparr>v_names := (v_names v)(shm_req_name i := None)\<rparr>) req (view s)"
  shows "ends view (\<lambda>_. True) (\<lambda>_. ring_made i req) (init_ring (os_req os) req s)"
proof -
  obtain a where a: "req mod 128 = 0" "v_names (view s) (shm_req_name i) = Some a" "v_maps (view s) req = Some a"
    "magic (v_req (view s) a) = 0" "v_names (view s) (shm_resp_name i) = None"
    using assms(2,3) by (auto simp: mapped_at_def may_open_def fresh_object_def)
  show ?thesis
    by (rule ends_weaken [OF init_req [OF assms(1) a(3,1,4)]]) (use a in \<open>auto simp: ring_made_def\<close>)
qed

lemma prepared_data:
  assumes "shm_contract os view" "ring_made i req (view s)"
  shows "ends view (\<lambda>_. True)
    (\<lambda>d. client_prepared \<lparr>pc_req = req, pc_req_tx = Producer_new (rm_at (os_req os) s req), pc_data = d,
       pc_instance = i\<rparr> i) (DataRegion_create os (shm_data_name i) s)"
proof -
  obtain a where a: "v_names (view s) (shm_resp_name i) = None" "v_names (view s) (shm_req_name i) = Some a"
    "v_maps (view s) req = Some a" "ring_ready (v_req (view s) a)"
    using assms(2) by (auto simp: ring_made_def)
  have "rm_at (os_req os) s req = v_req (view s) a"
    using contract_rings(1) [OF assms(1)] a(3) by (auto simp: ring_memory_def)
  then show ?thesis
    using a
    by (intro ends_weaken [OF data_create_ends [OF assms(1)]])
      (auto simp: client_prepared_def mapped_at_def may_open_def fresh_object_def)
qed

lemma create_ends:
  assumes "shm_contract os view"
  shows "ends view (\<lambda>_. True) (\<lambda>pc. client_prepared pc i) (PreparedChannel_create os i s)"
proof -
  let ?s = "cleanup_shm os i s"
  have clean: "v_names (view ?s) (shm_resp_name i) = None"
    by (simp add: cleanup_shm_def contract_unlink [OF assms])
  show ?thesis
    unfolding PreparedChannel_create_def Let_def
  proof (rule ends_then [OF create_ring_ends [OF assms sizes_positive(1)]])
    fix req s1
    assume "mapped_at True (shm_req_name i) ((view ?s)\<lparr>v_names := (v_names (view ?s))(shm_req_name i := None)\<rparr>)
      req (view s1)"
    note init = ring_made_init [OF assms clean this]
    show "ends view (\<lambda>_. True) (\<lambda>pc. client_prepared pc i)
      (shm_then (init_ring (os_req os) req) (\<lambda>_ s2. shm_then (DataRegion_create os (shm_data_name i)) (\<lambda>data.
         shm_return \<lparr>pc_req = req, pc_req_tx = Producer_new (rm_at (os_req os) s2 req), pc_data = data,
           pc_instance = i\<rparr>) s2) s1)"
      by (rule ends_then, rule init, rule ends_then, rule prepared_data [OF assms])
        (assumption | rule ends_return)+
  qed
qed

text \<open>After the second phase: the service shares the client's request ring and data region, and the response
  ring exists.\<close>

definition service_joined :: "PreparedChannel \<Rightarrow> ServiceEnds \<Rightarrow> u32 \<Rightarrow> shm_view \<Rightarrow> bool" where
  "service_joined pc se i v \<longleftrightarrow> pc_instance pc = i \<and> se_instance se = i \<and> fresh_region (pc_data pc) \<and>
     (\<exists>a b c. v_names v (shm_req_name i) = Some a \<and> v_names v (shm_data_name i) = Some b \<and>
        v_names v (shm_resp_name i) = Some c \<and> a \<noteq> b \<and> a \<noteq> c \<and> b \<noteq> c \<and>
        v_maps v (pc_req pc) = Some a \<and> v_maps v (se_req se) = Some a \<and> v_maps v (se_resp se) = Some c \<and>
        v_maps v (mr_ptr (pc_data pc)) = Some b \<and> v_maps v (se_data se) = Some b \<and>
        ring_ready (v_req v a) \<and> pc_req_tx pc = Producer_new (v_req v a) \<and> se_req_rx se = Consumer_new (v_req v a) \<and>
        ring_ready (v_resp v c) \<and> se_resp_tx se = Producer_new (v_resp v c))"

lemma same_segments_prepared:
  assumes "client_prepared pc i v" "same_segments i v v'"
  shows "client_prepared pc i v'"
  using assms(1) same_segments_names [OF assms(2)] same_segments_map [OF assms(2)] by (auto simp: client_prepared_def)

lemma same_segments_joined:
  assumes "service_joined pc se i v" "same_segments i v v'"
  shows "service_joined pc se i v'"
proof -
  note same = same_segments_names [OF assms(2)] same_segments_map [OF assms(2)]
  obtain a b c where abc: "v_names v (shm_req_name i) = Some a" "v_names v (shm_data_name i) = Some b"
    "v_names v (shm_resp_name i) = Some c" and j: "service_joined pc se i v"
    using assms(1) by (auto simp: service_joined_def)
  show ?thesis
    unfolding service_joined_def
    by (intro conjI exI [of _ a] exI [of _ b] exI [of _ c])
      (use j abc same in \<open>auto simp: service_joined_def\<close>)
qed

text \<open>The steps of \<open>join\<close>: the request ring mapped a second time, the response ring created and
  initialised, the data region mapped a second time.\<close>

definition req_shared :: "PreparedChannel \<Rightarrow> u32 \<Rightarrow> usize \<Rightarrow> shm_view \<Rightarrow> bool" where
  "req_shared pc i req v \<longleftrightarrow> client_prepared pc i v \<and> v_maps v req = v_names v (shm_req_name i)"

definition resp_made :: "PreparedChannel \<Rightarrow> u32 \<Rightarrow> usize \<Rightarrow> usize \<Rightarrow> shm_view \<Rightarrow> bool" where
  "resp_made pc i req resp v \<longleftrightarrow> pc_instance pc = i \<and> fresh_region (pc_data pc) \<and>
     (\<exists>a b c. v_names v (shm_req_name i) = Some a \<and> v_names v (shm_data_name i) = Some b \<and>
        v_names v (shm_resp_name i) = Some c \<and> a \<noteq> b \<and> a \<noteq> c \<and> b \<noteq> c \<and>
        v_maps v (pc_req pc) = Some a \<and> v_maps v req = Some a \<and> v_maps v resp = Some c \<and>
        v_maps v (mr_ptr (pc_data pc)) = Some b \<and>
        ring_ready (v_req v a) \<and> pc_req_tx pc = Producer_new (v_req v a) \<and> ring_ready (v_resp v c))"

lemma map_req_ends:
  assumes "shm_contract os view" "client_prepared pc i (view s)"
  shows "ends view (\<lambda>_. True) (\<lambda>req v. req_shared pc i req v \<and> req mod 128 = 0)
    (open_existing_ring os (shm_req_name i) REQ_RING_BYTES s)"
  unfolding open_existing_ring_def svc_map_eq
  by (rule ends_weaken [OF open_map [OF assms(1) sizes_positive(1)]])
    (use assms(2) in \<open>auto simp: req_shared_def client_prepared_def mapped_at_def may_open_def\<close>)

lemma map_resp_ends:
  assumes "shm_contract os view" "req_shared pc i req (view s)"
  shows "ends view (\<lambda>_. True) (\<lambda>resp v. resp mod 128 = 0 \<and> req_shared pc i req (v\<lparr>v_names := (v_names v)(shm_resp_name i := None)\<rparr>) \<and>
      (\<exists>c. v_names v (shm_resp_name i) = Some c \<and> v_maps v resp = Some c \<and> magic (v_resp v c) = 0 \<and>
        v_names v (shm_req_name i) \<noteq> Some c \<and> v_names v (shm_data_name i) \<noteq> Some c))
    (create_or_open_ring os (shm_resp_name i) RESP_RING_BYTES s)"
  unfolding create_or_open_ring_def svc_map_eq
  by (rule ends_weaken [OF create_map [OF assms(1) sizes_positive(2)]])
    (use assms(2) in \<open>auto simp: req_shared_def client_prepared_def mapped_at_def may_open_def fresh_object_def\<close>)

lemma resp_init_ends:
  assumes "shm_contract os view" "resp mod 128 = 0"
    and "req_shared pc i req ((view s)\<lparr>v_names := (v_names (view s))(shm_resp_name i := None)\<rparr>)"
    and "v_names (view s) (shm_resp_name i) = Some c" "v_maps (view s) resp = Some c" "magic (v_resp (view s) c) = 0"
    and "v_names (view s) (shm_req_name i) \<noteq> Some c" "v_names (view s) (shm_data_name i) \<noteq> Some c"
  shows "ends view (\<lambda>_. True) (\<lambda>_. resp_made pc i req resp) (init_ring (os_resp os) resp s)"
proof (rule ends_weaken [OF init_resp [OF assms(1,5,2,6)]])
  fix x v
  assume "\<exists>g r. ring_ready r \<and> v = (view s)\<lparr>v_resp := (v_resp (view s))(c := r), v_req := (v_req (view s))(c := g)\<rparr>"
  with assms(3-) show "resp_made pc i req resp v"
    by (auto simp: resp_made_def req_shared_def client_prepared_def)
qed simp

lemma ready_ends:
  "ring_ready r \<Longrightarrow> Consumer_new r = \<lparr>local_head = 0, cached_tail = 0\<rparr>"
  "ring_ready r \<Longrightarrow> Producer_new r = \<lparr>cached_head = 0, local_tail = 0\<rparr>"
  by (simp_all add: ring_ready_def Consumer_new_def Producer_new_def)

lemma data_join_ends:
  assumes "shm_contract os view" "resp_made pc i req resp (view s)"
  shows "ends view (\<lambda>_. True)
    (\<lambda>data. service_joined pc \<lparr>se_req = req, se_req_rx = \<lparr>local_head = 0, cached_tail = 0\<rparr>, se_resp = resp,
       se_resp_tx = \<lparr>cached_head = 0, local_tail = 0\<rparr>, se_data = data, se_instance = i\<rparr> i)
    (svc_DataRegion_join os (shm_data_name i) s)"
proof -
  have "(\<lambda>fd s. if DATA_REGION_SIZE = 0 then Inl Assertion else os_call (os_mmap os fd DATA_REGION_SIZE) s) =
      (\<lambda>fd. map_shm_sized os fd DATA_REGION_SIZE)"
    by (simp add: fun_eq_iff map_shm_sized_def)
  then have eq: "svc_DataRegion_join os n =
      shm_then (os_call (os_open os n False)) (\<lambda>fd. map_shm_sized os fd DATA_REGION_SIZE)" for n
    by (simp add: svc_DataRegion_join_def)
  show ?thesis
    unfolding eq
    by (rule ends_weaken [OF open_map [OF assms(1) sizes_positive(3)]])
      (use assms(2) in \<open>auto simp: service_joined_def resp_made_def mapped_at_def may_open_def ready_ends\<close>)
qed

lemma req_shared_rx:
  assumes "shm_contract os view" "req_shared pc i req (view s)"
  shows "Consumer_new (rm_at (os_req os) s req) = \<lparr>local_head = 0, cached_tail = 0\<rparr>"
proof -
  obtain a where "v_maps (view s) req = Some a" "ring_ready (v_req (view s) a)"
    using assms(2) by (auto simp: req_shared_def client_prepared_def)
  then show ?thesis using contract_rings(1) [OF assms(1)] by (auto simp: ring_memory_def ready_ends)
qed

lemma resp_made_tx:
  assumes "shm_contract os view" "resp_made pc i req resp (view s)"
  shows "Producer_new (rm_at (os_resp os) s resp) = \<lparr>cached_head = 0, local_tail = 0\<rparr>"
proof -
  obtain c where "v_maps (view s) resp = Some c" "ring_ready (v_resp (view s) c)"
    using assms(2) by (auto simp: resp_made_def)
  then show ?thesis using contract_rings(2) [OF assms(1)] by (auto simp: ring_memory_def ready_ends)
qed

lemma attach_req_ends:
  assumes "shm_contract os view" "req_shared pc i req (view s)" "req mod 128 = 0"
  shows "ends view (\<lambda>_. True) (\<lambda>_. req_shared pc i req) (attach_ring (os_req os) req s)"
proof -
  obtain a where "v_maps (view s) req = Some a" "ring_ready (v_req (view s) a)"
    using assms(2) by (auto simp: req_shared_def client_prepared_def)
  from attach_ready [OF contract_rings(1) [OF assms(1)] this(1) assms(3) this(2)] show ?thesis
    by (rule ends_weaken) (use assms(2) in simp_all)
qed

lemma join_ends:
  assumes os: "shm_contract os view" and "client_prepared pc i (view s)"
  shows "ends view (\<lambda>_. True) (\<lambda>se. service_joined pc se i) (ServiceChannel_join os i s)"
  unfolding ServiceChannel_join_def Let_def
proof (rule ends_then, rule map_req_ends [OF assms], elim conjE, rule ends_then, rule attach_req_ends [OF os], assumption+)
  fix req s1 u s2
  assume r: "req_shared pc i req (view s2)"
  note rx = req_shared_rx [OF os r]
  show "ends view (\<lambda>_. True) (\<lambda>se. service_joined pc se i)
    (shm_then (create_or_open_ring os (shm_resp_name i) RESP_RING_BYTES) (\<lambda>resp.
     shm_then (init_ring (os_resp os) resp) (\<lambda>_ s3.
       shm_then (svc_DataRegion_join os (shm_data_name i)) (\<lambda>data.
         shm_return \<lparr>se_req = req, se_req_rx = Consumer_new (rm_at (os_req os) s2 req), se_resp = resp,
           se_resp_tx = Producer_new (rm_at (os_resp os) s3 resp), se_data = data, se_instance = i\<rparr>) s3)) s2)"
    unfolding rx
  proof (rule ends_then, rule map_resp_ends [OF os r], elim conjE exE, rule ends_then, rule resp_init_ends [OF os],
      assumption+)
    fix resp s3 c v s4
    assume m: "resp_made pc i req resp (view s4)"
    show "ends view (\<lambda>_. True) (\<lambda>se. service_joined pc se i)
      (shm_then (svc_DataRegion_join os (shm_data_name i)) (\<lambda>data.
         shm_return \<lparr>se_req = req, se_req_rx = \<lparr>local_head = 0, cached_tail = 0\<rparr>, se_resp = resp,
           se_resp_tx = Producer_new (rm_at (os_resp os) s4 resp), se_data = data, se_instance = i\<rparr>) s4)"
      unfolding resp_made_tx [OF os m]
      by (rule ends_then, rule data_join_ends [OF os m], rule ends_return)
  qed
qed

text \<open>The third phase: one attempt of \<open>connect\<close>.\<close>

definition connected :: "ClientEnds \<Rightarrow> ServiceEnds \<Rightarrow> u32 \<Rightarrow> shm_view \<Rightarrow> bool" where
  "connected ce se i v \<longleftrightarrow> ce_instance ce = i \<and> se_instance se = i \<and> fresh_region (ce_data ce) \<and>
     (\<exists>a b c. a \<noteq> b \<and> a \<noteq> c \<and> b \<noteq> c \<and>
        v_maps v (ce_req ce) = Some a \<and> v_maps v (se_req se) = Some a \<and>
        v_maps v (ce_resp ce) = Some c \<and> v_maps v (se_resp se) = Some c \<and>
        v_maps v (mr_ptr (ce_data ce)) = Some b \<and> v_maps v (se_data se) = Some b \<and>
        ring_ready (v_req v a) \<and> ring_ready (v_resp v c) \<and>
        \<lparr>sp_ring = v_req v a, sp_producer = ce_req_tx ce, sp_consumer = se_req_rx se\<rparr> = spsc_open (v_req v a) \<and>
        \<lparr>sp_ring = v_resp v c, sp_producer = se_resp_tx se, sp_consumer = ce_resp_rx ce\<rparr> = spsc_open (v_resp v c))"

lemma connect_once_ends:
  assumes os: "shm_contract os view" and j: "service_joined pc se i (view s)"
  shows "ends view (same_segments i (view s)) (\<lambda>ce. connected ce se i) (connect_once os pc s)"
proof -
  have i: "pc_instance pc = i" using j by (simp add: service_joined_def)
  show ?thesis
    unfolding connect_once_def open_ring_shm_def i
  proof (rule ends_then [OF open_map [OF os sizes_positive(2)]])
    fix ptr s1
    assume m: "mapped_at False (shm_resp_name i) (view s) ptr (view s1)"
    have "service_joined pc se i (view s1) \<and> ptr mod 128 = 0 \<and> v_maps (view s1) ptr = v_names (view s1) (shm_resp_name i)"
      using j m by (auto simp: mapped_at_def may_open_def service_joined_def)
    then obtain c where p: "ptr mod 128 = 0" "v_maps (view s1) ptr = Some c" "ring_ready (v_resp (view s1) c)"
      and j1: "service_joined pc se i (view s1)" "v_names (view s1) (shm_resp_name i) = Some c"
      by (auto simp: service_joined_def)
    have rx: "rm_at (os_resp os) s2 ptr = v_resp (view s1) c" if "view s2 = view s1" for s2
      using contract_rings(2) [OF os] p(2) that by (auto simp: ring_memory_def)
    show "ends view (same_segments i (view s)) (\<lambda>ce. connected ce se i)
      (shm_then (attach_ring (os_resp os) ptr) (\<lambda>_ s. shm_return
        \<lparr>ce_req = pc_req pc, ce_req_tx = pc_req_tx pc, ce_resp = ptr,
         ce_resp_rx = Consumer_new (rm_at (os_resp os) s ptr), ce_data = pc_data pc, ce_instance = i\<rparr> s) s1)"
      by (rule ends_then, rule attach_ready [OF contract_rings(2) [OF os] p(2,1,3)], rule ends_return)
        (use j1 p(2,3) rx in \<open>auto simp: connected_def service_joined_def spsc_open_def\<close>)
  qed
qed

lemma connect_first:
  assumes "connect_once os pc s = Inr (Inr ce, s')"
  shows "PreparedChannel_connect os sleep pc s = Inr (Inr ce, s')"
proof -
  have attempts: "CONNECT_ATTEMPTS = Suc 199" by (simp add: CONNECT_ATTEMPTS_def)
  show ?thesis
    unfolding PreparedChannel_connect_def attempts connect_loop.simps using assms by simp
qed

text \<open>The loop of \<open>connect\<close>, with other processes that leave the instance alone while the client sleeps.\<close>

definition quiet :: "u32 \<Rightarrow> ('s \<Rightarrow> shm_view) \<Rightarrow> (nat \<Rightarrow> 's \<Rightarrow> 's) \<Rightarrow> bool" where
  "quiet i view sleep \<longleftrightarrow> (\<forall>k s. same_segments i (view s) (view (sleep k s)))"

lemma connect_loop_ends:
  assumes step: "\<And>s. P (view s) \<Longrightarrow> ends view (same_segments i (view s)) done (connect_once os pc s)"
    and keep: "\<And>v v'. P v \<Longrightarrow> same_segments i v v' \<Longrightarrow> P v'" and "quiet i view sleep" "P (view s)"
    and "n \<noteq> 0 \<or> (\<exists>e. l = Some (Inl e))"
  shows "case connect_loop os sleep pc k n l s of
      Inl _ \<Rightarrow> False
    | Inr (Inl e, s') \<Rightarrow> (\<exists>m. e = Join_Timeout (Some (Inl m))) \<and> P (view s')
    | Inr (Inr ce, s') \<Rightarrow> done ce (view s')"
  using assms(4,5)
proof (induction n arbitrary: k l s)
  case (Suc n)
  note en = step [OF Suc.prems(1)]
  obtain r s1 where o: "connect_once os pc s = Inr (r, s1)"
    using en by (cases "connect_once os pc s") (auto simp: ends_def)
  show ?case
  proof (cases r)
    case (Inl e)
    with en o obtain m where e: "e = Raw_Os m" and s1: "same_segments i (view s) (view s1)"
      by (auto simp: ends_def)
    have "P (view (sleep k s1))"
      using keep [OF keep [OF Suc.prems(1) s1]] assms(3) by (simp add: quiet_def)
    from Suc.IH [OF this, of "last_error e" "Suc k"] o Inl e show ?thesis by (simp add: last_error_def)
  next
    case (Inr ce)
    with en o show ?thesis by (simp add: ends_def)
  qed
qed auto

lemma connect_once_missing:
  assumes os: "shm_contract os view" and "v_names (view s) (shm_resp_name (pc_instance pc)) = None"
  shows "ends view (same_segments i (view s)) (\<lambda>_ _. False) (connect_once os pc s)"
  unfolding connect_once_def open_ring_shm_def
  by (rule ends_then [OF open_map [OF os sizes_positive(2)]])
    (use assms(2) in \<open>simp add: mapped_at_def may_open_def\<close>)

text \<open>What the two ends amount to as the channel of theory Service_Channel.\<close>

definition opened_channel :: "ClientEnds \<Rightarrow> ServiceEnds \<Rightarrow> shm_view \<Rightarrow> ServiceChannel" where
  "opened_channel ce se v =
     \<lparr>sc_req = \<lparr>sp_ring = v_req v (the (v_maps v (se_req se))), sp_producer = ce_req_tx ce, sp_consumer = se_req_rx se\<rparr>,
      sc_resp = \<lparr>sp_ring = v_resp v (the (v_maps v (se_resp se))), sp_producer = se_resp_tx se, sp_consumer = ce_resp_rx ce\<rparr>,
      sc_instance = se_instance se, sc_taken = [], sc_moves = []\<rparr>"

lemma connected_channel:
  assumes "connected ce se i v"
  shows "chan_wf (opened_channel ce se v) \<and> requests (opened_channel ce se v) = [] \<and>
    resp_log (opened_channel ce se v) = [] \<and> sc_instance (opened_channel ce se v) = i"
proof -
  obtain a b c where "v_maps v (se_req se) = Some a" "v_maps v (se_resp se) = Some c" "se_instance se = i"
    and r: "ring_ready (v_req v a)" "ring_ready (v_resp v c)"
    and eq: "\<lparr>sp_ring = v_req v a, sp_producer = ce_req_tx ce, sp_consumer = se_req_rx se\<rparr> = spsc_open (v_req v a)"
      "\<lparr>sp_ring = v_resp v c, sp_producer = se_resp_tx se, sp_consumer = ce_resp_rx ce\<rparr> = spsc_open (v_resp v c)"
    using assms by (auto simp: connected_def)
  then show ?thesis
    using ring_ready_open [OF r(1)] ring_ready_open [OF r(2)]
    by (simp add: opened_channel_def chan_wf_def resp_log_def)
qed

end
