(* ===== verification/Shm_Restart.thy ===== *)
theory Shm_Restart
  imports Shm_Handshake
begin

text \<open>
  A service that stops and joins its instance again (\<open>ServiceChannel::join\<close> on segments that are already
  in use): the response ring is opened, not replaced, \<open>init_in_place\<close> leaves an initialised ring alone and
  the two ends are rebuilt from the counters in shared memory.
\<close>

section \<open>A channel in use\<close>

text \<open>The client's ends \<open>ce\<close>, the ends \<open>rx\<close> and \<open>tx\<close> of the service that stopped, and the segments.\<close>

definition in_use :: "ClientEnds \<Rightarrow> Consumer \<Rightarrow> Producer \<Rightarrow> u32 \<Rightarrow> shm_view \<Rightarrow> nat \<Rightarrow> nat \<Rightarrow> nat \<Rightarrow> bool" where
  "in_use ce rx tx i v a b c \<longleftrightarrow> a \<noteq> c \<and>
     v_names v (shm_req_name i) = Some a \<and> v_names v (shm_data_name i) = Some b \<and>
     v_names v (shm_resp_name i) = Some c \<and>
     v_maps v (ce_req ce) = Some a \<and> v_maps v (mr_ptr (ce_data ce)) = Some b \<and> v_maps v (ce_resp ce) = Some c \<and>
     magic (v_req v a) = MAGIC \<and> capacity (v_req v a) = RING_CAPACITY \<and>
     magic (v_resp v c) = MAGIC \<and> capacity (v_resp v c) = RING_CAPACITY \<and>
     spsc_wf RING_CAPACITY \<lparr>sp_ring = v_req v a, sp_producer = ce_req_tx ce, sp_consumer = rx\<rparr> \<and>
     spsc_wf RING_CAPACITY \<lparr>sp_ring = v_resp v c, sp_producer = tx, sp_consumer = ce_resp_rx ce\<rparr>"

text \<open>The names, the mappings that exist and the two rings are kept.\<close>

definition undisturbed :: "nat \<Rightarrow> nat \<Rightarrow> shm_view \<Rightarrow> shm_view \<Rightarrow> bool" where
  "undisturbed a c v v' \<longleftrightarrow> v_names v' = v_names v \<and> v_maps v \<subseteq>\<^sub>m v_maps v' \<and>
     v_req v' a = v_req v a \<and> v_resp v' c = v_resp v c"

lemma undisturbed_refl [simp]: "undisturbed a c v v"
  by (simp add: undisturbed_def)

lemma undisturbed_trans: "undisturbed a c u v \<Longrightarrow> undisturbed a c v w \<Longrightarrow> undisturbed a c u w"
  by (auto simp: undisturbed_def intro: map_le_trans)

lemma undisturbed_map: "undisturbed a c v v' \<Longrightarrow> v_maps v p = Some x \<Longrightarrow> v_maps v' p = Some x"
  by (auto simp: undisturbed_def map_le_def dom_def)

lemma mapped_existing:
  assumes "mapped_at create n v p v'" "v_names v n = Some x"
  shows "undisturbed a c v v' \<and> v_maps v' p = Some x \<and> p mod 128 = 0"
  using assms by (auto simp: mapped_at_def may_open_def undisturbed_def map_le_def)

text \<open>A step that leaves the channel undisturbed, and what it adds.\<close>

definition adds :: "nat \<Rightarrow> nat \<Rightarrow> shm_view \<Rightarrow> ('x \<Rightarrow> shm_view \<Rightarrow> bool) \<Rightarrow> 'x \<Rightarrow> shm_view \<Rightarrow> bool" where
  "adds a c v Q x v' \<longleftrightarrow> undisturbed a c v v' \<and> Q x v'"

lemma open_adds:
  assumes "shm_contract os view" "sz \<noteq> 0" "v_names (view s) n = Some x"
  shows "ends view (\<lambda>_. True) (adds a c (view s) (\<lambda>p v'. v_maps v' p = Some x \<and> p mod 128 = 0))
    (shm_then (os_call (os_open os n False)) (\<lambda>fd. map_shm_sized os fd sz) s)"
  by (rule ends_weaken [OF open_map [OF assms(1,2)]]) (auto simp: adds_def dest: mapped_existing [OF _ assms(3)])

lemma create_adds:
  assumes "shm_contract os view" "sz \<noteq> 0" "v_names (view s) n = Some x"
  shows "ends view (\<lambda>_. True) (adds a c (view s) (\<lambda>p v'. v_maps v' p = Some x \<and> p mod 128 = 0))
    (shm_then (os_call (os_open os n True)) (\<lambda>fd.
     shm_then (os_call (os_truncate os fd sz)) (\<lambda>_. map_shm_sized os fd sz)) s)"
  by (rule ends_weaken [OF create_map [OF assms(1,2)]]) (auto simp: adds_def dest: mapped_existing [OF _ assms(3)])

lemma attach_adds:
  assumes "ring_memory view rm ring" "v_maps (view s) p = Some x" "p mod 128 = 0"
    and "magic (ring (view s) x) = MAGIC" "capacity (ring (view s) x) = RING_CAPACITY"
  shows "ends view (\<lambda>_. True) (adds a c (view s) (\<lambda>_ _. True)) (attach_ring rm p s)"
  by (rule ends_weaken [OF attach_initialised [OF assms]]) (simp_all add: adds_def)

text \<open>\<open>init_in_place\<close> on the response ring in use.\<close>

lemma init_adds:
  assumes os: "shm_contract os view" and m: "v_maps (view s) p = Some c" and "p mod 128 = 0" "a \<noteq> c"
    and r: "magic (v_resp (view s) c) = MAGIC" "capacity (v_resp (view s) c) = RING_CAPACITY"
  shows "ends view (\<lambda>_. True) (adds a c (view s) (\<lambda>_ _. True)) (init_ring (os_resp os) p s)"
proof -
  let ?r = "v_resp (view s) c"
  have mem: "rm_at (os_resp os) s p = ?r" "length (slots ?r) = unat RING_CAPACITY"
    using contract_rings(2) [OF os] m by (auto simp: ring_memory_def)
  have "init_in_place RING_CAPACITY p ?r = Inr ?r"
    using place_ok_aligned [OF assms(3)] r by (simp add: init_in_place_def)
  moreover obtain g where "view (rm_put (os_resp os) p ?r s) =
      (view s)\<lparr>v_resp := (v_resp (view s))(c := ?r), v_req := (v_req (view s))(c := g)\<rparr>"
    using contract_put(2) [OF os m mem(2)] by blast
  ultimately show ?thesis
    using mem(1) \<open>a \<noteq> c\<close> by (simp add: init_ring_def ends_def adds_def undisturbed_def)
qed

text \<open>What a new join finds.\<close>

lemma in_use_undisturbed:
  assumes "in_use ce rx tx i v a b c" "undisturbed a c v v'"
  shows "in_use ce rx tx i v' a b c"
  using assms(1) undisturbed_map [OF assms(2)] assms(2) by (auto simp: in_use_def undisturbed_def)

section \<open>The new ends\<close>

text \<open>\<open>Consumer::new\<close> and \<open>Producer::new\<close> on a ring in use take the place of the ends that are gone.\<close>

lemma new_consumer_wf:
  "spsc_wf N \<lparr>sp_ring = r, sp_producer = p, sp_consumer = d\<rparr> \<Longrightarrow>
   spsc_wf N \<lparr>sp_ring = r, sp_producer = p, sp_consumer = Consumer_new r\<rparr>"
  by (simp add: spsc_wf_def consumer_wf_new)

lemma new_producer_wf:
  "spsc_wf N \<lparr>sp_ring = r, sp_producer = p, sp_consumer = d\<rparr> \<Longrightarrow>
   spsc_wf N \<lparr>sp_ring = r, sp_producer = Producer_new r, sp_consumer = d\<rparr>"
  by (auto simp: spsc_wf_def intro: producer_wf_new)

definition resumed :: "ClientEnds \<Rightarrow> ServiceEnds \<Rightarrow> u32 \<Rightarrow> shm_view \<Rightarrow> nat \<Rightarrow> nat \<Rightarrow> nat \<Rightarrow> bool" where
  "resumed ce se i v a b c \<longleftrightarrow> in_use ce (se_req_rx se) (se_resp_tx se) i v a b c \<and> se_instance se = i \<and>
     v_maps v (se_req se) = Some a \<and> v_maps v (se_resp se) = Some c \<and> v_maps v (se_data se) = Some b"

lemma resumed_channel:
  assumes "resumed ce se i v a b c"
  shows "chan_wf (opened_channel ce se v)"
    "requests (opened_channel ce se v) = ring_contents RING_CAPACITY (v_req v a)"
    "resp_log (opened_channel ce se v) = ring_contents RING_CAPACITY (v_resp v c)"
  using assms
  by (simp_all add: resumed_def in_use_def opened_channel_def chan_wf_def resp_log_def spsc_contents_def)

lemma in_use_rings:
  assumes "shm_contract os view" "in_use ce rx tx i (view s) a b c"
  shows "v_maps (view s) p = Some a \<Longrightarrow> rm_at (os_req os) s p = v_req (view s) a"
    "v_maps (view s) p = Some c \<Longrightarrow> rm_at (os_resp os) s p = v_resp (view s) c"
  using contract_rings [OF assms(1)] by (auto simp: ring_memory_def)

text \<open>Each step of the new join, from a view \<open>v\<close> of the channel in use.\<close>

lemma adds_from:
  assumes "ends view failed (adds a c (view s) Q) out" "undisturbed a c v (view s)"
  shows "ends view failed (adds a c v Q) out"
  by (rule ends_weaken [OF assms(1)]) (use undisturbed_trans [OF assms(2)] in \<open>auto simp: adds_def\<close>)

lemma rejoin_req:
  assumes "shm_contract os view" "in_use ce rx tx i v a b c" "undisturbed a c v (view s)"
  shows "ends view (\<lambda>_. True) (adds a c v (\<lambda>p v'. v_maps v' p = Some a \<and> p mod 128 = 0))
    (open_existing_ring os (shm_req_name i) REQ_RING_BYTES s)"
  unfolding open_existing_ring_def svc_map_eq
  by (rule adds_from [OF open_adds [OF assms(1) sizes_positive(1)] assms(3)])
    (use in_use_undisturbed [OF assms(2,3)] in \<open>simp add: in_use_def\<close>)

lemma rejoin_attach:
  assumes "shm_contract os view" "in_use ce rx tx i v a b c" "undisturbed a c v (view s)"
    and "v_maps (view s) p = Some a" "p mod 128 = 0"
  shows "ends view (\<lambda>_. True) (adds a c v (\<lambda>_ v'. v_maps v' p = Some a)) (attach_ring (os_req os) p s)"
proof (rule ends_weaken)
  show "ends view (\<lambda>_. True) (adds a c (view s) (\<lambda>_ _. True)) (attach_ring (os_req os) p s)"
    using in_use_undisturbed [OF assms(2,3)]
    by (intro attach_adds [OF contract_rings(1) [OF assms(1)] assms(4,5)]) (simp_all add: in_use_def)
qed (use undisturbed_trans [OF assms(3)] undisturbed_map [OF _ assms(4)] in \<open>auto simp: adds_def\<close>)

lemma rejoin_resp:
  assumes "shm_contract os view" "in_use ce rx tx i v a b c" "undisturbed a c v (view s)"
  shows "ends view (\<lambda>_. True) (adds a c v (\<lambda>p v'. v_maps v' p = Some c \<and> p mod 128 = 0))
    (create_or_open_ring os (shm_resp_name i) RESP_RING_BYTES s)"
  unfolding create_or_open_ring_def svc_map_eq
  by (rule adds_from [OF create_adds [OF assms(1) sizes_positive(2)] assms(3)])
    (use in_use_undisturbed [OF assms(2,3)] in \<open>simp add: in_use_def\<close>)

lemma rejoin_init:
  assumes "shm_contract os view" "in_use ce rx tx i v a b c" "undisturbed a c v (view s)"
    and "v_maps (view s) p = Some c" "p mod 128 = 0"
  shows "ends view (\<lambda>_. True) (adds a c v (\<lambda>_ _. True)) (init_ring (os_resp os) p s)"
  by (rule adds_from [OF init_adds [OF assms(1,4,5)] assms(3)])
    (use in_use_undisturbed [OF assms(2,3)] in \<open>simp_all add: in_use_def\<close>)

lemma rejoin_data:
  assumes "shm_contract os view" "in_use ce rx tx i v a b c" "undisturbed a c v (view s)"
  shows "ends view (\<lambda>_. True) (adds a c v (\<lambda>p v'. v_maps v' p = Some b)) (svc_DataRegion_join os (shm_data_name i) s)"
proof -
  have eq: "(\<lambda>fd s. if DATA_REGION_SIZE = 0 then Inl Assertion else os_call (os_mmap os fd DATA_REGION_SIZE) s) =
      (\<lambda>fd. map_shm_sized os fd DATA_REGION_SIZE)"
    by (simp add: fun_eq_iff map_shm_sized_def)
  have "v_names (view s) (shm_data_name i) = Some b"
    using in_use_undisturbed [OF assms(2,3)] by (simp add: in_use_def)
  from adds_from [OF open_adds [OF assms(1) sizes_positive(3) this] assms(3)] show ?thesis
    unfolding svc_DataRegion_join_def eq by (rule ends_weaken) (auto simp: adds_def)
qed

text \<open>The second half: the response ring and the data region.\<close>

lemma rejoin_second:
  assumes os: "shm_contract os view" and u: "in_use ce rx tx i (view s) a b c" and m: "v_maps (view s) req = Some a"
  shows "ends view (\<lambda>_. True) (adds a c (view s) (\<lambda>se v'. resumed ce se i v' a b c))
    (shm_then (create_or_open_ring os (shm_resp_name i) RESP_RING_BYTES) (\<lambda>resp.
     shm_then (init_ring (os_resp os) resp) (\<lambda>_ s3.
       shm_then (svc_DataRegion_join os (shm_data_name i)) (\<lambda>data.
         shm_return \<lparr>se_req = req, se_req_rx = Consumer_new (v_req (view s) a), se_resp = resp,
           se_resp_tx = Producer_new (rm_at (os_resp os) s3 resp), se_data = data, se_instance = i\<rparr>) s3)) s)"
proof (rule ends_then, rule rejoin_resp [OF os u undisturbed_refl])
  fix resp s1
  assume "adds a c (view s) (\<lambda>p v'. v_maps v' p = Some c \<and> p mod 128 = 0) resp (view s1)"
  then have u1: "undisturbed a c (view s) (view s1)" and m1: "v_maps (view s1) resp = Some c" "resp mod 128 = 0"
    by (simp_all add: adds_def)
  show "ends view (\<lambda>_. True) (adds a c (view s) (\<lambda>se v'. resumed ce se i v' a b c))
    (shm_then (init_ring (os_resp os) resp) (\<lambda>_ s3.
       shm_then (svc_DataRegion_join os (shm_data_name i)) (\<lambda>data.
         shm_return \<lparr>se_req = req, se_req_rx = Consumer_new (v_req (view s) a), se_resp = resp,
           se_resp_tx = Producer_new (rm_at (os_resp os) s3 resp), se_data = data, se_instance = i\<rparr>) s3) s1)"
  proof (rule ends_then, rule rejoin_init [OF os in_use_undisturbed [OF u u1] undisturbed_refl m1])
    fix y s3
    assume "adds a c (view s1) (\<lambda>_ _. True) y (view s3)"
    then have s3: "undisturbed a c (view s) (view s3)" "v_maps (view s3) resp = Some c"
      using undisturbed_trans [OF u1] undisturbed_map [OF _ m1(1)] by (auto simp: adds_def)
    note tx = in_use_rings(2) [OF os in_use_undisturbed [OF u s3(1)] s3(2)]
    show "ends view (\<lambda>_. True) (adds a c (view s) (\<lambda>se v'. resumed ce se i v' a b c))
      (shm_then (svc_DataRegion_join os (shm_data_name i)) (\<lambda>data.
         shm_return \<lparr>se_req = req, se_req_rx = Consumer_new (v_req (view s) a), se_resp = resp,
           se_resp_tx = Producer_new (rm_at (os_resp os) s3 resp), se_data = data, se_instance = i\<rparr>) s3)"
      unfolding tx
    proof (rule ends_then, rule rejoin_data [OF os in_use_undisturbed [OF u s3(1)] undisturbed_refl], rule ends_return)
      fix data s4
      assume d: "adds a c (view s3) (\<lambda>p v'. v_maps v' p = Some b) data (view s4)"
      then have s4: "undisturbed a c (view s) (view s4)" "v_maps (view s4) req = Some a" "v_maps (view s4) resp = Some c"
        using undisturbed_trans [OF s3(1)] undisturbed_map [OF _ s3(2)]
          undisturbed_map [OF undisturbed_trans [OF s3(1)] m] by (auto simp: adds_def)
      moreover have "v_resp (view s3) c = v_resp (view s4) c" "v_req (view s) a = v_req (view s4) a"
        using d s4(1) by (simp_all add: adds_def undisturbed_def)
      ultimately show "adds a c (view s) (\<lambda>se v'. resumed ce se i v' a b c)
        \<lparr>se_req = req, se_req_rx = Consumer_new (v_req (view s) a), se_resp = resp,
          se_resp_tx = Producer_new (v_resp (view s3) c), se_data = data, se_instance = i\<rparr> (view s4)"
        using in_use_undisturbed [OF u s4(1)] d
        by (auto simp: adds_def resumed_def in_use_def intro: new_consumer_wf new_producer_wf)
    qed
  qed
qed

lemma rejoin_ends:
  assumes os: "shm_contract os view" and u: "in_use ce rx tx i (view s) a b c"
  shows "ends view (\<lambda>_. True) (adds a c (view s) (\<lambda>se v'. resumed ce se i v' a b c)) (ServiceChannel_join os i s)"
  unfolding ServiceChannel_join_def Let_def
proof (rule ends_then, rule rejoin_req [OF os u undisturbed_refl], unfold adds_def, elim conjE, rule ends_then,
    rule rejoin_attach [OF os u], assumption+)
  fix req s1 x s2
  assume "adds a c (view s) (\<lambda>_ v'. v_maps v' req = Some a) x (view s2)"
  then have u2: "undisturbed a c (view s) (view s2)" and m2: "v_maps (view s2) req = Some a"
    by (simp_all add: adds_def)
  note use2 = in_use_undisturbed [OF u u2]
  note rx = in_use_rings(1) [OF os use2 m2]
  show "ends view (\<lambda>_. True) (\<lambda>se v'. undisturbed a c (view s) v' \<and> resumed ce se i v' a b c)
    (shm_then (create_or_open_ring os (shm_resp_name i) RESP_RING_BYTES) (\<lambda>resp.
     shm_then (init_ring (os_resp os) resp) (\<lambda>_ s3.
       shm_then (svc_DataRegion_join os (shm_data_name i)) (\<lambda>data.
         shm_return \<lparr>se_req = req, se_req_rx = Consumer_new (rm_at (os_req os) s2 req), se_resp = resp,
           se_resp_tx = Producer_new (rm_at (os_resp os) s3 resp), se_data = data, se_instance = i\<rparr>) s3)) s2)"
    unfolding rx
    by (rule ends_weaken [OF rejoin_second [OF os use2 m2]]) (use undisturbed_trans [OF u2] in \<open>auto simp: adds_def\<close>)
qed

end
