(* ===== verification/Startup_System.thy ===== *)
theory Startup_System
  imports Shm_Handshake Client_Service
begin

text \<open>
  From the startup protocol to the running system: the client's channel and the service with the channel it
  joined, as theories Client_Service and System_Properties start from them.
\<close>

text \<open>\<open>bytes\<close> are the mapped bytes of the data region and \<open>w\<close> the executor's state. The daemon's service is
  \<open>AtlasService::new\<close>, as \<open>main.rs\<close> builds it, with the one channel it has registered.\<close>

definition started_channel ::
  "ClientEnds \<Rightarrow> ServiceEnds \<Rightarrow> shm_view \<Rightarrow> u8 list \<Rightarrow> 'w \<Rightarrow> ('w, PassThrough) AtlasService ClientChannel" where
  "started_channel ce se v bytes w =
     (let ch = opened_channel ce se v in
      \<lparr>cc_req = sc_req ch, cc_resp = sc_resp ch,
       cc_data = \<lparr>dr_mem = bytes, dr_len = mr_len (ce_data ce), dr_offset = mr_offset (ce_data ce)\<rparr>,
       cc_instance = ce_instance ce, cc_served = [], cc_popped = [],
       cc_peer = snd (register (Inr ch :: unit + ServiceChannel) (AtlasService_new w))\<rparr>)"

lemma connected_idle:
  assumes "connected ce se i v"
  shows "system_idle 0 pass_through (\<lambda>_. True) (started_channel ce se v bytes w)"
  using connected_channel [OF assms]
  by (auto simp: system_idle_def started_channel_def Let_def cc_wf_def chan_wf_def resp_log_def register_def
      AtlasService_new_def with_pipeline_def between_rounds_def chans_wf_def pass_through_def pt_is_empty_def
      PassThrough_new_def opened_channel_def)

lemma connected_region:
  assumes "connected ce se i v" "length bytes = unat DATA_REGION_SIZE"
  shows "region_wf (cc_data (started_channel ce se v bytes w))"
  using assms by (simp add: connected_def fresh_region_def started_channel_def Let_def region_wf_def DATA_REGION_SIZE_def)

end
