(* ===== verification/Shm_Properties.thy ===== *)
theory Shm_Properties
  imports Shm_Restart Startup_System "HOL-Library.AList"
begin

text \<open>
  The properties of the startup protocol, and a small operating system, with its objects, names,
  descriptors and mappings in lists, on which they are applied.
\<close>

section \<open>A small operating system\<close>

record toy_os =
  to_names :: "(string \<times> nat) list"
  to_fds :: "(i32 \<times> nat) list"
  to_maps :: "(usize \<times> nat) list"
  to_req :: "(nat \<times> IoRequest SpscRing) list"
  to_resp :: "(nat \<times> IoResponse SpscRing) list"

definition zero_request :: IoRequest where
  "zero_request = IoRequest_new 0 Read Low"

definition zero_ring :: "'a \<Rightarrow> 'a SpscRing" where
  "zero_ring z = \<lparr>magic = 0, capacity = 0, ring_tail = 0, ring_head = 0, slots = replicate (unat RING_CAPACITY) z\<rparr>"

text \<open>The ring in an object: the last one stored, zeroes when there is none.\<close>

definition ring_in :: "'a \<Rightarrow> (nat \<times> 'a SpscRing) list \<Rightarrow> nat \<Rightarrow> 'a SpscRing" where
  "ring_in z l x =
     (case map_of l x of
        Some r \<Rightarrow> if length (slots r) = unat RING_CAPACITY then r else zero_ring z
      | None \<Rightarrow> zero_ring z)"

definition toy_view :: "toy_os \<Rightarrow> shm_view" where
  "toy_view s = \<lparr>v_names = map_of (to_names s), v_fds = map_of (to_fds s), v_maps = map_of (to_maps s),
     v_req = ring_in zero_request (to_req s), v_resp = ring_in (IoResponse_ok 0) (to_resp s)\<rparr>"

text \<open>A number no list mentions.\<close>

definition new_object :: "toy_os \<Rightarrow> nat" where
  "new_object s = Suc (sum_list (map snd (to_names s) @ map snd (to_maps s) @ map fst (to_req s) @ map fst (to_resp s)))"

definition toy_open :: "string \<Rightarrow> bool \<Rightarrow> toy_os \<Rightarrow> (i32 + i32) \<times> toy_os" where
  "toy_open n create s =
     (case map_of (to_names s) n of
        Some x \<Rightarrow> (Inr 3, s\<lparr>to_fds := (3, x) # to_fds s\<rparr>)
      | None \<Rightarrow>
          if create then
            (Inr 3, s\<lparr>to_names := (n, new_object s) # to_names s, to_fds := (3, new_object s) # to_fds s\<rparr>)
          else (Inl 2, s))"

definition toy_mmap :: "i32 \<Rightarrow> usize \<Rightarrow> toy_os \<Rightarrow> (i32 + usize) \<times> toy_os" where
  "toy_mmap fd sz s =
     (let p = push_bit 7 (of_nat (Suc (length (to_maps s)))) in
      case map_of (to_fds s) fd of
        None \<Rightarrow> (Inl 9, s)
      | Some x \<Rightarrow> if map_of (to_maps s) p = None then (Inr p, s\<lparr>to_maps := (p, x) # to_maps s\<rparr>) else (Inl 12, s))"

definition toy_mem ::
  "'a \<Rightarrow> (toy_os \<Rightarrow> (nat \<times> 'a SpscRing) list) \<Rightarrow> (nat \<Rightarrow> 'a SpscRing \<Rightarrow> toy_os \<Rightarrow> toy_os) \<Rightarrow> (toy_os, 'a) RingMem" where
  "toy_mem z get put =
     \<lparr>rm_at = \<lambda>s p. case map_of (to_maps s) p of None \<Rightarrow> zero_ring z | Some x \<Rightarrow> ring_in z (get s) x,
      rm_put = \<lambda>p r s. case map_of (to_maps s) p of None \<Rightarrow> s | Some x \<Rightarrow> put x r s,
      rm_polls = \<lambda>s p _. case map_of (to_maps s) p of None \<Rightarrow> (0, 0)
        | Some x \<Rightarrow> (magic (ring_in z (get s) x), capacity (ring_in z (get s) x))\<rparr>"

definition toy :: "toy_os ShmOs" where
  "toy = \<lparr>os_unlink = \<lambda>n s. s\<lparr>to_names := AList.delete n (to_names s)\<rparr>,
     os_open = toy_open, os_truncate = \<lambda>_ _ s. (Inr (), s), os_mmap = toy_mmap,
     os_req = toy_mem zero_request to_req (\<lambda>x r s. s\<lparr>to_req := (x, r) # to_req s\<rparr>),
     os_resp = toy_mem (IoResponse_ok 0) to_resp (\<lambda>x r s. s\<lparr>to_resp := (x, r) # to_resp s\<rparr>)\<rparr>"

definition toy_start :: toy_os where
  "toy_start = \<lparr>to_names = [(shm_resp_name 5, 7)], to_fds = [], to_maps = [], to_req = [], to_resp = []\<rparr>"

subsection \<open>It keeps its contract\<close>

lemma zero_ring_simps [simp]:
  "length (slots (zero_ring z)) = unat RING_CAPACITY" "magic (zero_ring z) = 0"
  by (simp_all add: zero_ring_def)

lemma ring_in_simps [simp]:
  "length (slots (ring_in z l x)) = unat RING_CAPACITY"
  "length (slots r) = unat RING_CAPACITY \<Longrightarrow> ring_in z ((y, r) # l) = (ring_in z l)(y := r)"
  by (auto simp: ring_in_def split: option.split)

lemma member_le_sum: "x \<in> set l \<Longrightarrow> (x::nat) \<le> sum_list l"
  by (simp add: member_le_sum_list)

lemma new_object_fresh: "fresh_object (toy_view s) (new_object s)"
proof -
  have new: "x \<noteq> new_object s"
    if "x \<in> set (map snd (to_names s) @ map snd (to_maps s) @ map fst (to_req s) @ map fst (to_resp s))" for x
    using member_le_sum [OF that] by (simp only: new_object_def)
  have *: "new_object s \<notin> set (map snd (to_names s))" "new_object s \<notin> set (map snd (to_maps s))"
    "map_of (to_req s) (new_object s) = None" "map_of (to_resp s) (new_object s) = None"
    using new by (force simp: map_of_eq_None_iff)+
  then show ?thesis
    by (auto simp: fresh_object_def toy_view_def ring_in_def zero_ring_def image_iff dest!: map_of_SomeD)
qed

lemma toy_open_law: "open_law toy toy_view"
  using new_object_fresh
  by (auto simp: open_law_def toy_def toy_open_def toy_view_def may_open_def split: option.split)

lemma aligned_128: "push_bit 7 (x::usize) mod 128 = 0"
proof -
  have "take_bit 7 (push_bit 7 x) = 0" by (simp add: take_bit_push_bit)
  then show ?thesis by (simp add: take_bit_eq_mod)
qed

lemma toy_mmap_law: "mmap_law toy toy_view"
  by (auto simp: mmap_law_def toy_def toy_mmap_def toy_view_def Let_def aligned_128 split: option.split)

lemma toy_put_law: "put_law toy toy_view"
  by (auto simp: put_law_def toy_def toy_mem_def toy_view_def intro!: exI [of _ "ring_in z l x" for z l x])

lemma toy_contract: "shm_contract toy toy_view"
  unfolding shm_contract_def
  by (intro conjI toy_open_law toy_mmap_law toy_put_law)
    (auto simp: toy_def toy_view_def toy_mem_def ring_memory_def delete_conv' split: option.split)

section \<open>Starting up\<close>

lemma quiet_id: "quiet i view (\<lambda>_ s. s)"
  by (simp add: quiet_def)

text \<open>The three steps in a row.\<close>

lemma startup_steps:
  assumes "shm_contract os view" "quiet i view sleep" "quiet i view (\<lambda>_. pause)"
  shows "case PreparedChannel_create os i s of
      Inl _ \<Rightarrow> False
    | Inr (Inl e, _) \<Rightarrow> \<exists>n. e = Raw_Os n
    | Inr (Inr pc, s1) \<Rightarrow>
        (case ServiceChannel_join os i (pause s1) of
           Inl _ \<Rightarrow> False
         | Inr (Inl e, _) \<Rightarrow> \<exists>n. e = Raw_Os n
         | Inr (Inr se, s2) \<Rightarrow>
             (case PreparedChannel_connect os sleep pc (pause s2) of
                Inl _ \<Rightarrow> False
              | Inr (Inl e, _) \<Rightarrow> \<exists>n. e = Join_Timeout (Some (Inl n))
              | Inr (Inr ce, s3) \<Rightarrow> connected ce se i (view s3) \<and>
                  (\<forall>bytes w. system_idle 0 pass_through (\<lambda>_. True) (started_channel ce se (view s3) bytes w))))"
proof -
  have connects: "case PreparedChannel_connect os sleep pc s2 of
      Inl _ \<Rightarrow> False
    | Inr (Inl e, s3) \<Rightarrow> (\<exists>n. e = Join_Timeout (Some (Inl n))) \<and> service_joined pc se i (view s3)
    | Inr (Inr ce, s3) \<Rightarrow> connected ce se i (view s3)" if "service_joined pc se i (view s2)" for pc se s2
    unfolding PreparedChannel_connect_def
    by (rule connect_loop_ends [where P = "service_joined pc se i", OF connect_once_ends [OF assms(1)] same_segments_joined
          assms(2) that]) (simp_all add: CONNECT_ATTEMPTS_def)
  have joins: "case ServiceChannel_join os i (pause s1) of
      Inl _ \<Rightarrow> False
    | Inr (Inl e, _) \<Rightarrow> \<exists>n. e = Raw_Os n
    | Inr (Inr se, s2) \<Rightarrow> service_joined pc se i (view (pause s2))" if "client_prepared pc i (view s1)" for pc s1
  proof -
    have paused: "same_segments i (view t) (view (pause t))" for t
      using assms(3) by (simp add: quiet_def)
    show ?thesis
      using join_ends [OF assms(1) same_segments_prepared [OF that paused]]
      by (auto simp: ends_def split: sum.split prod.split dest: same_segments_joined [OF _ paused])
  qed
  show ?thesis
    using create_ends [OF assms(1), of i s]
    by (auto simp: ends_def split: sum.split prod.split dest!: joins connects)
      (rule connected_idle)
qed

text \<open>C10. Whatever an instance's segments were before: when a client prepares the instance, the service joins
  it and the client connects, each step ends with success or with an error number of the operating system
  (\<open>connect\<close>: with its timeout naming the last one), none of them panics, and after the three the client
  and the service hold the two ends of the same two empty rings and the same data region, and the
  client with a service that has registered the channel is the idle system that the properties of calls
  start from. Between the steps and between the attempts of \<open>connect\<close> other instances may be at work.\<close>

theorem startup_connects:
  assumes "shm_contract os view" "quiet i view sleep" "quiet i view (\<lambda>_. pause)"
  shows "case PreparedChannel_create os i s of
      Inl _ \<Rightarrow> False
    | Inr (Inl e, _) \<Rightarrow> \<exists>n. e = Raw_Os n
    | Inr (Inr pc, s1) \<Rightarrow>
        (case ServiceChannel_join os i (pause s1) of
           Inl _ \<Rightarrow> False
         | Inr (Inl e, _) \<Rightarrow> \<exists>n. e = Raw_Os n
         | Inr (Inr se, s2) \<Rightarrow>
             (case PreparedChannel_connect os sleep pc (pause s2) of
                Inl _ \<Rightarrow> False
              | Inr (Inl e, _) \<Rightarrow> \<exists>n. e = Join_Timeout (Some (Inl n))
              | Inr (Inr ce, s3) \<Rightarrow> connected ce se i (view s3) \<and>
                  (\<forall>bytes w. system_idle 0 pass_through (\<lambda>_. True) (started_channel ce se (view s3) bytes w))))"
  by (rule startup_steps [OF assms])

text \<open>The three steps on the small system, which finds a response ring of an earlier run.\<close>

definition ready :: "'a \<Rightarrow> 'a SpscRing" where
  "ready z = (zero_ring z)\<lparr>capacity := RING_CAPACITY, ring_tail := 0, ring_head := 0, magic := MAGIC\<rparr>"

definition toy_prepared :: toy_os where
  "toy_prepared = \<lparr>to_names = [(shm_data_name 5, 4), (shm_req_name 5, 1)], to_fds = [(3, 4), (3, 1)],
     to_maps = [(256, 4), (128, 1)], to_req = [(1, ready zero_request)], to_resp = []\<rparr>"

definition toy_pc :: PreparedChannel where
  "toy_pc = \<lparr>pc_req = 128, pc_req_tx = \<lparr>cached_head = 0, local_tail = 0\<rparr>,
     pc_data = \<lparr>mr_ptr = 256, mr_len = DATA_REGION_SIZE, mr_offset = 0\<rparr>, pc_instance = 5\<rparr>"

definition toy_joined :: toy_os where
  "toy_joined = \<lparr>to_names = [(shm_resp_name 5, 13), (shm_data_name 5, 4), (shm_req_name 5, 1)],
     to_fds = [(3, 4), (3, 13), (3, 1), (3, 4), (3, 1)],
     to_maps = [(640, 4), (512, 13), (384, 1), (256, 4), (128, 1)],
     to_req = [(1, ready zero_request)], to_resp = [(13, ready (IoResponse_ok 0))]\<rparr>"

definition toy_se :: ServiceEnds where
  "toy_se = \<lparr>se_req = 384, se_req_rx = \<lparr>local_head = 0, cached_tail = 0\<rparr>, se_resp = 512,
     se_resp_tx = \<lparr>cached_head = 0, local_tail = 0\<rparr>, se_data = 640, se_instance = 5\<rparr>"

lemmas toy_run = shm_then_def os_call_def toy_def toy_open_def toy_mmap_def toy_mem_def map_shm_sized_def
  svc_map_shm_sized_def new_object_def ring_in_def shm_return_def init_ring_def attach_ring_def place_ok_aligned
  ready_def sizes_positive

lemma toy_create: "PreparedChannel_create toy 5 toy_start = Inr (Inr toy_pc, toy_prepared)"
  by (simp add: toy_run toy_start_def toy_pc_def toy_prepared_def PreparedChannel_create_def cleanup_shm_def
      create_ring_shm_def DataRegion_create_def init_in_place_def Producer_new_def)

lemma toy_join: "ServiceChannel_join toy 5 toy_prepared = Inr (Inr toy_se, toy_joined)"
  by (simp add: toy_run toy_prepared_def toy_se_def toy_joined_def ServiceChannel_join_def open_existing_ring_def
      create_or_open_ring_def svc_DataRegion_join_def init_in_place_def Producer_new_def Consumer_new_def
      attach_def attach_loop_first ATTACH_SPINS_def)

definition toy_connected :: toy_os where
  "toy_connected = toy_joined\<lparr>to_fds := (3, 13) # to_fds toy_joined, to_maps := (768, 13) # to_maps toy_joined\<rparr>"

definition toy_ce :: ClientEnds where
  "toy_ce = \<lparr>ce_req = 128, ce_req_tx = \<lparr>cached_head = 0, local_tail = 0\<rparr>, ce_resp = 768,
     ce_resp_rx = \<lparr>local_head = 0, cached_tail = 0\<rparr>, ce_data = pc_data toy_pc, ce_instance = 5\<rparr>"

lemma toy_connect: "PreparedChannel_connect toy sleep toy_pc toy_joined = Inr (Inr toy_ce, toy_connected)"
  by (rule connect_first)
    (simp add: toy_run toy_pc_def toy_joined_def toy_ce_def toy_connected_def connect_once_def open_ring_shm_def
      Consumer_new_def attach_def attach_loop_first ATTACH_SPINS_def)

theorem startup_connects_witness:
  "case PreparedChannel_create toy 5 toy_start of
     Inr (Inr pc, s1) \<Rightarrow>
       (case ServiceChannel_join toy 5 s1 of
          Inr (Inr se, s2) \<Rightarrow>
            (case PreparedChannel_connect toy (\<lambda>_ s. s) pc s2 of
               Inr (Inr ce, s3) \<Rightarrow> connected ce se 5 (toy_view s3) \<and> ce = toy_ce \<and> se = toy_se
             | _ \<Rightarrow> False)
        | _ \<Rightarrow> False)
   | _ \<Rightarrow> False"
  using startup_connects [OF toy_contract quiet_id quiet_id, of 5 toy_start]
  by (auto simp: toy_create toy_join toy_connect)

section \<open>The daemon started first\<close>

text \<open>C35. A daemon that registers its instances before the client creates its own never meets that client, in
  whatever state the segments were: it joins an instance only while it starts, and \<open>create\<close> removes and
  remakes the segments. \<open>AtlasClient::new\<close> then fails (\<open>atlas_client_create\<close> gives null), with an error number of the operating system or
  with \<open>connect\<close>'s timeout after 200 attempts; it does not panic, and does not attach to a response ring
  that the daemon or an earlier run left behind.\<close>

theorem daemon_started_first:
  assumes "shm_contract os view" "quiet i view sleep"
  shows "case register_args os args [] s0 of
      Inl _ \<Rightarrow> True
    | Inr (_, s) \<Rightarrow>
        (case AtlasClient_new os sleep i s of
           Inl _ \<Rightarrow> False
         | Inr (Inr _, _) \<Rightarrow> False
         | Inr (Inl e, s') \<Rightarrow> ffi_create os sleep i s = Inr (None, s') \<and>
             (\<exists>n. e = Raw_Os n \<or> e = Join_Timeout (Some (Inl n))))"
proof -
  have times_out: "case PreparedChannel_connect os sleep pc s1 of
      Inl _ \<Rightarrow> False
    | Inr (Inl e, s2) \<Rightarrow> (\<exists>n. e = Join_Timeout (Some (Inl n))) \<and> client_prepared pc i (view s2)
    | Inr (Inr ce, s2) \<Rightarrow> False" if "client_prepared pc i (view s1)" for pc s1
    unfolding PreparedChannel_connect_def
    by (rule connect_loop_ends [where P = "client_prepared pc i", OF connect_once_missing [OF assms(1)] same_segments_prepared
          assms(2) that]) (simp_all add: CONNECT_ATTEMPTS_def client_prepared_def)
  have create: "case ClientChannel_create os sleep i s of
      Inl _ \<Rightarrow> False
    | Inr (Inr _, _) \<Rightarrow> False
    | Inr (Inl e, _) \<Rightarrow> \<exists>n. e = Raw_Os n \<or> e = Join_Timeout (Some (Inl n))" for s
    using create_ends [OF assms(1), of i s]
    by (auto simp: ClientChannel_create_def shm_then_def and_then_def ends_def split: sum.split prod.split
        dest!: times_out)
  show ?thesis
  proof (cases "register_args os args [] s0")
    case (Inr r)
    obtain e s' n where "ClientChannel_create os sleep i (snd r) = Inr (Inl e, s')"
      "e = Raw_Os n \<or> e = Join_Timeout (Some (Inl n))"
      using create [of "snd r"] by (auto split: sum.splits prod.splits)
    then show ?thesis using Inr by (cases r) (auto simp: ffi_create_def)
  qed simp
qed

text \<open>The daemon finds the segments of an earlier client of instance 5 and joins them.\<close>

lemma toy_register: "register_args toy [''5''] [] toy_prepared = Inr ([toy_se], toy_joined)"
  by (simp add: register_channel_def toy_join shm_then_def shm_return_def parse_u32_def digit_value_def)

theorem daemon_started_first_witness:
  "case register_args toy [''5''] [] toy_prepared of
     Inl _ \<Rightarrow> False
   | Inr (chans, s) \<Rightarrow> chans = [toy_se] \<and>
       (case AtlasClient_new toy (\<lambda>_ s. s) 5 s of
          Inr (Inl e, s') \<Rightarrow> ffi_create toy (\<lambda>_ s. s) 5 s = Inr (None, s') \<and>
            (\<exists>n. e = Raw_Os n \<or> e = Join_Timeout (Some (Inl n)))
        | _ \<Rightarrow> False)"
  using daemon_started_first [OF toy_contract quiet_id, of 5 "[''5'']" toy_prepared] unfolding toy_register
  by (auto split: sum.splits prod.splits)

section \<open>Joining again\<close>

text \<open>C33. A service that stopped and joins its instance again, while the client keeps using it, resumes where
  it was: the join ends with success or an error number of the operating system, and after it the new ends
  make a well-formed channel with the client's, in which the requests that were waiting and the responses
  that were not taken yet are still there, in order.\<close>

theorem rejoin_keeps_traffic:
  assumes "shm_contract os view" "in_use ce rx tx i (view s) a b c"
  shows "case ServiceChannel_join os i s of
      Inl _ \<Rightarrow> False
    | Inr (Inl e, _) \<Rightarrow> \<exists>n. e = Raw_Os n
    | Inr (Inr se, s') \<Rightarrow> resumed ce se i (view s') a b c \<and> chan_wf (opened_channel ce se (view s')) \<and>
        requests (opened_channel ce se (view s')) = ring_contents RING_CAPACITY (v_req (view s) a) \<and>
        resp_log (opened_channel ce se (view s')) = ring_contents RING_CAPACITY (v_resp (view s) c)"
  using rejoin_ends [OF assms]
  by (auto simp: ends_def adds_def undisturbed_def resumed_channel split: sum.split prod.split)

text \<open>The small system after start-up and one push.\<close>

definition toy_busy :: toy_os where
  "toy_busy = toy_connected\<lparr>to_req := [(1, (ready zero_request)\<lparr>ring_tail := 1\<rparr>)]\<rparr>"

definition toy_ce_busy :: ClientEnds where
  "toy_ce_busy = toy_ce\<lparr>ce_req_tx := \<lparr>cached_head = 0, local_tail = 1\<rparr>\<rparr>"

lemma toy_busy_waiting: "ring_contents RING_CAPACITY (v_req (toy_view toy_busy) 1) = [zero_request]"
  by (simp add: toy_view_def toy_busy_def ring_in_def ready_def zero_ring_def ring_contents_def window_def
      slot_index_def RING_CAPACITY_def)

lemma toy_busy_in_use:
  "in_use toy_ce_busy (se_req_rx toy_se) (se_resp_tx toy_se) 5 (toy_view toy_busy) 1 4 13"
  using RING_CAPACITY_power
  by (simp add: in_use_def toy_view_def toy_busy_def toy_connected_def toy_joined_def toy_ce_busy_def toy_ce_def
      toy_se_def toy_pc_def ring_in_def ready_def zero_ring_def spsc_wf_def ring_wf_def producer_wf_def
      consumer_wf_def window_def RING_CAPACITY_def)

lemma toy_rejoin: "\<exists>se s'. ServiceChannel_join toy 5 toy_busy = Inr (Inr se, s')"
  by (simp add: toy_run toy_busy_def toy_connected_def toy_joined_def ServiceChannel_join_def open_existing_ring_def
      create_or_open_ring_def svc_DataRegion_join_def init_in_place_def attach_def attach_loop_first ATTACH_SPINS_def)

theorem rejoin_keeps_traffic_witness:
  "case ServiceChannel_join toy 5 toy_busy of
      Inr (Inr se, s') \<Rightarrow> requests (opened_channel toy_ce_busy se (toy_view s')) = [zero_request]
    | _ \<Rightarrow> False"
  using rejoin_keeps_traffic [OF toy_contract toy_busy_in_use] toy_rejoin
  by (auto simp: toy_busy_waiting simp del: One_nat_def)

end
