(* ===== verification/Wire_Layout.thy ===== *)
theory Wire_Layout
  imports Protocol Shm_Setup
begin

text \<open>
  The bytes of what is shared: the two \<open>repr(C)\<close> structs of \<open>atlas-protocol/src/lib.rs\<close> and the ring
  of \<open>atlas-protocol/src/spsc.rs\<close>, laid out by the C rule (each field at the next multiple of its
  alignment, the size a multiple of the largest alignment) on a little-endian machine with 64-bit
  pointers. The values the rings carry in the other theories are shown to be the same thing as the bytes
  the two processes exchange, as \<open>AnyBitPattern\<close> and \<open>NoUninit\<close> promise.
\<close>

section \<open>The layout of a C struct\<close>

text \<open>A field is its size and its alignment.\<close>

type_synonym c_field = "nat \<times> nat"

definition round_up :: "nat \<Rightarrow> nat \<Rightarrow> nat" where
  "round_up n a = (n + a - 1) div a * a"

fun field_offsets :: "nat \<Rightarrow> c_field list \<Rightarrow> nat list" where
  "field_offsets pos [] = []"
| "field_offsets pos ((sz, al) # fs) = round_up pos al # field_offsets (round_up pos al + sz) fs"

fun fields_end :: "nat \<Rightarrow> c_field list \<Rightarrow> nat" where
  "fields_end pos [] = pos"
| "fields_end pos ((sz, al) # fs) = fields_end (round_up pos al + sz) fs"

definition struct_align :: "nat \<Rightarrow> c_field list \<Rightarrow> nat" where
  "struct_align al fs = fold max (map snd fs) al"

definition struct_size :: "nat \<Rightarrow> c_field list \<Rightarrow> nat" where
  "struct_size al fs = round_up (fields_end 0 fs) (struct_align al fs)"

definition request_layout :: "c_field list" where
  "request_layout =
     [(8, 8), (1, 1), (1, 1), (6, 1), (8, 8), (8, 8), (4, 4), (4, 4), (MAX_PATH_LEN, 1)]"

definition response_layout :: "c_field list" where
  "response_layout = [(8, 8), (4, 4), (4, 1), (8, 8), (4, 4), (4, 4)]"

text \<open>\<open>magic\<close>, \<open>capacity\<close>, \<open>_pad0\<close>, \<open>tail\<close>, \<open>_pad1\<close>, \<open>head\<close>, \<open>_pad2\<close> and the slots.\<close>

definition ring_layout :: "nat \<Rightarrow> nat \<Rightarrow> nat \<Rightarrow> c_field list" where
  "ring_layout N sz al =
     [(8, 8), (8, 8), (112, 1), (8, 8), (120, 1), (8, 8), (120, 1), (N * sz, al)]"

section \<open>Little-endian integers\<close>

definition word_bytes :: "'a::len word \<Rightarrow> u8 list" where
  "word_bytes w = map (\<lambda>i. ucast (drop_bit (8 * i) w)) [0..<LENGTH('a) div 8]"

primrec bytes_word :: "u8 list \<Rightarrow> 'a::len word" where
  "bytes_word [] = 0"
| "bytes_word (b # bs) = ucast b OR push_bit 8 (bytes_word bs)"

lemma length_word_bytes [simp]: "length (word_bytes (w :: 'a::len word)) = LENGTH('a) div 8"
  by (simp add: word_bytes_def)

lemma bit_bytes_word:
  "bit (bytes_word bs :: 'a::len word) i \<longleftrightarrow>
     i < LENGTH('a) \<and> i < 8 * length bs \<and> bit (bs ! (i div 8)) (i mod 8)"
proof (induction bs arbitrary: i)
  case (Cons b bs)
  show ?case
  proof (cases "i < 8")
    case True
    then show ?thesis by (auto simp: bit_simps)
  next
    case False
    then have i: "i div 8 = Suc ((i - 8) div 8)" "i mod 8 = (i - 8) mod 8"
      by (simp_all add: le_div_geq le_mod_geq)
    have "\<not> bit b i" using False by (auto dest: bit_imp_le_length)
    with False i show ?thesis
      using Cons.IH [of "i - 8"] by (auto simp: bit_simps)
  qed
qed simp

lemma bytes_word_word_bytes:
  assumes "8 dvd LENGTH('a)"
  shows "bytes_word (word_bytes w) = (w :: 'a::len word)"
proof (rule bit_word_eqI)
  fix i assume i: "i < LENGTH('a)"
  have "i div 8 < LENGTH('a) div 8" using i assms by (intro less_mult_imp_div_less) simp
  moreover have "bit (ucast (drop_bit (8 * (i div 8)) w) :: u8) (i mod 8) = bit w i"
    by (simp add: bit_simps)
  moreover have "i < 8 * (LENGTH('a) div 8)" using i assms by simp
  ultimately show "bit (bytes_word (word_bytes w) :: 'a word) i = bit w i"
    using i by (simp add: bit_bytes_word word_bytes_def)
qed

lemma word_bytes_bytes_word:
  assumes "8 * length bs = LENGTH('a)"
  shows "word_bytes (bytes_word bs :: 'a::len word) = bs"
proof (rule nth_equalityI)
  have n: "LENGTH('a) div 8 = length bs" using assms by simp
  show "length (word_bytes (bytes_word bs :: 'a word)) = length bs" using n by simp
  fix i assume "i < length (word_bytes (bytes_word bs :: 'a word))"
  then have i: "i < length bs" using n by simp
  have "bit (ucast (drop_bit (8 * i) (bytes_word bs :: 'a word)) :: u8) j = bit (bs ! i) j" if "j < 8" for j
    using that i assms by (simp add: bit_simps bit_bytes_word)
  then have "(ucast (drop_bit (8 * i) (bytes_word bs :: 'a word)) :: u8) = bs ! i"
    by (intro bit_word_eqI) simp
  then show "word_bytes (bytes_word bs :: 'a word) ! i = bs ! i"
    using i n by (simp add: word_bytes_def)
qed

section \<open>Splitting a byte string into fields\<close>

primrec split_fields :: "nat list \<Rightarrow> 'a list \<Rightarrow> 'a list list" where
  "split_fields [] bs = []"
| "split_fields (n # ns) bs = take n bs # split_fields ns (drop n bs)"

lemma split_concat: "split_fields (map length xss) (concat xss) = xss"
  by (induction xss) simp_all

lemma concat_split:
  "sum_list ns = length bs \<Longrightarrow> concat (split_fields ns bs) = bs \<and> map length (split_fields ns bs) = ns"
  by (induction ns arbitrary: bs) simp_all

section \<open>Requests and responses as bytes\<close>

definition request_bytes :: "IoRequest \<Rightarrow> u8 list" where
  "request_bytes r = concat
     [word_bytes (rq_id r), [rq_op r], [rq_priority r], rq_pad r, word_bytes (rq_fd r),
      word_bytes (rq_offset r), word_bytes (rq_len r), word_bytes (rq_data_offset r), rq_path r]"

definition response_bytes :: "IoResponse \<Rightarrow> u8 list" where
  "response_bytes r = concat
     [word_bytes (rs_id r), word_bytes (rs_status r), rs_pad r, word_bytes (rs_fd r),
      word_bytes (rs_data_offset r), word_bytes (rs_data_len r)]"

text \<open>Reading bytes as a struct, as \<open>bytemuck::from_bytes\<close> does: it panics on another size, and on nothing
  else.\<close>

definition request_from_bytes :: "u8 list \<Rightarrow> IoRequest exec" where
  "request_from_bytes bs =
     (if length bs \<noteq> struct_size 1 request_layout then Inl Assertion
      else case split_fields (map fst request_layout) bs of
        [i, op, prio, pad, fd, off, len, doff, path] \<Rightarrow>
          Inr \<lparr>rq_id = bytes_word i, rq_op = bytes_word op, rq_priority = bytes_word prio, rq_pad = pad,
            rq_fd = bytes_word fd, rq_offset = bytes_word off, rq_len = bytes_word len,
            rq_data_offset = bytes_word doff, rq_path = path\<rparr>
      | _ \<Rightarrow> Inl Assertion)"

definition response_from_bytes :: "u8 list \<Rightarrow> IoResponse exec" where
  "response_from_bytes bs =
     (if length bs \<noteq> struct_size 1 response_layout then Inl Assertion
      else case split_fields (map fst response_layout) bs of
        [i, st, pad, fd, doff, dlen] \<Rightarrow>
          Inr \<lparr>rs_id = bytes_word i, rs_status = bytes_word st, rs_pad = pad, rs_fd = bytes_word fd,
            rs_data_offset = bytes_word doff, rs_data_len = bytes_word dlen\<rparr>
      | _ \<Rightarrow> Inl Assertion)"

definition response_shape :: "IoResponse \<Rightarrow> bool" where
  "response_shape r \<longleftrightarrow> length (rs_pad r) = 4"

lemma layout_sizes [simp]:
  "struct_size (Suc 0) request_layout = 296" "sum_list (map fst request_layout) = 296"
  "struct_size (Suc 0) response_layout = 32" "sum_list (map fst response_layout) = 32"
  by (simp_all add: struct_size_def struct_align_def request_layout_def response_layout_def round_up_def
      MAX_PATH_LEN_def)

lemma words_bytes [simp]:
  "bytes_word (word_bytes w) = (w :: u64)" "bytes_word (word_bytes v) = (v :: u32)"
  "8 * length bs = 64 \<Longrightarrow> word_bytes (bytes_word bs :: u64) = bs"
  "8 * length bs = 32 \<Longrightarrow> word_bytes (bytes_word bs :: u32) = bs"
  by (simp_all add: bytes_word_word_bytes word_bytes_bytes_word)

lemma one_byte [simp]: "bytes_word [b] = (b :: u8)" 
  by simp

lemma request_fields_length:
  "request_shape r \<Longrightarrow> map length
     [word_bytes (rq_id r), [rq_op r], [rq_priority r], rq_pad r, word_bytes (rq_fd r),
      word_bytes (rq_offset r), word_bytes (rq_len r), word_bytes (rq_data_offset r), rq_path r]
   = map fst request_layout"
  by (simp add: request_shape_def request_layout_def)

lemma request_of_bytes:
  assumes "request_shape r"
  shows "request_from_bytes (request_bytes r) = Inr r"
proof -
  have "length (request_bytes r) = sum_list (map fst request_layout)"
    unfolding request_bytes_def length_concat request_fields_length [OF assms] ..
  moreover have "split_fields (map fst request_layout) (request_bytes r) =
     [word_bytes (rq_id r), [rq_op r], [rq_priority r], rq_pad r, word_bytes (rq_fd r),
      word_bytes (rq_offset r), word_bytes (rq_len r), word_bytes (rq_data_offset r), rq_path r]"
    unfolding request_bytes_def request_fields_length [OF assms, symmetric] by (rule split_concat)
  ultimately show ?thesis by (simp add: request_from_bytes_def del: bytes_word.simps)
qed

lemma bytes_of_request:
  assumes "length bs = 296"
  obtains r where "request_from_bytes bs = Inr r" "request_shape r" "request_bytes r = bs"
proof -
  let ?fs = "split_fields (map fst request_layout) bs"
  have cs: "concat ?fs = bs" "map length ?fs = map fst request_layout"
    using concat_split [of "map fst request_layout" bs] assms by simp_all
  obtain i op prio pad fd off len doff path where fs: "?fs = [i, op, prio, pad, fd, off, len, doff, path]"
    by (simp add: request_layout_def)
  have l: "length i = 8" "length op = 1" "length prio = 1" "length pad = 6" "length fd = 8" "length off = 8"
    "length len = 4" "length doff = 4" "length path = MAX_PATH_LEN"
    using cs(2) [unfolded fs] by (simp_all add: request_layout_def)
  obtain a b where ab: "op = [a]" "prio = [b]" using l(2,3) by (auto simp: length_Suc_conv)
  let ?r = "\<lparr>rq_id = bytes_word i, rq_op = a, rq_priority = b, rq_pad = pad,
            rq_fd = bytes_word fd, rq_offset = bytes_word off, rq_len = bytes_word len,
            rq_data_offset = bytes_word doff, rq_path = path\<rparr>"
  have "request_from_bytes bs = Inr ?r"
    using assms by (simp add: request_from_bytes_def fs ab del: bytes_word.simps)
  moreover have "request_shape ?r" using l by (simp add: request_shape_def)
  moreover have "request_bytes ?r = bs"
    using cs(1) l by (simp add: request_bytes_def fs ab)
  ultimately show thesis by (rule that)
qed

lemma response_fields_length:
  "response_shape r \<Longrightarrow> map length
     [word_bytes (rs_id r), word_bytes (rs_status r), rs_pad r, word_bytes (rs_fd r),
      word_bytes (rs_data_offset r), word_bytes (rs_data_len r)]
   = map fst response_layout"
  by (simp add: response_shape_def response_layout_def)

lemma response_of_bytes:
  assumes "response_shape r"
  shows "response_from_bytes (response_bytes r) = Inr r"
proof -
  have "length (response_bytes r) = sum_list (map fst response_layout)"
    unfolding response_bytes_def length_concat response_fields_length [OF assms] ..
  moreover have "split_fields (map fst response_layout) (response_bytes r) =
     [word_bytes (rs_id r), word_bytes (rs_status r), rs_pad r, word_bytes (rs_fd r),
      word_bytes (rs_data_offset r), word_bytes (rs_data_len r)]"
    unfolding response_bytes_def response_fields_length [OF assms, symmetric] by (rule split_concat)
  ultimately show ?thesis by (simp add: response_from_bytes_def)
qed

lemma bytes_of_response:
  assumes "length bs = 32"
  obtains r where "response_from_bytes bs = Inr r" "response_shape r" "response_bytes r = bs"
proof -
  let ?fs = "split_fields (map fst response_layout) bs"
  have cs: "concat ?fs = bs" "map length ?fs = map fst response_layout"
    using concat_split [of "map fst response_layout" bs] assms by simp_all
  obtain i st pad fd doff dlen where fs: "?fs = [i, st, pad, fd, doff, dlen]"
    by (simp add: response_layout_def)
  have l: "length i = 8" "length st = 4" "length pad = 4" "length fd = 8" "length doff = 4" "length dlen = 4"
    using cs(2) [unfolded fs] by (simp_all add: response_layout_def)
  let ?r = "\<lparr>rs_id = bytes_word i, rs_status = bytes_word st, rs_pad = pad, rs_fd = bytes_word fd,
            rs_data_offset = bytes_word doff, rs_data_len = bytes_word dlen\<rparr>"
  have "response_from_bytes bs = Inr ?r" using assms by (simp add: response_from_bytes_def fs)
  moreover have "response_shape ?r" using l by (simp add: response_shape_def)
  moreover have "response_bytes ?r = bs" using cs(1) l by (simp add: response_bytes_def fs)
  ultimately show thesis by (rule that)
qed

section \<open>The ring\<close>

lemma round_up_multiple:
  assumes "a dvd n" "0 < a"
  shows "round_up n a = n"
proof -
  from assms(1) obtain k where k: "n = a * k" by (rule dvdE)
  have "n + a - 1 = (a - 1) + a * k" using assms(2) k by simp
  also have "\<dots> div a = k + (a - 1) div a" using assms(2) by (intro div_mult_self2) simp
  finally have "(n + a - 1) div a = k" using assms(2) by simp
  with k show ?thesis by (simp add: round_up_def)
qed

lemma round_up_128: "x \<le> (x + 127) div 128 * 128" for x :: nat
proof -
  have "x + 127 = (x + 127) div 128 * 128 + (x + 127) mod 128" by (simp only: div_mult_mod_eq)
  moreover have "(x + 127) mod 128 < 128" by simp
  ultimately show ?thesis by linarith
qed

lemma ring_offsets:
  assumes "al dvd 128" "0 < al"
  shows "field_offsets 0 (ring_layout n sz al) = [0, 8, 16, 128, 136, 256, 264, 384]"
    and "fields_end 0 (ring_layout n sz al) = 384 + n * sz"
proof -
  have "al dvd 3 * 128" using assms(1) by (rule dvd_mult)
  then have "al dvd 384" by simp
  then have "round_up 384 al = 384" using assms(2) by (rule round_up_multiple)
  then show "field_offsets 0 (ring_layout n sz al) = [0, 8, 16, 128, 136, 256, 264, 384]"
    "fields_end 0 (ring_layout n sz al) = 384 + n * sz"
    by (simp_all add: ring_layout_def) (simp_all add: round_up_def)
qed

lemma ring_struct_size:
  assumes "al dvd 128" "0 < al"
  shows "struct_size 128 (ring_layout n sz al) = (384 + n * sz + 127) div 128 * 128"
proof -
  have "al \<le> 128" using assms(1) by (rule dvd_imp_le) simp
  then have "struct_align 128 (ring_layout n sz al) = 128" by (simp add: struct_align_def ring_layout_def)
  then show ?thesis by (simp add: struct_size_def ring_offsets [OF assms] round_up_def)
qed

lemma unat_ring_size:
  assumes "384 + unat N * unat slot + 127 < 2 ^ 64"
  shows "unat (ring_size_bytes N slot) = (384 + unat N * unat slot + 127) div 128 * 128"
proof -
  have "unat (N * slot) = unat N * unat slot" using assms by (simp add: unat_word_ariths)
  then have s: "unat (384 + N * slot + 127) = 384 + unat N * unat slot + 127"
    using assms by (simp add: unat_word_ariths)
  have "(384 + unat N * unat slot + 127) div 128 * 128 < 2 ^ 64"
    using assms by (rule le_less_trans [rotated]) (rule div_times_less_eq_dividend)
  then show ?thesis using s by (simp add: ring_size_bytes_def unat_word_ariths unat_div)
qed

section \<open>Properties\<close>

text \<open>C27. The two messages are exactly byte strings of 296 and of 32 bytes: the C layout of either struct
  has that size and no byte of padding, so that the sum of its fields is its size; writing a message and
  reading the bytes gives the message back; and every byte string of the size, whatever a peer may have
  written, is read as a message whose bytes it is.\<close>

theorem wire_format_exact:
  "struct_size 1 request_layout = 296 \<and> sum_list (map fst request_layout) = 296 \<and>
   struct_size 1 response_layout = 32 \<and> sum_list (map fst response_layout) = 32 \<and>
   (request_shape r \<longrightarrow> request_from_bytes (request_bytes r) = Inr r) \<and>
   (response_shape s \<longrightarrow> response_from_bytes (response_bytes s) = Inr s) \<and>
   (length bs = 296 \<longrightarrow> (\<exists>r. request_from_bytes bs = Inr r \<and> request_shape r \<and> request_bytes r = bs)) \<and>
   (length bs = 32 \<longrightarrow> (\<exists>s. response_from_bytes bs = Inr s \<and> response_shape s \<and> response_bytes s = bs))"
  using request_of_bytes response_of_bytes bytes_of_request bytes_of_response
  by (intro conjI impI) (simp, simp, simp, simp, blast+)

theorem wire_format_exact_witness:
  "request_from_bytes (request_bytes (IoRequest_new 1 Open High)) = Inr (IoRequest_new 1 Open High) \<and>
   response_from_bytes (response_bytes (IoResponse_err 7 (- 5))) = Inr (IoResponse_err 7 (- 5)) \<and>
   (\<exists>s. response_from_bytes (replicate 32 255) = Inr s \<and> rs_status s = - 1 \<and> response_bytes s = replicate 32 255)"
proof -
  have "response_shape (IoResponse_err 7 (- 5))" by (simp add: response_shape_def IoResponse_err_def)
  with wire_format_exact [of "IoRequest_new 1 Open High" "IoResponse_err 7 (- 5)" "replicate 32 255"]
  obtain s where s: "request_from_bytes (request_bytes (IoRequest_new 1 Open High)) = Inr (IoRequest_new 1 Open High)"
    "response_from_bytes (response_bytes (IoResponse_err 7 (- 5))) = Inr (IoResponse_err 7 (- 5))"
    "response_from_bytes (replicate 32 255) = Inr s" "response_bytes s = replicate 32 255" by auto
  have "rs_status s = bytes_word [255, 255, 255, 255]"
  proof -
    have "split_fields (map fst response_layout) (replicate 32 (255 :: u8)) =
        [replicate 8 255, replicate 4 255, replicate 4 255, replicate 8 255, replicate 4 255, replicate 4 255]"
      by (simp add: response_layout_def)
    moreover have "replicate 4 (255 :: u8) = [255, 255, 255, 255]" by (simp add: eval_nat_numeral)
    ultimately show ?thesis using s(3) by (auto simp: response_from_bytes_def simp del: bytes_word.simps)
  qed
  also have "(bytes_word [255, 255, 255, 255] :: i32) = - 1" by code_simp
  finally show ?thesis using s by blast
qed

text \<open>In memory the two counters of a ring lie in cache lines of their own, 128 bytes apart, the slots
  follow them, and the segments that the two sides size with \<open>size_bytes\<close> hold exactly the ring.\<close>

theorem ring_fits_segment:
  assumes "al dvd 128" "0 < al" "384 + unat N * unat slot + 127 < 2 ^ 64"
  shows "field_offsets 0 (ring_layout (unat N) (unat slot) al) = [0, 8, 16, 128, 136, 256, 264, 384] \<and>
    struct_size 128 (ring_layout (unat N) (unat slot) al) = unat (ring_size_bytes N slot) \<and>
    384 + unat N * unat slot \<le> unat (ring_size_bytes N slot)"
  unfolding ring_struct_size [OF assms(1,2)] unat_ring_size [OF assms(3)]
  using ring_offsets(1) [OF assms(1,2)] round_up_128 by blast

theorem ring_fits_segment_witness:
  "struct_size 128 (ring_layout 4096 (struct_size 1 request_layout) 8) = unat REQ_RING_BYTES \<and>
   struct_size 128 (ring_layout 4096 (struct_size 1 response_layout) 8) = unat RESP_RING_BYTES"
  using ring_fits_segment [of 8 RING_CAPACITY 296] ring_fits_segment [of 8 RING_CAPACITY 32]
  by (simp add: REQ_RING_BYTES_def RESP_RING_BYTES_def RING_CAPACITY_def)

end
