(* ===== verification/Spsc_Concurrent.thy ===== *)
theory Spsc_Concurrent
  imports Spsc_Ring "HOL-Library.Sublist"
begin

text \<open>
  The ring under concurrency: \<open>push\<close> and \<open>pop\<close> of \<open>atlas-protocol/src/spsc.rs\<close> cut at their
  accesses to shared memory, and the two threads (or processes) interleaved step by step.

  The counters are atomics. An \<open>Acquire\<close> load by one thread of the counter that only the other
  thread stores may return any value of that counter's modification order which is not older
  than the value it has loaded before (\<open>may_load\<close>); the latest value is one of them. The slots
  are plain memory. That they may be read and written as if steps were interleaved rests on the
  absence of data races on them, which is itself proved below for every reachable state
  (\<open>reach_no_slot_race\<close>).
\<close>

section \<open>Steps\<close>

datatype 'a producer_pc = PIdle | PCheck 'a | PReload 'a | PWrite 'a | PPublish 'a
datatype 'a consumer_pc = CIdle | CCheck | CReload | CRead | CRelease 'a

record 'a sys =
  s_ring :: "'a SpscRing"
  s_prod :: Producer
  s_cons :: Consumer
  s_ppc :: "'a producer_pc"
  s_cpc :: "'a consumer_pc"
  s_sent :: "'a list" \<comment> \<open>values whose \<open>push\<close> has published them\<close>
  s_rcvd :: "'a list" \<comment> \<open>values whose \<open>pop\<close> has returned them\<close>

definition may_load :: "usize \<Rightarrow> usize \<Rightarrow> usize \<Rightarrow> bool" where
  "may_load old cur w \<longleftrightarrow> unat (w - old) \<le> unat (cur - old)"

inductive spsc_step :: "usize \<Rightarrow> 'a sys \<Rightarrow> 'a sys \<Rightarrow> bool" for N where
  push_call: "s_ppc s = PIdle \<Longrightarrow> spsc_step N s (s\<lparr>s_ppc := PCheck v\<rparr>)"
| push_check: "s_ppc s = PCheck v \<Longrightarrow>
    spsc_step N s (s\<lparr>s_ppc :=
      (if N \<le> local_tail (s_prod s) - cached_head (s_prod s) then PReload v else PWrite v)\<rparr>)"
| push_reload: "s_ppc s = PReload v \<Longrightarrow>
    may_load (cached_head (s_prod s)) (ring_head (s_ring s)) h \<Longrightarrow>
    spsc_step N s (s\<lparr>s_prod := (s_prod s)\<lparr>cached_head := h\<rparr>,
      s_ppc := (if N \<le> local_tail (s_prod s) - h then PIdle else PWrite v)\<rparr>)"
| push_write: "s_ppc s = PWrite v \<Longrightarrow>
    spsc_step N s (s\<lparr>
      s_ring := (s_ring s)\<lparr>slots :=
        (slots (s_ring s))[slot_index N (local_tail (s_prod s)) := v]\<rparr>,
      s_prod := (s_prod s)\<lparr>local_tail := local_tail (s_prod s) + 1\<rparr>,
      s_ppc := PPublish v\<rparr>)"
| push_publish: "s_ppc s = PPublish v \<Longrightarrow>
    spsc_step N s (s\<lparr>s_ring := (s_ring s)\<lparr>ring_tail := local_tail (s_prod s)\<rparr>,
      s_ppc := PIdle, s_sent := s_sent s @ [v]\<rparr>)"
| pop_call: "s_cpc s = CIdle \<Longrightarrow> spsc_step N s (s\<lparr>s_cpc := CCheck\<rparr>)"
| pop_check: "s_cpc s = CCheck \<Longrightarrow>
    spsc_step N s (s\<lparr>s_cpc :=
      (if local_head (s_cons s) = cached_tail (s_cons s) then CReload else CRead)\<rparr>)"
| pop_reload: "s_cpc s = CReload \<Longrightarrow>
    may_load (cached_tail (s_cons s)) (ring_tail (s_ring s)) t \<Longrightarrow>
    spsc_step N s (s\<lparr>s_cons := (s_cons s)\<lparr>cached_tail := t\<rparr>,
      s_cpc := (if local_head (s_cons s) = t then CIdle else CRead)\<rparr>)"
| pop_read: "s_cpc s = CRead \<Longrightarrow>
    spsc_step N s (s\<lparr>s_cons := (s_cons s)\<lparr>local_head := local_head (s_cons s) + 1\<rparr>,
      s_cpc := CRelease (slots (s_ring s) ! slot_index N (local_head (s_cons s)))\<rparr>)"
| pop_release: "s_cpc s = CRelease v \<Longrightarrow>
    spsc_step N s (s\<lparr>s_ring := (s_ring s)\<lparr>ring_head := local_head (s_cons s)\<rparr>,
      s_cpc := CIdle, s_rcvd := s_rcvd s @ [v]\<rparr>)"

text \<open>Both ends attach to a well-formed ring; what it already holds counts as sent.\<close>

definition spsc_start :: "usize \<Rightarrow> 'a SpscRing \<Rightarrow> 'a sys" where
  "spsc_start N r =
     \<lparr>s_ring = r, s_prod = Producer_new r, s_cons = Consumer_new r, s_ppc = PIdle,
      s_cpc = CIdle, s_sent = ring_contents N r, s_rcvd = []\<rparr>"

inductive spsc_reach :: "usize \<Rightarrow> 'a SpscRing \<Rightarrow> 'a sys \<Rightarrow> bool" for N r where
  start: "ring_wf N r \<Longrightarrow> spsc_reach N r (spsc_start N r)"
| step: "spsc_reach N r s \<Longrightarrow> spsc_step N s t \<Longrightarrow> spsc_reach N r t"

section \<open>The invariant\<close>

text \<open>Values in slots, published or not; values read from slots, released or not.\<close>

definition written :: "'a sys \<Rightarrow> 'a list" where
  "written s = s_sent s @ (case s_ppc s of PPublish v \<Rightarrow> [v] | _ \<Rightarrow> [])"

definition taken :: "'a sys \<Rightarrow> 'a list" where
  "taken s = s_rcvd s @ (case s_cpc s of CRelease v \<Rightarrow> [v] | _ \<Rightarrow> [])"

text \<open>
  The counters are \<open>t0\<close> plus the lengths of the histories; \<open>ch\<close> and \<open>ct\<close> are the history
  positions of the two cached counters.
\<close>

definition counters_ok :: "usize \<Rightarrow> nat \<Rightarrow> nat \<Rightarrow> 'a sys \<Rightarrow> bool" where
  "counters_ok t0 ch ct s \<longleftrightarrow>
     local_tail (s_prod s) = t0 + of_nat (length (written s)) \<and>
     ring_tail (s_ring s) = t0 + of_nat (length (s_sent s)) \<and>
     local_head (s_cons s) = t0 + of_nat (length (taken s)) \<and>
     ring_head (s_ring s) = t0 + of_nat (length (s_rcvd s)) \<and>
     cached_head (s_prod s) = t0 + of_nat ch \<and>
     cached_tail (s_cons s) = t0 + of_nat ct"

definition order_ok :: "usize \<Rightarrow> nat \<Rightarrow> nat \<Rightarrow> 'a sys \<Rightarrow> bool" where
  "order_ok N ch ct s \<longleftrightarrow>
     ch \<le> length (s_rcvd s) \<and> length (taken s) \<le> ct \<and> ct \<le> length (s_sent s) \<and>
     length (written s) \<le> ch + unat N \<and>
     (\<forall>v. s_ppc s = PWrite v \<longrightarrow> length (written s) < ch + unat N) \<and>
     (s_cpc s = CRead \<longrightarrow> length (taken s) < ct)"

definition data_ok :: "usize \<Rightarrow> usize \<Rightarrow> 'a sys \<Rightarrow> bool" where
  "data_ok N t0 s \<longleftrightarrow>
     is_power_of_two N \<and> length (slots (s_ring s)) = unat N \<and>
     taken s = take (length (taken s)) (s_sent s) \<and>
     (\<forall>i. length (taken s) \<le> i \<and> i < length (written s) \<longrightarrow>
        slots (s_ring s) ! slot_index N (t0 + of_nat i) = written s ! i)"

definition conc_inv :: "usize \<Rightarrow> 'a sys \<Rightarrow> bool" where
  "conc_inv N s \<longleftrightarrow>
     (\<exists>t0 ch ct. counters_ok t0 ch ct s \<and> order_ok N ch ct s \<and> data_ok N t0 s)"

lemma conc_invI:
  "counters_ok t0 ch ct s \<Longrightarrow> order_ok N ch ct s \<Longrightarrow> data_ok N t0 s \<Longrightarrow> conc_inv N s"
  by (auto simp: conc_inv_def)

lemma length_sent_written: "length (s_sent s) \<le> length (written s)"
  by (simp add: written_def)

lemma length_rcvd_taken: "length (s_rcvd s) \<le> length (taken s)"
  by (simp add: taken_def)

lemma order_ok_bounds:
  assumes "order_ok N ch ct s"
  shows "length (written s) - ch < 2 ^ 64" "length (s_rcvd s) - ch < 2 ^ 64"
    "length (s_sent s) - ct < 2 ^ 64"
proof -
  have "unat N < 2 ^ LENGTH(64)" by (rule unsigned_less)
  then show "length (written s) - ch < 2 ^ 64" "length (s_rcvd s) - ch < 2 ^ 64"
    "length (s_sent s) - ct < 2 ^ 64"
    using assms length_sent_written [of s] length_rcvd_taken [of s]
    by (auto simp: order_ok_def simp del: unat_u64_less)
qed

lemma producer_distance:
  assumes "counters_ok t0 ch ct s" "order_ok N ch ct s"
  shows "unat (local_tail (s_prod s) - cached_head (s_prod s)) = length (written s) - ch"
proof -
  have "ch \<le> length (written s)"
    using assms(2) length_sent_written [of s] length_rcvd_taken [of s] by (simp add: order_ok_def)
  then show ?thesis
    using assms(1) unat_counter_diff [OF _ order_ok_bounds(1) [OF assms(2)]]
    by (simp add: counters_ok_def)
qed

text \<open>A load between a stale and the current value is a position between their positions.\<close>

lemma may_load_position:
  fixes t0 :: usize
  assumes "may_load (t0 + of_nat old) (t0 + of_nat cur) w" "old \<le> cur" "cur - old < 2 ^ 64"
  obtains k where "w = t0 + of_nat k" "old \<le> k" "k \<le> cur"
proof
  let ?d = "unat (w - (t0 + of_nat old))"
  have "?d \<le> cur - old"
    using assms(1) unat_counter_diff [OF assms(2,3), of t0] by (simp only: may_load_def)
  then show "old \<le> old + ?d" "old + ?d \<le> cur" using assms(2) by simp_all
  have "w = (t0 + of_nat old) + of_nat ?d" by (rule counter_split)
  then show "w = t0 + of_nat (old + ?d)" by (simp only: of_nat_add add.assoc)
qed

lemma conc_inv_start: "ring_wf N r \<Longrightarrow> conc_inv N (spsc_start N r)"
proof (rule conc_invI)
  assume wf: "ring_wf N r"
  show "counters_ok (ring_head r) 0 (window r) (spsc_start N r)"
    by (simp add: counters_ok_def spsc_start_def written_def taken_def Producer_new_def
        Consumer_new_def window_def)
  show "order_ok N 0 (window r) (spsc_start N r)"
    using wf by (simp add: order_ok_def spsc_start_def written_def taken_def ring_wf_def)
  show "data_ok N (ring_head r) (spsc_start N r)"
    using wf by (simp add: data_ok_def spsc_start_def written_def taken_def ring_wf_def ring_contents_def)
qed

lemmas conc_unfold = counters_ok_def order_ok_def data_ok_def written_def taken_def

text \<open>Steps that only move a program counter or refresh a cached counter.\<close>

lemma conc_inv_producer_check:
  assumes "conc_inv N s" "s_ppc s = PCheck v"
  shows "conc_inv N (s\<lparr>s_ppc :=
      (if N \<le> local_tail (s_prod s) - cached_head (s_prod s) then PReload v else PWrite v)\<rparr>)"
proof -
  from assms(1) obtain t0 ch ct where inv: "counters_ok t0 ch ct s" "order_ok N ch ct s" "data_ok N t0 s"
    by (auto simp: conc_inv_def)
  show ?thesis
    using inv producer_distance [OF inv(1,2)] assms(2)
    by (intro conc_invI [of t0 ch ct]) (auto simp: conc_unfold word_le_nat_alt)
qed

lemma conc_inv_producer_reload:
  assumes "conc_inv N s" "s_ppc s = PReload v"
    and "may_load (cached_head (s_prod s)) (ring_head (s_ring s)) h"
  shows "conc_inv N (s\<lparr>s_prod := (s_prod s)\<lparr>cached_head := h\<rparr>,
      s_ppc := (if N \<le> local_tail (s_prod s) - h then PIdle else PWrite v)\<rparr>)"
    (is "conc_inv N ?s'")
proof -
  from assms(1) obtain t0 ch ct where inv: "counters_ok t0 ch ct s" "order_ok N ch ct s" "data_ok N t0 s"
    by (auto simp: conc_inv_def)
  have "may_load (t0 + of_nat ch) (t0 + of_nat (length (s_rcvd s))) h" "ch \<le> length (s_rcvd s)"
    using assms(3) inv by (simp_all add: counters_ok_def order_ok_def)
  from may_load_position [OF this order_ok_bounds(2) [OF inv(2)]]
  obtain k where k: "h = t0 + of_nat k" "ch \<le> k" "k \<le> length (s_rcvd s)" .
  let ?u = "s\<lparr>s_prod := (s_prod s)\<lparr>cached_head := h\<rparr>, s_ppc := PIdle\<rparr>"
  have u: "counters_ok t0 k ct ?u" "order_ok N k ct ?u" "data_ok N t0 ?u"
    using inv k assms(2) by (auto simp: conc_unfold)
  show ?thesis
    using u producer_distance [OF u(1,2)]
    by (intro conc_invI [of t0 k ct]) (auto simp: conc_unfold word_le_nat_alt)
qed

lemma conc_inv_consumer_check:
  assumes "conc_inv N s" "s_cpc s = CCheck"
  shows "conc_inv N (s\<lparr>s_cpc :=
      (if local_head (s_cons s) = cached_tail (s_cons s) then CReload else CRead)\<rparr>)"
proof -
  from assms(1) obtain t0 ch ct where inv: "counters_ok t0 ch ct s" "order_ok N ch ct s" "data_ok N t0 s"
    by (auto simp: conc_inv_def)
  show ?thesis
    using inv assms(2) by (intro conc_invI [of t0 ch ct]) (auto simp: conc_unfold le_less)
qed

lemma conc_inv_consumer_reload:
  assumes "conc_inv N s" "s_cpc s = CReload"
    and "may_load (cached_tail (s_cons s)) (ring_tail (s_ring s)) t"
  shows "conc_inv N (s\<lparr>s_cons := (s_cons s)\<lparr>cached_tail := t\<rparr>,
      s_cpc := (if local_head (s_cons s) = t then CIdle else CRead)\<rparr>)"
proof -
  from assms(1) obtain t0 ch ct where inv: "counters_ok t0 ch ct s" "order_ok N ch ct s" "data_ok N t0 s"
    by (auto simp: conc_inv_def)
  have "may_load (t0 + of_nat ct) (t0 + of_nat (length (s_sent s))) t" "ct \<le> length (s_sent s)"
    using assms(3) inv by (simp_all add: counters_ok_def order_ok_def)
  from may_load_position [OF this order_ok_bounds(3) [OF inv(2)]]
  obtain k where k: "t = t0 + of_nat k" "ct \<le> k" "k \<le> length (s_sent s)" .
  show ?thesis
    using inv k assms(2) by (intro conc_invI [of t0 ch k]) (auto simp: conc_unfold le_less)
qed

text \<open>The slot accesses and the two publishing stores.\<close>

lemma conc_inv_write:
  assumes "conc_inv N s" "s_ppc s = PWrite v"
  shows "conc_inv N (s\<lparr>
      s_ring := (s_ring s)\<lparr>slots :=
        (slots (s_ring s))[slot_index N (local_tail (s_prod s)) := v]\<rparr>,
      s_prod := (s_prod s)\<lparr>local_tail := local_tail (s_prod s) + 1\<rparr>,
      s_ppc := PPublish v\<rparr>)" (is "conc_inv N ?s'")
proof -
  from assms(1) obtain t0 ch ct where inv: "counters_ok t0 ch ct s" "order_ok N ch ct s" "data_ok N t0 s"
    by (auto simp: conc_inv_def)
  let ?a = "length (s_sent s)" and ?b = "length (taken s)"
  have w: "written s = s_sent s" "written ?s' = s_sent s @ [v]" "taken ?s' = taken s"
    using assms(2) by (simp_all add: written_def taken_def)
  have p2: "is_power_of_two N" and len: "length (slots (s_ring s)) = unat N"
    and lt: "local_tail (s_prod s) = t0 + of_nat ?a" and space: "?a < ch + unat N"
    and ch: "ch \<le> length (s_rcvd s)"
    using inv assms(2) w by (auto simp: data_ok_def counters_ok_def order_ok_def)
  have ne: "slot_index N (t0 + of_nat i) \<noteq> slot_index N (t0 + of_nat ?a)" if "?b \<le> i" "i < ?a" for i
    using slot_index_inj [OF p2, of i ?a t0] that space ch length_rcvd_taken [of s] by auto
  have "data_ok N t0 ?s'"
    using inv(3) ne [THEN not_sym] slot_index_less [OF p2] w len
    by (auto simp: data_ok_def lt nth_append less_Suc_eq)
  moreover have "counters_ok t0 ch ct ?s'" "order_ok N ch ct ?s'"
    using inv w space by (auto simp: counters_ok_def order_ok_def)
  ultimately show ?thesis by (rule conc_invI [rotated 2])
qed

lemma conc_inv_publish:
  assumes "conc_inv N s" "s_ppc s = PPublish v"
  shows "conc_inv N (s\<lparr>s_ring := (s_ring s)\<lparr>ring_tail := local_tail (s_prod s)\<rparr>,
      s_ppc := PIdle, s_sent := s_sent s @ [v]\<rparr>)"
proof -
  from assms(1) obtain t0 ch ct where inv: "counters_ok t0 ch ct s" "order_ok N ch ct s" "data_ok N t0 s"
    by (auto simp: conc_inv_def)
  then have "taken s = take (length (taken s)) (s_sent s @ [v])"
    by (simp add: data_ok_def order_ok_def)
  then show ?thesis
    using inv assms(2) by (intro conc_invI [of t0 ch ct]) (simp_all add: conc_unfold)
qed

lemma conc_inv_read:
  assumes "conc_inv N s" "s_cpc s = CRead"
  shows "conc_inv N (s\<lparr>s_cons := (s_cons s)\<lparr>local_head := local_head (s_cons s) + 1\<rparr>,
      s_cpc := CRelease (slots (s_ring s) ! slot_index N (local_head (s_cons s)))\<rparr>)"
proof -
  from assms(1) obtain t0 ch ct where inv: "counters_ok t0 ch ct s" "order_ok N ch ct s" "data_ok N t0 s"
    by (auto simp: conc_inv_def)
  let ?b = "length (s_rcvd s)"
  have t: "taken s = s_rcvd s" using assms(2) by (simp add: taken_def)
  have b: "?b < length (s_sent s)" and lh: "local_head (s_cons s) = t0 + of_nat ?b"
    using inv assms(2) t by (auto simp: order_ok_def counters_ok_def)
  then have "slots (s_ring s) ! slot_index N (local_head (s_cons s)) = written s ! ?b"
    using inv(3) t length_sent_written [of s] by (simp add: data_ok_def)
  also have "\<dots> = s_sent s ! ?b" using b by (simp add: written_def nth_append)
  finally have v: "slots (s_ring s) ! slot_index N (local_head (s_cons s)) = s_sent s ! ?b" .
  have "s_rcvd s @ [s_sent s ! ?b] = take (Suc ?b) (s_sent s)"
    using inv(3) t b by (simp add: data_ok_def take_Suc_conv_app_nth)
  then show ?thesis
    using inv assms(2) b unfolding v
    by (intro conc_invI [of t0 ch ct]) (simp_all add: conc_unfold)
qed

lemma conc_inv_release:
  assumes "conc_inv N s" "s_cpc s = CRelease v"
  shows "conc_inv N (s\<lparr>s_ring := (s_ring s)\<lparr>ring_head := local_head (s_cons s)\<rparr>,
      s_cpc := CIdle, s_rcvd := s_rcvd s @ [v]\<rparr>)"
proof -
  from assms(1) obtain t0 ch ct where inv: "counters_ok t0 ch ct s" "order_ok N ch ct s" "data_ok N t0 s"
    by (auto simp: conc_inv_def)
  then show ?thesis
    using assms(2) by (intro conc_invI [of t0 ch ct]) (simp_all add: conc_unfold)
qed

lemma conc_inv_calls:
  "conc_inv N s \<Longrightarrow> s_ppc s = PIdle \<Longrightarrow> conc_inv N (s\<lparr>s_ppc := PCheck v\<rparr>)"
  "conc_inv N s \<Longrightarrow> s_cpc s = CIdle \<Longrightarrow> conc_inv N (s\<lparr>s_cpc := CCheck\<rparr>)"
  by (force simp: conc_inv_def conc_unfold)+

lemma spsc_step_inv: "spsc_step N s t \<Longrightarrow> conc_inv N s \<Longrightarrow> conc_inv N t"
  by (induction rule: spsc_step.induct)
    (assumption | rule conc_inv_calls conc_inv_producer_check conc_inv_producer_reload
      conc_inv_write conc_inv_publish conc_inv_consumer_check conc_inv_consumer_reload
      conc_inv_read conc_inv_release)+

lemma reach_inv: "spsc_reach N r s \<Longrightarrow> conc_inv N s"
  by (induction rule: spsc_reach.induct) (auto intro: conc_inv_start spsc_step_inv)

section \<open>Properties\<close>

lemma inv_prefix:
  assumes "conc_inv N s"
  shows "prefix (s_rcvd s) (s_sent s)" "length (s_sent s) \<le> length (s_rcvd s) + unat N"
proof -
  from assms obtain t0 ch ct where inv: "order_ok N ch ct s" "data_ok N t0 s"
    by (auto simp: conc_inv_def)
  have "prefix (s_rcvd s) (taken s)" by (simp add: taken_def)
  also have "prefix (taken s) (s_sent s)" using inv(2) by (metis data_ok_def take_is_prefix)
  finally show "prefix (s_rcvd s) (s_sent s)" .
  show "length (s_sent s) \<le> length (s_rcvd s) + unat N"
    using inv(1) length_sent_written [of s] by (simp add: order_ok_def)
qed

text \<open>The states of a short run, used by the witnesses.\<close>

definition run_ring :: "nat SpscRing" where
  "run_ring = \<lparr>magic = MAGIC, capacity = 2, ring_tail = -1, ring_head = -1, slots = [0, 0]\<rparr>"

definition run_sent :: "nat sys" where
  "run_sent = \<lparr>s_ring = run_ring\<lparr>ring_tail := 0, slots := [0, 7]\<rparr>,
     s_prod = \<lparr>cached_head = -1, local_tail = 0\<rparr>, s_cons = \<lparr>local_head = -1, cached_tail = -1\<rparr>,
     s_ppc = PIdle, s_cpc = CIdle, s_sent = [7], s_rcvd = []\<rparr>"

definition run_both :: "nat sys" where
  "run_both = run_sent\<lparr>s_ppc := PWrite 8, s_cons := \<lparr>local_head = -1, cached_tail = 0\<rparr>,
     s_cpc := CRead\<rparr>"

definition run_rcvd :: "nat sys" where
  "run_rcvd = run_sent\<lparr>s_ppc := PWrite 8, s_cons := \<lparr>local_head = 0, cached_tail = 0\<rparr>,
     s_ring := run_ring\<lparr>ring_tail := 0, ring_head := 0, slots := [0, 7]\<rparr>, s_rcvd := [7]\<rparr>"

lemma reach_run_sent: "spsc_reach 2 run_ring run_sent"
proof -
  have wf: "ring_wf 2 run_ring"
    by (simp add: ring_wf_def window_def is_power_of_two_def run_ring_def) code_simp
  let ?s0 = "spsc_start 2 run_ring"
  let ?s1 = "?s0\<lparr>s_ppc := PCheck 7\<rparr>"
  let ?s2 = "?s0\<lparr>s_ppc := PWrite 7\<rparr>"
  let ?s3 = "run_sent\<lparr>s_ring := run_ring\<lparr>slots := [0, 7]\<rparr>, s_ppc := PPublish 7, s_sent := []\<rparr>"
  have "spsc_step 2 ?s0 ?s1" by (rule push_call) (simp add: spsc_start_def)
  moreover have "spsc_step 2 ?s1 ?s2"
    using push_check [of ?s1 7 2] by (simp add: spsc_start_def Producer_new_def run_ring_def)
  moreover have "spsc_step 2 ?s2 ?s3"
    using push_write [of ?s2 7 2]
    by (simp add: spsc_start_def Producer_new_def Consumer_new_def run_ring_def run_sent_def
        slot_index_def ring_contents_def window_def)
  moreover have "spsc_step 2 ?s3 run_sent"
    using push_publish [of ?s3 7 2] by (simp add: run_sent_def run_ring_def)
  ultimately show ?thesis using spsc_reach.start [OF wf] by (blast intro: spsc_reach.step)
qed

lemma reach_run_both: "spsc_reach 2 run_ring run_both"
proof -
  let ?s1 = "run_sent\<lparr>s_ppc := PCheck 8\<rparr>"
  let ?s2 = "run_sent\<lparr>s_ppc := PWrite 8\<rparr>"
  let ?s3 = "?s2\<lparr>s_cpc := CCheck\<rparr>"
  let ?s4 = "?s2\<lparr>s_cpc := CReload\<rparr>"
  have s1: "spsc_step 2 run_sent ?s1" by (rule push_call) (simp add: run_sent_def)
  have s2: "spsc_step 2 ?s1 ?s2"
    using push_check [of ?s1 8 2] by (simp add: run_sent_def word_le_nat_alt)
  have s3: "spsc_step 2 ?s2 ?s3" by (rule pop_call) (simp add: run_sent_def)
  have s4: "spsc_step 2 ?s3 ?s4" using pop_check [of ?s3 2] by (simp add: run_sent_def)
  have "s_cpc ?s4 = CReload" by simp
  moreover have "may_load (cached_tail (s_cons ?s4)) (ring_tail (s_ring ?s4)) 0"
    by (simp add: run_sent_def may_load_def)
  ultimately have "spsc_step 2 ?s4 (?s4\<lparr>s_cons := (s_cons ?s4)\<lparr>cached_tail := 0\<rparr>,
      s_cpc := (if local_head (s_cons ?s4) = 0 then CIdle else CRead)\<rparr>)"
    by (rule pop_reload)
  also have "?s4\<lparr>s_cons := (s_cons ?s4)\<lparr>cached_tail := 0\<rparr>,
      s_cpc := (if local_head (s_cons ?s4) = 0 then CIdle else CRead)\<rparr> = run_both"
    by (simp add: run_sent_def run_both_def)
  finally have s5: "spsc_step 2 ?s4 run_both" .
  show ?thesis
    using spsc_reach.step [OF spsc_reach.step [OF spsc_reach.step [OF spsc_reach.step
      [OF spsc_reach.step [OF reach_run_sent s1] s2] s3] s4] s5] .
qed

lemma reach_run_rcvd: "spsc_reach 2 run_ring run_rcvd"
proof -
  let ?s1 = "run_both\<lparr>s_cons := \<lparr>local_head = 0, cached_tail = 0\<rparr>, s_cpc := CRelease 7\<rparr>"
  have "spsc_step 2 run_both ?s1"
    using pop_read [of run_both 2] by (simp add: run_both_def run_sent_def slot_index_def)
  moreover have "spsc_step 2 ?s1 run_rcvd"
    using pop_release [of ?s1 7 2]
    by (simp add: run_both_def run_sent_def run_rcvd_def run_ring_def)
  ultimately show ?thesis using reach_run_both by (blast intro: spsc_reach.step)
qed

text \<open>C13. Under every interleaving of the two threads' steps, and with stale counter loads, the values
  returned by \<open>pop\<close> are a prefix of the values accepted by \<open>push\<close> (after what the ring held at the
  start): nothing is lost, duplicated, reordered or torn, and at most \<open>N\<close> values are in flight.\<close>

theorem reach_fifo:
  assumes "spsc_reach N r s"
  shows "prefix (s_rcvd s) (s_sent s) \<and> length (s_sent s) - length (s_rcvd s) \<le> unat N"
  using inv_prefix [OF reach_inv [OF assms]] by simp

theorem reach_fifo_witness:
  "prefix (s_rcvd run_rcvd) (s_sent run_rcvd) \<and> s_rcvd run_rcvd = [7]"
  using reach_fifo [OF reach_run_rcvd] by (simp add: run_rcvd_def)

text \<open>C15. When the producer is about to write a slot while the consumer is about to read one, the two
  slots differ: there is no data race on the slots.\<close>

theorem reach_no_slot_race:
  assumes "spsc_reach N r s" and "s_ppc s = PWrite v" and "s_cpc s = CRead"
  shows "slot_index N (local_tail (s_prod s)) \<noteq> slot_index N (local_head (s_cons s))"
proof -
  from reach_inv [OF assms(1)] obtain t0 ch ct where inv:
    "counters_ok t0 ch ct s" "order_ok N ch ct s" "data_ok N t0 s" by (auto simp: conc_inv_def)
  let ?a = "length (s_sent s)" and ?b = "length (s_rcvd s)"
  have "local_tail (s_prod s) = t0 + of_nat ?a" "local_head (s_cons s) = t0 + of_nat ?b"
    "?b < ?a" "?a < ?b + unat N" "is_power_of_two N"
    using inv assms(2,3) by (auto simp: conc_unfold)
  then show ?thesis using slot_index_inj [of N ?b ?a t0] by auto
qed

theorem reach_no_slot_race_witness:
  "slot_index 2 (local_tail (s_prod run_both)) \<noteq> slot_index 2 (local_head (s_cons run_both))"
  by (rule reach_no_slot_race [OF reach_run_both, of 8]) (simp_all add: run_both_def)

section \<open>The operations as sequences of steps\<close>

lemma may_load_current [simp]: "may_load old cur cur"
  by (simp add: may_load_def)

definition after_push :: "'a sys \<Rightarrow> 'a \<Rightarrow> (RingFull + unit) \<times> 'a SpscRing \<times> Producer \<Rightarrow> 'a sys" where
  "after_push s v res =
     (case res of (out, r, p) \<Rightarrow>
        s\<lparr>s_ring := r, s_prod := p,
          s_sent := s_sent s @ (case out of Inr _ \<Rightarrow> [v] | Inl _ \<Rightarrow> [])\<rparr>)"

definition after_pop :: "'a sys \<Rightarrow> 'a option \<times> 'a SpscRing \<times> Consumer \<Rightarrow> 'a sys" where
  "after_pop s res =
     (case res of (out, r, c) \<Rightarrow>
        s\<lparr>s_ring := r, s_cons := c,
          s_rcvd := s_rcvd s @ (case out of Some v \<Rightarrow> [v] | None \<Rightarrow> [])\<rparr>)"

lemma steps_write_publish:
  assumes "s_ppc s = PWrite v"
  shows "(spsc_step N)\<^sup>*\<^sup>* s
    (after_push (s\<lparr>s_ppc := PIdle\<rparr>) v (Inr (), push_slot N v (s_ring s, s_prod s)))"
    (is "(spsc_step N)\<^sup>*\<^sup>* s ?t")
proof -
  let ?u = "s\<lparr>s_ring := (s_ring s)\<lparr>slots :=
        (slots (s_ring s))[slot_index N (local_tail (s_prod s)) := v]\<rparr>,
      s_prod := (s_prod s)\<lparr>local_tail := local_tail (s_prod s) + 1\<rparr>,
      s_ppc := PPublish v\<rparr>"
  have "spsc_step N ?u ?t"
    using push_publish [of ?u v N]
    by (cases s) (simp add: after_push_def push_slot_def Let_def)
  with push_write [OF assms, of N] show ?thesis by simp
qed

lemma steps_read_release:
  assumes "s_cpc s = CRead"
  shows "(spsc_step N)\<^sup>*\<^sup>* s
    (after_pop (s\<lparr>s_cpc := CIdle\<rparr>) (pop_slot N (s_ring s, s_cons s)))"
    (is "(spsc_step N)\<^sup>*\<^sup>* s ?t")
proof -
  let ?v = "slots (s_ring s) ! slot_index N (local_head (s_cons s))"
  let ?u = "s\<lparr>s_cons := (s_cons s)\<lparr>local_head := local_head (s_cons s) + 1\<rparr>,
      s_cpc := CRelease ?v\<rparr>"
  have "spsc_step N ?u ?t"
    using pop_release [of ?u ?v N] by (cases s) (simp add: after_pop_def pop_slot_def Let_def)
  with pop_read [OF assms, of N] show ?thesis by simp
qed

lemma after_push_absorb [simp]:
  "after_push (s\<lparr>s_prod := q, s_ppc := pc\<rparr>) v res = after_push (s\<lparr>s_ppc := pc\<rparr>) v res"
  by (simp add: after_push_def split: prod.split)

lemma after_pop_absorb [simp]:
  "after_pop (s\<lparr>s_cons := q, s_cpc := pc\<rparr>) res = after_pop (s\<lparr>s_cpc := pc\<rparr>) res"
  by (simp add: after_pop_def split: prod.split)

lemma push_is_steps:
  assumes "s_ppc s = PIdle"
  shows "(spsc_step N)\<^sup>*\<^sup>* s (after_push s v (push N v (s_ring s, s_prod s)))"
proof -
  let ?full = "N \<le> local_tail (s_prod s) - cached_head (s_prod s)"
  let ?p = "(s_prod s)\<lparr>cached_head := ring_head (s_ring s)\<rparr>"
  let ?full2 = "N \<le> local_tail (s_prod s) - ring_head (s_ring s)"
  have idle: "s\<lparr>s_ppc := PIdle\<rparr> = s" using assms by simp
  have call: "(spsc_step N)\<^sup>*\<^sup>* s (s\<lparr>s_ppc := if ?full then PReload v else PWrite v\<rparr>)"
    using push_call [OF assms, of N v] push_check [of "s\<lparr>s_ppc := PCheck v\<rparr>" v N] by simp
  show ?thesis
  proof (cases ?full)
    case False
    then show ?thesis
      using call steps_write_publish [of "s\<lparr>s_ppc := PWrite v\<rparr>" v N] idle
      by (auto simp: push_def intro: rtranclp_trans)
  next
    case True
    have "spsc_step N (s\<lparr>s_ppc := PReload v\<rparr>)
        (s\<lparr>s_prod := ?p, s_ppc := if ?full2 then PIdle else PWrite v\<rparr>)"
      using push_reload [of "s\<lparr>s_ppc := PReload v\<rparr>" v "ring_head (s_ring s)" N] by simp
    with call True have reload:
      "(spsc_step N)\<^sup>*\<^sup>* s (s\<lparr>s_prod := ?p, s_ppc := if ?full2 then PIdle else PWrite v\<rparr>)"
      by (simp add: rtranclp.rtrancl_into_rtrancl)
    show ?thesis
    proof (cases ?full2)
      case False
      then show ?thesis
        using True reload steps_write_publish [of "s\<lparr>s_prod := ?p, s_ppc := PWrite v\<rparr>" v N] idle
        by (auto simp: push_def intro: rtranclp_trans)
    next
      case full2: True
      have "after_push s v (Inl RingFull, s_ring s, ?p) = s\<lparr>s_prod := ?p, s_ppc := PIdle\<rparr>"
        using assms by (simp add: after_push_def)
      then show ?thesis using True full2 reload by (simp add: push_def)
    qed
  qed
qed

lemma pop_is_steps:
  assumes "s_cpc s = CIdle"
  shows "(spsc_step N)\<^sup>*\<^sup>* s (after_pop s (pop N (s_ring s, s_cons s)))"
proof -
  let ?c = "(s_cons s)\<lparr>cached_tail := ring_tail (s_ring s)\<rparr>"
  let ?empty = "local_head (s_cons s) = cached_tail (s_cons s)"
  let ?empty2 = "local_head (s_cons s) = ring_tail (s_ring s)"
  have idle: "s\<lparr>s_cpc := CIdle\<rparr> = s" using assms by simp
  have call: "(spsc_step N)\<^sup>*\<^sup>* s (s\<lparr>s_cpc := if ?empty then CReload else CRead\<rparr>)"
    using pop_call [OF assms, of N] pop_check [of "s\<lparr>s_cpc := CCheck\<rparr>" N] by simp
  show ?thesis
  proof (cases ?empty)
    case False
    then show ?thesis
      using call steps_read_release [of "s\<lparr>s_cpc := CRead\<rparr>" N] idle
      by (auto simp: pop_def intro: rtranclp_trans)
  next
    case True
    have "spsc_step N (s\<lparr>s_cpc := CReload\<rparr>)
        (s\<lparr>s_cons := ?c, s_cpc := if ?empty2 then CIdle else CRead\<rparr>)"
      using pop_reload [of "s\<lparr>s_cpc := CReload\<rparr>" "ring_tail (s_ring s)" N] by simp
    with call True have reload:
      "(spsc_step N)\<^sup>*\<^sup>* s (s\<lparr>s_cons := ?c, s_cpc := if ?empty2 then CIdle else CRead\<rparr>)"
      by (simp add: rtranclp.rtrancl_into_rtrancl)
    show ?thesis
    proof (cases ?empty2)
      case False
      then show ?thesis
        using True reload steps_read_release [of "s\<lparr>s_cons := ?c, s_cpc := CRead\<rparr>" N] idle
        by (auto simp: pop_def intro: rtranclp_trans)
    next
      case empty2: True
      have "after_pop s (None, s_ring s, ?c) = s\<lparr>s_cons := ?c, s_cpc := CIdle\<rparr>"
        using assms by (simp add: after_pop_def)
      then show ?thesis using True empty2 reload by (simp add: pop_def)
    qed
  qed
qed

text \<open>The atomic \<open>push\<close> and \<open>pop\<close> of the sequential model are runs of the step relation: from an
  idle thread, the steps of one call, with fresh loads and no step of the peer in between, lead
  exactly to the state that \<open>push\<close> (\<open>pop\<close>) computes.\<close>

theorem operations_are_steps:
  assumes "s_ppc s = PIdle" and "s_cpc s = CIdle"
  shows "(spsc_step N)\<^sup>*\<^sup>* s (after_push s v (push N v (s_ring s, s_prod s))) \<and>
         (spsc_step N)\<^sup>*\<^sup>* s (after_pop s (pop N (s_ring s, s_cons s)))"
  using push_is_steps [OF assms(1)] pop_is_steps [OF assms(2)] by blast

theorem operations_are_steps_witness:
  "(spsc_step 2)\<^sup>*\<^sup>* run_sent (run_sent\<lparr>s_ring := run_ring\<lparr>ring_tail := 0, ring_head := 0, slots := [0, 7]\<rparr>,
     s_cons := \<lparr>local_head = 0, cached_tail = 0\<rparr>, s_rcvd := [7]\<rparr>)"
proof -
  have "s_ppc run_sent = PIdle" "s_cpc run_sent = CIdle" by (simp_all add: run_sent_def)
  from operations_are_steps [OF this, of 2 0]
  show ?thesis
    by (simp add: run_sent_def run_ring_def after_pop_def pop_def pop_slot_def slot_index_def)
qed

end
