(* ===== verification/Spsc_Progress.thy ===== *)
theory Spsc_Progress
  imports Spsc_Concurrent
begin

text \<open>
  No deadlock in the ring of \<open>atlas-protocol/src/spsc.rs\<close>: from every state the two threads can reach, the
  calls that are under way can end and the consumer can take everything that was published, after which the
  producer finds room again.
\<close>

section \<open>Calls under way can end\<close>

text \<open>Steps that begin no new \<open>push\<close>.\<close>

definition no_new_push :: "usize \<Rightarrow> 'a sys \<Rightarrow> 'a sys \<Rightarrow> bool" where
  "no_new_push N s t \<longleftrightarrow> spsc_step N s t \<and> (s_ppc s = PIdle \<longrightarrow> s_ppc t = PIdle)"

lemma conc_inv_run: "(no_new_push N)\<^sup>*\<^sup>* s t \<Longrightarrow> conc_inv N s \<Longrightarrow> conc_inv N t"
  by (induction rule: rtranclp_induct) (auto simp: no_new_push_def intro: spsc_step_inv)

lemma run_two: "r a b \<Longrightarrow> r b c \<Longrightarrow> r\<^sup>*\<^sup>* a c"
  by (simp add: converse_rtranclp_into_rtranclp)

lemma position_eq:
  fixes t0 :: usize
  assumes "i \<le> j" "j - i < 2 ^ 64"
  shows "t0 + of_nat i = t0 + of_nat j \<longleftrightarrow> i = j"
proof
  assume e: "t0 + of_nat i = t0 + of_nat j"
  have "unat ((t0 + of_nat j) - (t0 + of_nat i)) = j - i" using assms by (intro unat_counter_diff)
  with e assms(1) show "i = j" by simp
qed simp

lemma consumer_releases:
  assumes "s_cpc s = CRead"
  shows "\<exists>t. (no_new_push N)\<^sup>*\<^sup>* s t \<and> s_cpc t = CIdle \<and> s_ppc t = s_ppc s \<and> s_sent t = s_sent s \<and>
    length (s_rcvd t) = Suc (length (s_rcvd s))"
proof -
  let ?v = "slots (s_ring s) ! slot_index N (local_head (s_cons s))"
  let ?u = "s\<lparr>s_cons := (s_cons s)\<lparr>local_head := local_head (s_cons s) + 1\<rparr>, s_cpc := CRelease ?v\<rparr>"
  have 1: "no_new_push N s ?u" using pop_read [OF assms, of N] by (simp add: no_new_push_def)
  let ?t = "?u\<lparr>s_ring := (s_ring ?u)\<lparr>ring_head := local_head (s_cons ?u)\<rparr>,
      s_cpc := CIdle, s_rcvd := s_rcvd ?u @ [?v]\<rparr>"
  have 2: "no_new_push N ?u ?t"
    using pop_release [of ?u ?v N] by (simp add: no_new_push_def)
  show ?thesis using run_two [of "no_new_push N", OF 1 2] by (intro exI [of _ ?t]) simp
qed

lemma consumer_reloads:
  assumes "s_cpc s = CReload" "conc_inv N s"
  shows "\<exists>t. (no_new_push N)\<^sup>*\<^sup>* s t \<and> s_cpc t = CIdle \<and> s_ppc t = s_ppc s \<and> s_sent t = s_sent s \<and>
    length (s_rcvd t) = (if length (s_rcvd s) < length (s_sent s) then Suc (length (s_rcvd s)) else length (s_rcvd s))"
proof -
  let ?t = "ring_tail (s_ring s)"
  let ?u = "s\<lparr>s_cons := (s_cons s)\<lparr>cached_tail := ?t\<rparr>,
      s_cpc := (if local_head (s_cons s) = ?t then CIdle else CRead)\<rparr>"
  have 1: "no_new_push N s ?u"
    using pop_reload [OF assms(1), of ?t N] by (simp add: no_new_push_def)
  from assms(2) obtain t0 ch ct where inv: "counters_ok t0 ch ct s" "order_ok N ch ct s"
    by (auto simp: conc_inv_def)
  have tk: "taken s = s_rcvd s" using assms(1) by (simp add: taken_def)
  have le: "length (s_rcvd s) \<le> length (s_sent s)" using inv(2) tk by (simp add: order_ok_def)
  have "length (s_sent s) - length (s_rcvd s) < 2 ^ 64"
  proof -
    have "length (s_sent s) \<le> length (s_rcvd s) + unat N"
      using inv(2) length_sent_written [of s] by (simp add: order_ok_def)
    moreover have "unat N < 2 ^ 64" by simp
    ultimately show ?thesis by linarith
  qed
  then have e: "local_head (s_cons s) = ?t \<longleftrightarrow> length (s_rcvd s) = length (s_sent s)"
    using inv(1) tk le position_eq [of "length (s_rcvd s)" "length (s_sent s)" t0] by (simp add: counters_ok_def)
  show ?thesis
  proof (cases "length (s_rcvd s) < length (s_sent s)")
    case True
    then have "s_cpc ?u = CRead" using e by simp
    from consumer_releases [OF this, of N] obtain t where
      "(no_new_push N)\<^sup>*\<^sup>* ?u t" "s_cpc t = CIdle" "s_ppc t = s_ppc s" "s_sent t = s_sent s"
      "length (s_rcvd t) = Suc (length (s_rcvd s))" by auto
    with 1 True show ?thesis by (intro exI [of _ t]) (auto intro: converse_rtranclp_into_rtranclp)
  next
    case False
    then have "s_cpc ?u = CIdle" using e le by simp
    with 1 False show ?thesis by (intro exI [of _ ?u]) auto
  qed
qed

lemma consumer_ends:
  assumes "conc_inv N s"
  shows "\<exists>t. (no_new_push N)\<^sup>*\<^sup>* s t \<and> s_cpc t = CIdle \<and> s_ppc t = s_ppc s \<and> s_sent t = s_sent s \<and>
    length (s_rcvd s) \<le> length (s_rcvd t) \<and>
    (s_cpc s = CCheck \<and> length (s_rcvd s) < length (s_sent s) \<longrightarrow> length (s_rcvd s) < length (s_rcvd t))"
proof (cases "s_cpc s")
  case CIdle
  then show ?thesis by (intro exI [of _ s]) simp
next
  case CCheck
  let ?u = "s\<lparr>s_cpc := (if local_head (s_cons s) = cached_tail (s_cons s) then CReload else CRead)\<rparr>"
  have 1: "no_new_push N s ?u" using pop_check [OF CCheck, of N] by (simp add: no_new_push_def)
  have "conc_inv N ?u" using assms CCheck by (rule conc_inv_consumer_check)
  then obtain t where t: "(no_new_push N)\<^sup>*\<^sup>* ?u t" "s_cpc t = CIdle" "s_ppc t = s_ppc s" "s_sent t = s_sent s"
      "length (s_rcvd t) = Suc (length (s_rcvd s)) \<or>
       length (s_rcvd t) = length (s_rcvd s) \<and> \<not> length (s_rcvd s) < length (s_sent s)"
    using consumer_releases [of ?u N] consumer_reloads [of ?u N]
    by (cases "local_head (s_cons s) = cached_tail (s_cons s)") (auto split: if_splits)
  from 1 t(1) have "(no_new_push N)\<^sup>*\<^sup>* s t" by (rule converse_rtranclp_into_rtranclp)
  with t show ?thesis by (intro exI [of _ t]) auto
next
  case CReload
  with consumer_reloads [OF CReload assms] show ?thesis by (auto split: if_splits)
next
  case CRead
  with consumer_releases [OF CRead, of N] show ?thesis by fastforce
next
  case (CRelease v)
  let ?t = "s\<lparr>s_ring := (s_ring s)\<lparr>ring_head := local_head (s_cons s)\<rparr>,
      s_cpc := CIdle, s_rcvd := s_rcvd s @ [v]\<rparr>"
  have "no_new_push N s ?t"
    using pop_release [OF CRelease, of N] by (simp add: no_new_push_def)
  then show ?thesis
    using CRelease r_into_rtranclp [of "no_new_push N" s ?t] by (intro exI [of _ ?t]) simp
qed

lemma producer_publishes:
  assumes "s_ppc s = PWrite v"
  shows "\<exists>t. (no_new_push N)\<^sup>*\<^sup>* s t \<and> s_ppc t = PIdle \<and> s_cpc t = s_cpc s \<and> s_rcvd t = s_rcvd s \<and>
    s_sent t = s_sent s @ [v]"
proof -
  let ?u = "s\<lparr>s_ring := (s_ring s)\<lparr>slots :=
        (slots (s_ring s))[slot_index N (local_tail (s_prod s)) := v]\<rparr>,
      s_prod := (s_prod s)\<lparr>local_tail := local_tail (s_prod s) + 1\<rparr>, s_ppc := PPublish v\<rparr>"
  have 1: "no_new_push N s ?u" using push_write [OF assms, of N] assms by (simp add: no_new_push_def)
  let ?t = "?u\<lparr>s_ring := (s_ring ?u)\<lparr>ring_tail := local_tail (s_prod ?u)\<rparr>,
      s_ppc := PIdle, s_sent := s_sent ?u @ [v]\<rparr>"
  have 2: "no_new_push N ?u ?t"
    using push_publish [of ?u v N] by (simp add: no_new_push_def)
  show ?thesis using run_two [of "no_new_push N", OF 1 2] by (intro exI [of _ ?t]) simp
qed

lemma producer_reloads:
  assumes "s_ppc s = PReload v" "conc_inv N s"
  shows "\<exists>t. (no_new_push N)\<^sup>*\<^sup>* s t \<and> s_ppc t = PIdle \<and> s_cpc t = s_cpc s \<and> s_rcvd t = s_rcvd s \<and>
    s_sent t = s_sent s @ (if length (s_sent s) < length (s_rcvd s) + unat N then [v] else [])"
proof -
  let ?h = "ring_head (s_ring s)"
  let ?u = "s\<lparr>s_prod := (s_prod s)\<lparr>cached_head := ?h\<rparr>,
      s_ppc := (if N \<le> local_tail (s_prod s) - ?h then PIdle else PWrite v)\<rparr>"
  have 1: "no_new_push N s ?u"
    using push_reload [OF assms(1), of ?h N] assms(1) by (simp add: no_new_push_def)
  from assms(2) obtain t0 ch ct where inv: "counters_ok t0 ch ct s" "order_ok N ch ct s"
    by (auto simp: conc_inv_def)
  have w: "written s = s_sent s" using assms(1) by (simp add: written_def)
  have "length (s_rcvd s) \<le> length (s_sent s)" "length (s_sent s) \<le> length (s_rcvd s) + unat N"
    using inv_prefix [OF assms(2)] by (simp_all add: prefix_length_le)
  moreover have "unat N < 2 ^ 64" by simp
  ultimately have "length (s_sent s) - length (s_rcvd s) < 2 ^ 64" "length (s_rcvd s) \<le> length (s_sent s)"
    by linarith+
  then have "unat (local_tail (s_prod s) - ?h) = length (s_sent s) - length (s_rcvd s)"
    using inv(1) w unat_counter_diff [of "length (s_rcvd s)" "length (s_sent s)" t0] by (simp add: counters_ok_def)
  then have full: "N \<le> local_tail (s_prod s) - ?h \<longleftrightarrow> \<not> length (s_sent s) < length (s_rcvd s) + unat N"
    using inv_prefix(1) [OF assms(2)] by (auto simp: word_le_nat_alt dest: prefix_length_le)
  show ?thesis
  proof (cases "length (s_sent s) < length (s_rcvd s) + unat N")
    case True
    then have "s_ppc ?u = PWrite v" using full by simp
    from producer_publishes [OF this, of N] obtain t where
      "(no_new_push N)\<^sup>*\<^sup>* ?u t" "s_ppc t = PIdle" "s_cpc t = s_cpc s" "s_rcvd t = s_rcvd s"
      "s_sent t = s_sent s @ [v]" by auto
    with 1 True show ?thesis by (intro exI [of _ t]) (auto intro: converse_rtranclp_into_rtranclp)
  next
    case False
    then have "s_ppc ?u = PIdle" using full by simp
    with 1 False show ?thesis by (intro exI [of _ ?u]) auto
  qed
qed

lemma producer_ends:
  assumes "conc_inv N s"
  shows "\<exists>t. (no_new_push N)\<^sup>*\<^sup>* s t \<and> s_ppc t = PIdle \<and> s_cpc t = s_cpc s \<and> s_rcvd t = s_rcvd s \<and>
    prefix (s_sent s) (s_sent t) \<and>
    (\<forall>v. s_ppc s = PCheck v \<and> length (s_sent s) < length (s_rcvd s) + unat N \<longrightarrow> s_sent t = s_sent s @ [v])"
proof (cases "s_ppc s")
  case PIdle
  then show ?thesis by (intro exI [of _ s]) simp
next
  case (PCheck v)
  let ?full = "N \<le> local_tail (s_prod s) - cached_head (s_prod s)"
  let ?u = "s\<lparr>s_ppc := (if ?full then PReload v else PWrite v)\<rparr>"
  have 1: "no_new_push N s ?u" using push_check [OF PCheck, of N] PCheck by (simp add: no_new_push_def)
  have inv: "conc_inv N ?u" using assms PCheck by (rule conc_inv_producer_check)
  have "\<exists>t. (no_new_push N)\<^sup>*\<^sup>* ?u t \<and> s_ppc t = PIdle \<and> s_cpc t = s_cpc s \<and> s_rcvd t = s_rcvd s \<and>
      (s_sent t = s_sent s @ [v] \<or> s_sent t = s_sent s \<and> \<not> length (s_sent s) < length (s_rcvd s) + unat N)"
    (is "\<exists>t. ?P t")
  proof (cases ?full)
    case True
    then have "s_ppc ?u = PReload v" by simp
    from producer_reloads [OF this inv] show ?thesis by (auto split: if_splits)
  next
    case False
    then have "s_ppc ?u = PWrite v" by simp
    from producer_publishes [OF this, of N] show ?thesis by auto
  qed
  then obtain t where t: "?P t" ..
  with 1 have "(no_new_push N)\<^sup>*\<^sup>* s t" by (blast intro: converse_rtranclp_into_rtranclp)
  with t PCheck show ?thesis by (intro exI [of _ t]) auto
next
  case (PReload v)
  with producer_reloads [OF PReload assms] show ?thesis by (auto split: if_splits)
next
  case (PWrite v)
  with producer_publishes [OF PWrite, of N] show ?thesis by fastforce
next
  case (PPublish v)
  let ?t = "s\<lparr>s_ring := (s_ring s)\<lparr>ring_tail := local_tail (s_prod s)\<rparr>,
      s_ppc := PIdle, s_sent := s_sent s @ [v]\<rparr>"
  have "no_new_push N s ?t"
    using push_publish [OF PPublish, of N] PPublish by (simp add: no_new_push_def)
  then show ?thesis
    using PPublish r_into_rtranclp [of "no_new_push N" s ?t] by (intro exI [of _ ?t]) simp
qed

section \<open>The consumer can take everything\<close>

lemma consumer_drains:
  assumes "conc_inv N s" "s_cpc s = CIdle"
  shows "\<exists>t. (no_new_push N)\<^sup>*\<^sup>* s t \<and> s_cpc t = CIdle \<and> s_ppc t = s_ppc s \<and> s_sent t = s_sent s \<and>
    s_rcvd t = s_sent s"
  using assms
proof (induction "length (s_sent s) - length (s_rcvd s)" arbitrary: s rule: less_induct)
  case less
  show ?case
  proof (cases "length (s_rcvd s) < length (s_sent s)")
    case False
    then have "s_rcvd s = s_sent s"
      using inv_prefix(1) [OF less.prems(1)] by (auto simp: prefix_def)
    then show ?thesis using less.prems(2) by (intro exI [of _ s]) simp
  next
    case True
    let ?u = "s\<lparr>s_cpc := CCheck\<rparr>"
    have 1: "no_new_push N s ?u" using pop_call [OF less.prems(2), of N] by (simp add: no_new_push_def)
    have inv: "conc_inv N ?u" using less.prems(1) 1 spsc_step_inv by (auto simp: no_new_push_def)
    from consumer_ends [OF inv] True obtain t where
      t: "(no_new_push N)\<^sup>*\<^sup>* ?u t" "s_cpc t = CIdle" "s_ppc t = s_ppc s" "s_sent t = s_sent s"
        "length (s_rcvd s) < length (s_rcvd t)" by auto
    have run: "(no_new_push N)\<^sup>*\<^sup>* s t" using 1 t(1) by (rule converse_rtranclp_into_rtranclp)
    have "length (s_sent t) - length (s_rcvd t) < length (s_sent s) - length (s_rcvd s)"
      using t(4,5) True by simp
    from less.hyps [OF this conc_inv_run [OF run less.prems(1)] t(2)] obtain u where
      "(no_new_push N)\<^sup>*\<^sup>* t u" "s_cpc u = CIdle" "s_ppc u = s_ppc t" "s_sent u = s_sent t" "s_rcvd u = s_sent t"
      by blast
    with run t(3,4) show ?thesis by (intro exI [of _ u]) (auto intro: rtranclp_trans)
  qed
qed

text \<open>From every state of the invariant: both threads idle, everything published taken.\<close>

lemma ring_settles:
  assumes "conc_inv N s"
  shows "\<exists>t. (no_new_push N)\<^sup>*\<^sup>* s t \<and> s_ppc t = PIdle \<and> s_cpc t = CIdle \<and> s_rcvd t = s_sent t \<and>
    prefix (s_sent s) (s_sent t)"
proof -
  from producer_ends [OF assms] obtain a where
    a: "(no_new_push N)\<^sup>*\<^sup>* s a" "s_ppc a = PIdle" "prefix (s_sent s) (s_sent a)" by blast
  note inv_a = conc_inv_run [OF a(1) assms]
  from consumer_ends [OF inv_a] obtain b where
    b: "(no_new_push N)\<^sup>*\<^sup>* a b" "s_cpc b = CIdle" "s_ppc b = s_ppc a" "s_sent b = s_sent a" by blast
  from consumer_drains [OF conc_inv_run [OF b(1) inv_a] b(2)] obtain t where
    "(no_new_push N)\<^sup>*\<^sup>* b t" "s_cpc t = CIdle" "s_ppc t = s_ppc b" "s_sent t = s_sent b" "s_rcvd t = s_sent b"
    by blast
  with a b show ?thesis by (intro exI [of _ t]) (auto intro: rtranclp_trans)
qed

lemma no_new_push_steps: "(no_new_push N)\<^sup>*\<^sup>* s t \<Longrightarrow> (spsc_step N)\<^sup>*\<^sup>* s t"
  by (rule rtranclp_mono [THEN predicate2D]) (auto simp: no_new_push_def)

lemma push_after_drain:
  assumes "conc_inv N s" "s_ppc s = PIdle" "s_rcvd s = s_sent s"
  shows "fst (push N v (s_ring s, s_prod s)) = Inr ()"
proof -
  from assms(1) obtain t0 ch ct where inv: "counters_ok t0 ch ct s" "data_ok N t0 s"
    by (auto simp: conc_inv_def)
  then have "local_tail (s_prod s) = ring_head (s_ring s)" "0 < unat N"
    using assms(2,3) unat_power_of_two(1) by (auto simp: counters_ok_def data_ok_def written_def)
  then show ?thesis by (auto simp: push_def word_le_nat_alt)
qed

section \<open>Properties\<close>

text \<open>C14. The ring cannot deadlock: from every state its two threads can reach, wherever either is inside
  \<open>push\<close> or \<open>pop\<close> and however stale its copies of the counters are, they can go on to a state in which both calls
  have returned, the consumer has got everything that was published, in the order of publication, and
  the next \<open>push\<close> is accepted.\<close>

theorem ring_never_stuck:
  assumes "spsc_reach N r s"
  shows "\<exists>t. (spsc_step N)\<^sup>*\<^sup>* s t \<and> s_ppc t = PIdle \<and> s_cpc t = CIdle \<and> s_rcvd t = s_sent t \<and>
    prefix (s_sent s) (s_sent t) \<and> (\<forall>v. fst (push N v (s_ring t, s_prod t)) = Inr ())"
proof -
  from ring_settles [OF reach_inv [OF assms]] obtain t where
    t: "(no_new_push N)\<^sup>*\<^sup>* s t" "s_ppc t = PIdle" "s_cpc t = CIdle" "s_rcvd t = s_sent t"
      "prefix (s_sent s) (s_sent t)" by blast
  note inv = conc_inv_run [OF t(1) reach_inv [OF assms]]
  show ?thesis
    using t no_new_push_steps [OF t(1)] push_after_drain [OF inv t(2,4)] by (intro exI [of _ t]) simp
qed

theorem ring_never_stuck_witness:
  "\<exists>t. (spsc_step 2)\<^sup>*\<^sup>* run_both t \<and> s_cpc t = CIdle \<and> s_rcvd t = s_sent t \<and> prefix [7] (s_rcvd t)"
proof -
  have "s_sent run_both = [7]" by (simp add: run_both_def run_sent_def)
  with ring_never_stuck [OF reach_run_both] show ?thesis by fastforce
qed

end
