(* ===== verification/Protocol_Tests.thy ===== *)
theory Protocol_Tests
  imports Wire_Layout Spsc_Progress Channel_Rings
begin

text \<open>
  The unit tests in \<open>atlas-protocol/src/lib.rs\<close> and \<open>spsc.rs\<close>, as computations in the model that end in
  \<open>Inr ()\<close> when every assertion of the test holds. They tie the model to the expectations the authors
  of the code wrote down: each of them passes.
\<close>

text \<open>The bytes of an ASCII literal.\<close>

definition ascii :: "string \<Rightarrow> u8 list" where
  "ascii s = map of_char s"

section \<open>lib.rs\<close>

definition test_request_is_any_bit_pattern :: "unit exec" where
  "test_request_is_any_bit_pattern =
     and_then (request_from_bytes (replicate (struct_size 1 request_layout) 0)) (\<lambda>_. Inr ())"

definition test_response_is_any_bit_pattern :: "unit exec" where
  "test_response_is_any_bit_pattern =
     and_then (response_from_bytes (replicate (struct_size 1 response_layout) 0)) (\<lambda>_. Inr ())"

definition test_sizes_are_stable :: "unit exec" where
  "test_sizes_are_stable =
     and_then (assert_that (struct_size 1 request_layout = 296)) (\<lambda>_.
     assert_that (struct_size 1 response_layout = 32))"

definition test_path_roundtrip :: "unit exec" where
  "test_path_roundtrip =
     (let req = set_path (IoRequest_new 1 Open High) (ascii ''/tmp/test.sst'') in
      assert_that (path_str req = ascii ''/tmp/test.sst''))"

definition test_op_roundtrip :: "unit exec" where
  "test_op_roundtrip =
     (let req = IoRequest_new 1 Write Critical in
      and_then (assert_that (io_op req = Some Write)) (\<lambda>_.
      assert_that (io_priority req = Some Critical)))"

lemma ascii_test_sst: "utf8_valid (ascii ''/tmp/test.sst'') \<and> 0 \<notin> set (ascii ''/tmp/test.sst'')"
  by code_simp

lemma lib_tests:
  "test_request_is_any_bit_pattern = Inr ()" "test_response_is_any_bit_pattern = Inr ()"
  "test_sizes_are_stable = Inr ()" "test_path_roundtrip = Inr ()" "test_op_roundtrip = Inr ()"
proof -
  obtain r where "request_from_bytes (replicate 296 0) = Inr r" by (rule bytes_of_request [of "replicate 296 0"]) simp
  then show "test_request_is_any_bit_pattern = Inr ()" by (simp add: test_request_is_any_bit_pattern_def)
  obtain s where "response_from_bytes (replicate 32 0) = Inr s" by (rule bytes_of_response [of "replicate 32 0"]) simp
  then show "test_response_is_any_bit_pattern = Inr ()" by (simp add: test_response_is_any_bit_pattern_def)
  show "test_sizes_are_stable = Inr ()" by (simp add: test_sizes_are_stable_def)
  have "path_str (set_path (IoRequest_new 1 Open High) (ascii ''/tmp/test.sst'')) = ascii ''/tmp/test.sst''"
    using ascii_test_sst by (intro path_str_kept) (simp_all add: ascii_def)
  then show "test_path_roundtrip = Inr ()" by (simp add: test_path_roundtrip_def Let_def)
  show "test_op_roundtrip = Inr ()" by code_simp
qed

section \<open>spsc.rs\<close>

text \<open>\<open>zeroed_buf\<close>: a buffer of zeros, as a ring of \<open>n\<close> slots.\<close>

definition zeroed_buf :: "nat \<Rightarrow> u64 SpscRing" where
  "zeroed_buf n = \<lparr>magic = 0, capacity = 0, ring_tail = 0, ring_head = 0, slots = replicate n 0\<rparr>"

text \<open>\<open>p.push(&v).unwrap()\<close> and \<open>assert_eq!(c.pop(), e)\<close>.\<close>

definition push_ok :: "usize \<Rightarrow> u64 spsc \<Rightarrow> u64 \<Rightarrow> u64 spsc exec" where
  "push_ok N q v = (case spsc_enq N v q of (out, q1) \<Rightarrow> and_then (unwrap out) (\<lambda>_. Inr q1))"

definition pop_is :: "usize \<Rightarrow> u64 spsc \<Rightarrow> u64 option \<Rightarrow> u64 spsc exec" where
  "pop_is N q e = (case spsc_deq N q of (out, q1) \<Rightarrow> and_then (assert_that (out = e)) (\<lambda>_. Inr q1))"

definition test_single_push_pop :: "unit exec" where
  "test_single_push_pop =
     and_then (init_in_place 16 0 (zeroed_buf 16)) (\<lambda>ring.
     and_then (push_ok 16 (spsc_open ring) 42) (\<lambda>q.
     and_then (pop_is 16 q (Some 42)) (\<lambda>q.
     and_then (pop_is 16 q None) (\<lambda>_. Inr ()))))"

definition test_fill_then_drain :: "unit exec" where
  "test_fill_then_drain =
     and_then (init_in_place 4 0 (zeroed_buf 4)) (\<lambda>ring.
     and_then (fold_exec (push_ok 4) (spsc_open ring) [0, 1, 2, 3]) (\<lambda>q.
     case spsc_enq 4 99 q of (out, q) \<Rightarrow>
     and_then (assert_that (out = Inl RingFull)) (\<lambda>_.
     and_then (fold_exec (pop_is 4) q (map Some [0, 1, 2, 3])) (\<lambda>q.
     and_then (pop_is 4 q None) (\<lambda>q.
     and_then (fold_exec (push_ok 4) q [10, 11, 12, 13]) (\<lambda>q.
     and_then (fold_exec (pop_is 4) q (map Some [10, 11, 12, 13])) (\<lambda>_. Inr ())))))))"

definition test_attach_validates_magic :: "unit exec" where
  "test_attach_validates_magic =
     and_then (init_in_place 8 0 (zeroed_buf 8)) (\<lambda>ring.
     and_then (attach 8 0 (\<lambda>_. (magic ring, capacity ring))) (\<lambda>res.
     and_then (unwrap res) (\<lambda>_.
     and_then (push_ok 8 (spsc_open ring) 7) (\<lambda>q.
     and_then (pop_is 8 q (Some 7)) (\<lambda>_. Inr ())))))"

lemma ring_tests:
  "test_single_push_pop = Inr ()" "test_fill_then_drain = Inr ()" "test_attach_validates_magic = Inr ()"
proof -
  show "test_single_push_pop = Inr ()" by code_simp
  show "test_fill_then_drain = Inr ()" by code_simp
  have "init_in_place 8 0 (zeroed_buf 8) =
      Inr \<lparr>magic = MAGIC, capacity = 8, ring_tail = 0, ring_head = 0, slots = replicate 8 0\<rparr>" by code_simp
  moreover have "attach 8 0 (\<lambda>_. (MAGIC, 8)) = Inr (Inr ())"
  proof -
    have "place_ok 8 0" by code_simp
    then show ?thesis by (simp add: attach_def ATTACH_SPINS_def attach_loop_first)
  qed
  moreover have "and_then (push_ok 8 (spsc_open
      \<lparr>magic = MAGIC, capacity = 8, ring_tail = 0, ring_head = 0, slots = replicate 8 0\<rparr>) 7) (\<lambda>q.
     and_then (pop_is 8 q (Some 7)) (\<lambda>_. Inr ())) = Inr ()" by code_simp
  ultimately show "test_attach_validates_magic = Inr ()" by (simp add: test_attach_validates_magic_def)
qed

text \<open>\<open>threaded_producer_consumer_stress\<close>: one thread pushes the payloads 1, 2, \<dots> up to 200000, each until it is
  accepted; the other pops until it has seen them all and compares each id with the one it expects. The steps
  of the two threads interleave in any order.\<close>

definition payload :: "nat \<Rightarrow> u64 \<times> u8 list" where
  "payload i = (of_nat i, replicate 288 0)"

definition stress_ring :: "(u64 \<times> u8 list) SpscRing" where
  "stress_ring = fresh_ring (payload 0)"

text \<open>What the producer's thread does when it is between two calls: the next payload, or the same again
  after a refused push.\<close>

definition stress_call :: "(u64 \<times> u8 list) sys \<Rightarrow> (u64 \<times> u8 list) sys \<Rightarrow> bool" where
  "stress_call s t \<longleftrightarrow> (case (s_ppc s, s_ppc t) of
     (PIdle, PCheck v) \<Rightarrow> length (s_sent s) < 200000 \<and> v = payload (Suc (length (s_sent s)))
   | _ \<Rightarrow> True)"

definition stress_step :: "(u64 \<times> u8 list) sys \<Rightarrow> (u64 \<times> u8 list) sys \<Rightarrow> bool" where
  "stress_step s t \<longleftrightarrow> spsc_step RING_CAPACITY s t \<and> stress_call s t"

definition stress_reach :: "(u64 \<times> u8 list) sys \<Rightarrow> bool" where
  "stress_reach s \<longleftrightarrow> stress_step\<^sup>*\<^sup>* (spsc_start RING_CAPACITY stress_ring) s"

fun pushing :: "'a producer_pc \<Rightarrow> 'a option" where
  "pushing PIdle = None"
| "pushing (PCheck v) = Some v"
| "pushing (PReload v) = Some v"
| "pushing (PWrite v) = Some v"
| "pushing (PPublish v) = Some v"

lemma stress_sound:
  assumes "stress_reach s"
  shows "spsc_reach RING_CAPACITY stress_ring s"
  using assms unfolding stress_reach_def
proof (induction rule: rtranclp_induct)
  case base
  show ?case by (rule spsc_reach.start) (simp add: stress_ring_def)
next
  case (step s t)
  then show ?case by (auto simp: stress_step_def intro: spsc_reach.step)
qed

lemma stress_sent:
  assumes "stress_reach s"
  shows "s_sent s = map payload [1..<Suc (length (s_sent s))] \<and> length (s_sent s) \<le> 200000 \<and>
    (\<forall>v. pushing (s_ppc s) = Some v \<longrightarrow> length (s_sent s) < 200000 \<and> v = payload (Suc (length (s_sent s))))"
  using assms unfolding stress_reach_def
proof (induction rule: rtranclp_induct)
  case base
  show ?case by (simp add: spsc_start_def stress_ring_def)
next
  case (step s t)
  then have "spsc_step RING_CAPACITY s t" "stress_call s t" by (simp_all add: stress_step_def)
  then show ?case using step.IH by cases (auto simp: stress_call_def)
qed

lemma no_new_push_stress: "no_new_push RING_CAPACITY s t \<Longrightarrow> stress_step s t"
  by (auto simp: no_new_push_def stress_step_def stress_call_def split: producer_pc.split)

lemma stress_runs: "(no_new_push RING_CAPACITY)\<^sup>*\<^sup>* s t \<Longrightarrow> stress_step\<^sup>*\<^sup>* s t"
  by (rule rtranclp_mono [THEN predicate2D]) (auto intro: no_new_push_stress)

lemma stress_run_reach: "stress_reach s \<Longrightarrow> stress_step\<^sup>*\<^sup>* s t \<Longrightarrow> stress_reach t"
  by (simp add: stress_reach_def)

lemma stress_inv: "stress_reach s \<Longrightarrow> conc_inv RING_CAPACITY s"
  by (rule reach_inv [OF stress_sound])

text \<open>Both threads between two calls, everything published taken.\<close>

definition settled :: "'a sys \<Rightarrow> bool" where
  "settled s \<longleftrightarrow> s_ppc s = PIdle \<and> s_cpc s = CIdle \<and> s_rcvd s = s_sent s"

lemma stress_one_more:
  assumes "stress_reach s" "settled s" "length (s_sent s) < 200000"
  shows "\<exists>t. stress_step\<^sup>*\<^sup>* s t \<and> settled t \<and> length (s_sent t) = Suc (length (s_sent s))"
proof -
  let ?v = "payload (Suc (length (s_sent s)))"
  let ?u = "s\<lparr>s_ppc := PCheck ?v\<rparr>"
  have "stress_step s ?u"
    using push_call [of s RING_CAPACITY ?v] assms(2,3) by (simp add: settled_def stress_step_def stress_call_def)
  then have u: "stress_step\<^sup>*\<^sup>* s ?u" by blast
  have "length (s_sent ?u) < length (s_rcvd ?u) + unat RING_CAPACITY"
    using assms(2) by (simp add: settled_def unat_RING_CAPACITY)
  moreover have "s_ppc ?u = PCheck ?v" "s_cpc ?u = CIdle" "s_sent ?u = s_sent s"
    using assms(2) by (simp_all add: settled_def)
  ultimately obtain a where
    a: "(no_new_push RING_CAPACITY)\<^sup>*\<^sup>* ?u a" "s_ppc a = PIdle" "s_cpc a = CIdle" "s_sent a = s_sent s @ [?v]"
    using producer_ends [OF stress_inv [OF stress_run_reach [OF assms(1) u]]] by metis
  have ra: "stress_step\<^sup>*\<^sup>* s a" using u stress_runs [OF a(1)] by (rule rtranclp_trans)
  from consumer_drains [OF stress_inv [OF stress_run_reach [OF assms(1) ra]] a(3)] obtain t where
    t: "(no_new_push RING_CAPACITY)\<^sup>*\<^sup>* a t" "s_cpc t = CIdle" "s_ppc t = PIdle" "s_sent t = s_sent a" "s_rcvd t = s_sent t"
    using a(2) by metis
  have "stress_step\<^sup>*\<^sup>* s t" using ra stress_runs [OF t(1)] by (rule rtranclp_trans)
  then show ?thesis using t a(4) by (intro exI [of _ t]) (simp add: settled_def)
qed

lemma stress_many:
  assumes "stress_reach s" "settled s" "length (s_sent s) \<le> n" "n \<le> 200000"
  shows "\<exists>t. stress_step\<^sup>*\<^sup>* s t \<and> settled t \<and> length (s_sent t) = n"
  using assms(3,4)
proof (induction n)
  case 0
  then show ?case using assms(2) by (intro exI [of _ s]) simp
next
  case (Suc n)
  show ?case
  proof (cases "length (s_sent s) = Suc n")
    case True
    then show ?thesis using assms(2) by (intro exI [of _ s]) simp
  next
    case False
    with Suc obtain t where t: "stress_step\<^sup>*\<^sup>* s t" "settled t" "length (s_sent t) = n" by auto
    from stress_one_more [OF stress_run_reach [OF assms(1) t(1)] t(2)] t(3) Suc.prems(2)
    obtain u where "stress_step\<^sup>*\<^sup>* t u" "settled u" "length (s_sent u) = Suc n" by auto
    with t(1) show ?thesis by (blast intro: rtranclp_trans)
  qed
qed

lemma stress_completes:
  assumes "stress_reach s"
  shows "\<exists>t. stress_step\<^sup>*\<^sup>* s t \<and> s_rcvd t = map payload [1..<200001]"
proof -
  from ring_settles [OF stress_inv [OF assms]] obtain a where
    a: "(no_new_push RING_CAPACITY)\<^sup>*\<^sup>* s a" "settled a" by (auto simp: settled_def)
  have ra: "stress_reach a" using stress_run_reach [OF assms stress_runs [OF a(1)]] .
  have "length (s_sent a) \<le> 200000" using stress_sent [OF ra] by blast
  from stress_many [OF ra a(2) this] obtain t where
    t: "stress_step\<^sup>*\<^sup>* a t" "settled t" "length (s_sent t) = 200000" by auto
  have "s_sent t = map payload [1..<Suc 200000]"
    using stress_sent [OF stress_run_reach [OF ra t(1)]] t(3) by (simp del: upt_Suc)
  then have "s_rcvd t = map payload [1..<200001]" using t(2) by (simp add: settled_def del: upt_Suc)
  with t(1) stress_runs [OF a(1)] show ?thesis by (blast intro: rtranclp_trans)
qed

text \<open>The stress test passes under every interleaving: the payloads arrive whole and in order, and the two threads
  can always go on until all of them have arrived.\<close>

lemma stress_test_passes:
  assumes "stress_reach s"
  shows "s_rcvd s = map payload [1..<Suc (length (s_rcvd s))] \<and> length (s_rcvd s) \<le> 200000 \<and>
    (\<exists>t. stress_step\<^sup>*\<^sup>* s t \<and> s_rcvd t = map payload [1..<200001])"
proof -
  have "prefix (s_rcvd s) (s_sent s)" using inv_prefix [OF stress_inv [OF assms]] by simp
  then have "s_rcvd s = take (length (s_rcvd s)) (s_sent s)" and le: "length (s_rcvd s) \<le> length (s_sent s)"
    by (auto simp: prefix_def)
  then have "s_rcvd s = map payload (take (length (s_rcvd s)) [1..<Suc (length (s_sent s))])"
    using stress_sent [OF assms] by (metis take_map)
  also have "take (length (s_rcvd s)) [1..<Suc (length (s_sent s))] = [1..<Suc (length (s_rcvd s))]"
    using le by (simp add: take_upt del: upt_Suc)
  finally show ?thesis using le stress_sent [OF assms] stress_completes [OF assms] by simp
qed

end
