(* ===== verification/Service_Tests.thy ===== *)
theory Service_Tests
  imports Pipeline Executor Protocol_Tests "HOL-Library.AList"
begin

text \<open>
  The unit tests in \<open>batch.rs\<close>, \<open>scheduler.rs\<close>, \<open>pipeline.rs\<close> and \<open>executor.rs\<close> of the service, as
  computations in the model that end in \<open>Inr ()\<close> when every assertion holds. Tests are built in the
  debug profile. Those of the executor run on a small file system.
\<close>

unbundle bit_operations_syntax

text \<open>\<open>xs[i]\<close>\<close>

definition index_at :: "'a list \<Rightarrow> nat \<Rightarrow> 'a exec" where
  "index_at xs i = (if i < length xs then Inr (xs ! i) else Inl Index_Range)"

section \<open>batch.rs\<close>

definition test_merge_adjacent_reads :: "unit exec" where
  "test_merge_adjacent_reads =
     (let r1 = (IoRequest_new 1 Read High)\<lparr>rq_fd := 10, rq_offset := 0, rq_len := 4096, rq_data_offset := 0\<rparr>;
          engine = batch_add BatchEngine_new r1 0;
          r2 = (IoRequest_new 2 Read High)\<lparr>rq_fd := 10, rq_offset := 4096, rq_len := 4096, rq_data_offset := 4096\<rparr>;
          engine = batch_add engine r2 0
      in and_then (drain_merged Debug engine) (\<lambda>res. case res of (merged, _) \<Rightarrow>
         and_then (assert_that (length merged = 1)) (\<lambda>_.
         and_then (index_at merged 0) (\<lambda>m.
         and_then (assert_that (rq_len (mo_req m) = 8192)) (\<lambda>_.
         assert_that (length (mo_sources m) = 2))))))"

definition test_no_merge_different_fds :: "unit exec" where
  "test_no_merge_different_fds =
     (let r1 = (IoRequest_new 1 Read High)\<lparr>rq_fd := 10, rq_offset := 0, rq_len := 4096\<rparr>;
          engine = batch_add BatchEngine_new r1 0;
          r2 = (IoRequest_new 2 Read High)\<lparr>rq_fd := 11, rq_offset := 0, rq_len := 4096\<rparr>;
          engine = batch_add engine r2 0
      in and_then (drain_merged Debug engine) (\<lambda>res. case res of (merged, _) \<Rightarrow>
         assert_that (length merged = 2)))"

lemmas test_eval = Let_def batch_add_def BatchEngine_new_def drain_eval index_at_def

lemma batch_tests: "test_merge_adjacent_reads = Inr ()" "test_no_merge_different_fds = Inr ()"
  by (simp_all add: test_merge_adjacent_reads_def test_no_merge_different_fds_def test_eval)

section \<open>scheduler.rs\<close>

definition make_op :: "u64 \<Rightarrow> IoPriority \<Rightarrow> MergedOp" where
  "make_op i priority =
     \<lparr>mo_req = IoRequest_new i Read priority, mo_channel = 0, mo_sources = [(i, 0, 4096)]\<rparr>"

definition test_priority_ordering :: "unit exec" where
  "test_priority_ordering =
     (let sched = enqueue Scheduler_new (make_op 1 Low);
          sched = enqueue sched (make_op 2 Critical);
          sched = enqueue sched (make_op 3 High)
      in case sch_drain sched 10 of (ops, _) \<Rightarrow>
         and_then (index_at ops 0) (\<lambda>op. and_then (assert_that (rq_id (mo_req op) = 2)) (\<lambda>_.
         and_then (index_at ops 1) (\<lambda>op. and_then (assert_that (rq_id (mo_req op) = 3)) (\<lambda>_.
         and_then (index_at ops 2) (\<lambda>op. assert_that (rq_id (mo_req op) = 1)))))))"

lemma scheduler_tests: "test_priority_ordering = Inr ()"
  by (simp add: test_priority_ordering_def Let_def make_op_def enqueue_def Scheduler_new_def
      priority_from_u8_def sch_drain_def index_at_def)

section \<open>pipeline.rs\<close>

text \<open>The helper \<open>req\<close> of these tests.\<close>

definition test_req :: "u64 \<Rightarrow> IoOp \<Rightarrow> u64 \<Rightarrow> u64 \<Rightarrow> u32 \<Rightarrow> IoRequest" where
  "test_req i op fd off l = (IoRequest_new i op High)\<lparr>rq_fd := fd, rq_offset := off, rq_len := l\<rparr>"

definition test_passthrough_preserves_order :: "unit exec" where
  "test_passthrough_preserves_order =
     (let p = pt_add PassThrough_new (test_req 1 Read 10 0 4096) 0;
          p = pt_add p (test_req 2 Read 10 4096 4096) 0
      in and_then (pt_drain Debug p) (\<lambda>res. case res of (ops, _) \<Rightarrow>
         and_then (assert_that (length ops = 2)) (\<lambda>_.
         and_then (index_at ops 0) (\<lambda>o0. and_then (assert_that (rq_id (mo_req o0) = 1)) (\<lambda>_.
         and_then (index_at ops 1) (\<lambda>o1. and_then (assert_that (rq_id (mo_req o1) = 2)) (\<lambda>_.
         assert_that (length (mo_sources o0) = 1))))))))"

definition test_batched_coalesces :: "unit exec" where
  "test_batched_coalesces =
     (let p = bt_add Batched_new (test_req 1 Read 10 0 4096) 0;
          p = bt_add p (test_req 2 Read 10 4096 4096) 0
      in and_then (bt_drain Debug p) (\<lambda>res. case res of (ops, _) \<Rightarrow>
         and_then (assert_that (length ops = 1)) (\<lambda>_.
         and_then (index_at ops 0) (\<lambda>o0.
         and_then (assert_that (length (mo_sources o0) = 2)) (\<lambda>_.
         assert_that (rq_len (mo_req o0) = 8192))))))"

definition test_is_empty_tracks_state :: "unit exec" where
  "test_is_empty_tracks_state =
     (let p = PassThrough_new in
      and_then (assert_that (pt_is_empty p)) (\<lambda>_.
      let p = pt_add p (test_req 1 Read 10 0 4096) 0 in
      and_then (assert_that (\<not> pt_is_empty p)) (\<lambda>_.
      and_then (pt_drain Debug p) (\<lambda>res. case res of (_, p) \<Rightarrow>
      assert_that (pt_is_empty p)))))"

lemma pipeline_tests:
  "test_passthrough_preserves_order = Inr ()" "test_batched_coalesces = Inr ()"
  "test_is_empty_tracks_state = Inr ()"
  by (simp_all add: test_passthrough_preserves_order_def test_batched_coalesces_def
      test_is_empty_tracks_state_def test_req_def pt_add_def PassThrough_new_def pt_drain_def pt_is_empty_def
      bt_add_def Batched_new_def bt_drain_def batch_is_empty_def enqueue_def Scheduler_new_def
      priority_from_u8_def sch_drain_def sch_len_def test_eval)

section \<open>executor.rs\<close>

text \<open>The system the tests run on: a directory of files, open descriptors with a path each, the last error,
  and the tests' buffers.\<close>

record test_fs =
  fs_files :: "(u8 list \<times> u8 list) list"
  fs_fds :: "(i32 \<times> u8 list) list"
  fs_next :: i32
  fs_errno :: i32
  fs_bufs :: "u8 list list"

definition ENOENT :: i32 where "ENOENT = 2"

definition fs_open :: "test_fs \<Rightarrow> u8 list \<Rightarrow> i32 \<Rightarrow> u32 \<Rightarrow> i32 \<times> test_fs" where
  "fs_open w path flags mode =
     (let found = map_of (fs_files w) path \<noteq> None;
          opened = w\<lparr>fs_fds := (fs_next w, path) # fs_fds w, fs_next := fs_next w + 1\<rparr>
      in if found then (fs_next w, opened)
         else if flags AND O_CREAT \<noteq> 0 then (fs_next w, opened\<lparr>fs_files := (path, []) # fs_files w\<rparr>)
         else (- 1, w\<lparr>fs_errno := ENOENT\<rparr>))"

text \<open>A call on the file behind a descriptor; \<open>EBADF\<close> when there is none.\<close>

definition on_file :: "(u8 list \<Rightarrow> u8 list \<Rightarrow> 'n::len word \<times> test_fs) \<Rightarrow> i32 \<Rightarrow> test_fs \<Rightarrow> 'n word \<times> test_fs" where
  "on_file f fd w =
     (case map_of (fs_fds w) fd of
        None \<Rightarrow> (- 1, w\<lparr>fs_errno := EBADF\<rparr>)
      | Some path \<Rightarrow> (case map_of (fs_files w) path of None \<Rightarrow> (- 1, w\<lparr>fs_errno := ENOENT\<rparr>) | Some c \<Rightarrow> f path c))"

definition patch :: "u8 list \<Rightarrow> nat \<Rightarrow> u8 list \<Rightarrow> u8 list" where
  "patch bs off data = take off bs @ replicate (off - length bs) 0 @ data @ drop (off + length data) bs"

definition fs_libc :: "test_fs LibC" where
  "fs_libc =
     \<lparr>c_open = fs_open,
      c_close = (\<lambda>w fd. on_file (\<lambda>_ _. (0, w\<lparr>fs_fds := AList.delete fd (fs_fds w)\<rparr>)) fd w),
      c_pread = (\<lambda>w fd b n off. case b of (k, at) \<Rightarrow> on_file (\<lambda>_ c.
        let data = take (unat n) (drop (unat off) c)
        in (of_nat (length data), w\<lparr>fs_bufs := (fs_bufs w)[k := patch (fs_bufs w ! k) at data]\<rparr>)) fd w),
      c_pwrite = (\<lambda>w fd b n off. case b of (k, at) \<Rightarrow> on_file (\<lambda>path c.
        let data = take (unat n) (drop at (fs_bufs w ! k))
        in (of_nat (length data), w\<lparr>fs_files := (path, patch c (unat off) data) # fs_files w\<rparr>)) fd w),
      c_fsync = (\<lambda>w fd. on_file (\<lambda>_ _. (0, w)) fd w),
      c_last_os_error = (\<lambda>w. Some (fs_errno w))\<rparr>"

text \<open>A test begins in an empty directory, with the given buffers.\<close>

definition fs_start :: "u8 list list \<Rightarrow> test_fs" where
  "fs_start bufs = \<lparr>fs_files = [], fs_fds = [], fs_next = 3, fs_errno = 0, fs_bufs = bufs\<rparr>"

definition test_path :: "u8 list" where
  "test_path = ascii ''/tmp/x/test.dat''"

abbreviation "test_ex \<equiv> PosixExecutor fs_libc"

definition positive :: "'n::len word \<Rightarrow> bool" where
  "positive w \<longleftrightarrow> 0 < sint w"

definition test_open_create_and_close :: "unit exec" where
  "test_open_create_and_close =
     (case ex_open test_ex (fs_start []) test_path (O_CREAT OR O_RDWR) 420 of (fd, w) \<Rightarrow>
      and_then (assert_that (positive fd)) (\<lambda>_.
      case ex_close test_ex w (i64_as_i32 fd) of (rc, _) \<Rightarrow> assert_that (rc = 0)))"

definition test_open_nonexistent_fails :: "unit exec" where
  "test_open_nonexistent_fails =
     (case ex_open test_ex (fs_start []) (ascii ''/tmp/atlas_no_such_file_ever_12345'') 0 0 of (rc, _) \<Rightarrow>
      assert_that (negative rc))"

definition test_write_read_roundtrip :: "unit exec" where
  "test_write_read_roundtrip =
     (let data = ascii ''hello posix executor'' in
      case ex_open test_ex (fs_start [data, replicate 64 0]) test_path (O_CREAT OR O_RDWR) 420 of (fd, w) \<Rightarrow>
      and_then (assert_that (positive fd)) (\<lambda>_.
      let fd = i64_as_i32 fd in
      case ex_pwrite test_ex w fd (0, 0) (of_nat (length data)) 0 of (wr, w) \<Rightarrow>
      and_then (assert_that (wr = of_nat (length data))) (\<lambda>_.
      case ex_pread test_ex w fd (1, 0) 64 0 of (n, w) \<Rightarrow>
      and_then (assert_that (n = of_nat (length data))) (\<lambda>_.
      assert_that (take (unat n) (fs_bufs w ! 1) = data)))))"

definition test_pwrite_at_offset :: "unit exec" where
  "test_pwrite_at_offset =
     (case ex_open test_ex (fs_start [ascii ''AAAA'', ascii ''BB'', replicate 6 0]) test_path
        (O_CREAT OR O_RDWR) 420 of (fd, w) \<Rightarrow>
      let fd = i64_as_i32 fd in
      case ex_pwrite test_ex w fd (0, 0) 4 0 of (_, w) \<Rightarrow>
      case ex_pwrite test_ex w fd (1, 0) 2 4 of (_, w) \<Rightarrow>
      case ex_pread test_ex w fd (2, 0) 6 0 of (n, w) \<Rightarrow>
      and_then (assert_that (n = 6)) (\<lambda>_.
      assert_that (fs_bufs w ! 2 = ascii ''AAAABB'')))"

definition test_fsync_succeeds :: "unit exec" where
  "test_fsync_succeeds =
     (case ex_open test_ex (fs_start [ascii ''data'']) test_path (O_CREAT OR O_RDWR) 420 of (fd, w) \<Rightarrow>
      let fd = i64_as_i32 fd in
      case ex_pwrite test_ex w fd (0, 0) 4 0 of (_, w) \<Rightarrow>
      case ex_fsync test_ex w fd of (rc, _) \<Rightarrow> assert_that (rc = 0))"

definition test_bad_fds :: "unit exec" where
  "test_bad_fds =
     (let w = fs_start [replicate 4 0] in
      and_then (assert_that (negative (fst (ex_fsync test_ex w 99999)))) (\<lambda>_.
      and_then (assert_that (negative (fst (ex_pread test_ex w 99999 (0, 0) 4 0)))) (\<lambda>_.
      assert_that (negative (fst (ex_close test_ex w 99999))))))"

definition test_fsync_persists_data :: "unit exec" where
  "test_fsync_persists_data =
     (let data = ascii ''persistent'' in
      case ex_open test_ex (fs_start [data]) test_path (O_CREAT OR O_RDWR) 420 of (fd, w) \<Rightarrow>
      let fd = i64_as_i32 fd in
      case ex_pwrite test_ex w fd (0, 0) (of_nat (length data)) 0 of (_, w) \<Rightarrow>
      case ex_fsync test_ex w fd of (_, w) \<Rightarrow>
      case ex_close test_ex w fd of (_, w) \<Rightarrow>
      assert_that (map_of (fs_files w) test_path = Some data))"

lemma executor_tests:
  "test_open_create_and_close = Inr ()" "test_open_nonexistent_fails = Inr ()"
  "test_write_read_roundtrip = Inr ()" "test_pwrite_at_offset = Inr ()" "test_fsync_succeeds = Inr ()"
  "test_bad_fds = Inr ()" "test_fsync_persists_data = Inr ()"
  by code_simp+

end
