(* ===== verification/Channel_Tests.thy ===== *)
theory Channel_Tests
  imports Shm_Properties Service_Tests
begin

text \<open>
  The unit tests in \<open>channel.rs\<close> of the service and of the client, as computations in the model: the setup
  through the operating system that both sides share, and then requests, responses and the data region.
\<close>

section \<open>The service's data region\<close>

text \<open>\<open>DataRegion::write\<close> and \<open>read\<close> of the service, on the mapped bytes.\<close>

definition svc_write :: "u32 \<Rightarrow> u8 list \<Rightarrow> u8 list \<Rightarrow> u8 list exec" where
  "svc_write off data mem =
     (if unat off + length data \<le> length mem
      then Inr (take (unat off) mem @ data @ drop (unat off + length data) mem) else Inl Bad_Memory)"

definition svc_read :: "u32 \<Rightarrow> nat \<Rightarrow> u8 list \<Rightarrow> u8 list exec" where
  "svc_read off n mem =
     (if unat off + n \<le> length mem then Inr (take n (drop (unat off) mem)) else Inl Bad_Memory)"

text \<open>They are the client's, on the same bytes.\<close>

lemma svc_region:
  "svc_write off data (dr_mem r) = and_then (dr_write off data r) (\<lambda>r'. Inr (dr_mem r'))"
  "svc_read off n (dr_mem r) = dr_read off n r"
  by (simp_all add: svc_write_def svc_read_def dr_write_def dr_read_def)

section \<open>Setup\<close>

text \<open>\<open>setup\<close>: cleanup, \<open>create\<close>, \<open>join\<close> and \<open>connect\<close>, each expected to succeed. The peers sleep in between.\<close>

definition setup_pair :: "'s ShmOs \<Rightarrow> u32 \<Rightarrow> 's \<Rightarrow> (ClientEnds \<times> ServiceEnds \<times> 's) exec" where
  "setup_pair os i s =
     and_then (PreparedChannel_create os i (cleanup_shm os i s)) (\<lambda>r1.
     and_then (unwrap (fst r1)) (\<lambda>pc.
     and_then (ServiceChannel_join os i (snd r1)) (\<lambda>r2.
     and_then (unwrap (fst r2)) (\<lambda>se.
     and_then (PreparedChannel_connect os (\<lambda>_ s. s) pc (snd r2)) (\<lambda>r3.
     and_then (unwrap (fst r3)) (\<lambda>ce. Inr (ce, se, snd r3)))))))"

text \<open>The client's channel of the pair. The state of its peer says whether the assertions on the service's
  thread have held so far.\<close>

definition client_of :: "ClientEnds \<Rightarrow> ServiceEnds \<Rightarrow> shm_view \<Rightarrow> u8 list \<Rightarrow> bool ClientChannel" where
  "client_of ce se v bytes =
     (let ch = opened_channel ce se v in
      \<lparr>cc_req = sc_req ch, cc_resp = sc_resp ch,
       cc_data = \<lparr>dr_mem = bytes, dr_len = mr_len (ce_data ce), dr_offset = mr_offset (ce_data ce)\<rparr>,
       cc_instance = ce_instance ce, cc_served = [], cc_popped = [], cc_peer = True\<rparr>)"

text \<open>A service thread that polls until it has a request, checks it and answers it.\<close>

definition serve_one :: "(IoRequest \<Rightarrow> bool) \<Rightarrow> (IoRequest \<Rightarrow> IoResponse) \<Rightarrow> bool peer_move" where
  "serve_one check reply = answer_with (\<lambda>r ok. ok \<and> check r) reply"

section \<open>channel.rs of the service\<close>

definition test_poll_request_empty :: "ServiceChannel \<Rightarrow> unit exec" where
  "test_poll_request_empty ch = assert_that (fst (poll_request ch) = None)"

definition test_request_roundtrip :: "bool ClientChannel \<Rightarrow> unit exec" where
  "test_request_roundtrip client =
     (let path = ascii ''/tmp/test.dat'';
          svc = serve_one (\<lambda>req. rq_id req = 42 \<and> io_op req = Some Open \<and> path_str req = path)
                  (\<lambda>_. (IoResponse_ok 42)\<lparr>rs_fd := 7\<rparr>)
      in and_then (send_request [svc] (set_path (IoRequest_new 42 Open High) path) client) (\<lambda>res.
         case res of (got, client, _) \<Rightarrow>
         and_then (assert_that (cc_peer client)) (\<lambda>_.
         and_then (assert_that (rs_id got = 42)) (\<lambda>_.
         and_then (assert_that (rs_fd got = 7)) (\<lambda>_.
         assert_that (rs_status got = 0))))))"

definition test_request_response_cycles :: "bool ClientChannel \<Rightarrow> unit exec" where
  "test_request_response_cycles client =
     and_then (fold_exec (\<lambda>client i.
       and_then (send_request [serve_one (\<lambda>_. True) (\<lambda>req. IoResponse_ok (rq_id req))]
                  (IoRequest_new (of_nat i) Read High) client) (\<lambda>res.
       case res of (resp, client, _) \<Rightarrow>
       and_then (assert_that (rs_id resp = of_nat i)) (\<lambda>_.
       and_then (assert_that (rs_status resp = 0)) (\<lambda>_. Inr client)))) client [0..<10])
     (\<lambda>_. Inr ())"

definition test_data_region_shared :: "bool ClientChannel \<Rightarrow> unit exec" where
  "test_data_region_shared client =
     and_then (dr_write 0 (ascii ''from_client'') (cc_data client)) (\<lambda>d.
     and_then (svc_read 0 11 (dr_mem d)) (\<lambda>x.
     and_then (assert_that (x = ascii ''from_client'')) (\<lambda>_.
     and_then (svc_write 64 (ascii ''from_service'') (dr_mem d)) (\<lambda>m.
     and_then (dr_read 64 12 (d\<lparr>dr_mem := m\<rparr>)) (\<lambda>y.
     assert_that (y = ascii ''from_service''))))))"

definition test_error_response :: "bool ClientChannel \<Rightarrow> unit exec" where
  "test_error_response client =
     and_then (send_request [serve_one (\<lambda>_. True) (\<lambda>req. IoResponse_err (rq_id req) (- 2))]
                (IoRequest_new 99 Open High) client) (\<lambda>res.
     case res of (resp, _, _) \<Rightarrow>
     and_then (assert_that (rs_id resp = 99)) (\<lambda>_. assert_that (rs_status resp = - 2)))"

section \<open>channel.rs of the client\<close>

text \<open>\<open>create_region\<close>: what \<open>DataRegion::create\<close> maps; the bytes are given.\<close>

definition created_region :: "u8 list \<Rightarrow> DataRegion" where
  "created_region bytes = \<lparr>dr_mem = bytes, dr_len = DATA_REGION_SIZE, dr_offset = 0\<rparr>"

definition test_region_roundtrip :: "DataRegion \<Rightarrow> unit exec" where
  "test_region_roundtrip dr =
     (let data = ascii ''hello atlas'' in
      and_then (alloc Debug (of_nat (length data)) [] dr) (\<lambda>res. case res of (off, dr) \<Rightarrow>
      and_then (dr_write off data dr) (\<lambda>dr.
      and_then (dr_read off (length data) dr) (\<lambda>x. assert_that (x = data)))))"

definition test_alloc_advances_offset :: "DataRegion \<Rightarrow> unit exec" where
  "test_alloc_advances_offset dr =
     and_then (alloc Debug 100 [] dr) (\<lambda>res. case res of (a, dr) \<Rightarrow>
     and_then (alloc Debug 200 [] dr) (\<lambda>res. case res of (b, dr) \<Rightarrow>
     and_then (assert_that (a = 0)) (\<lambda>_.
     and_then (assert_that (b = 100)) (\<lambda>_.
     and_then (alloc Debug 50 [] dr) (\<lambda>res. case res of (c, _) \<Rightarrow> assert_that (c = 300))))))"

definition test_alloc_wraps_around :: "DataRegion \<Rightarrow> unit exec" where
  "test_alloc_wraps_around dr =
     and_then (usub Debug DATA_REGION_SIZE 16) (\<lambda>big.
     and_then (alloc Debug big [] dr) (\<lambda>res. case res of (off1, dr) \<Rightarrow>
     and_then (assert_that (off1 = 0)) (\<lambda>_.
     and_then (alloc Debug 32 [] dr) (\<lambda>res. case res of (off2, _) \<Rightarrow> assert_that (off2 = 0)))))"

definition test_non_overlapping_writes :: "DataRegion \<Rightarrow> unit exec" where
  "test_non_overlapping_writes dr =
     and_then (alloc Debug 4 [] dr) (\<lambda>res. case res of (a, dr) \<Rightarrow>
     and_then (alloc Debug 4 [] dr) (\<lambda>res. case res of (b, dr) \<Rightarrow>
     and_then (dr_write a (ascii ''AAAA'') dr) (\<lambda>dr.
     and_then (dr_write b (ascii ''BBBB'') dr) (\<lambda>dr.
     and_then (dr_read a 4 dr) (\<lambda>x.
     and_then (assert_that (x = ascii ''AAAA'')) (\<lambda>_.
     and_then (dr_read b 4 dr) (\<lambda>y. assert_that (y = ascii ''BBBB''))))))))"

section \<open>The tests pass\<close>

lemma setup_connected:
  assumes os: "shm_contract os view" and s: "setup_pair os i s = Inr (ce, se, s')"
  shows "connected ce se i (view s')"
proof -
  from s obtain pc s1 se' s2 ce' where
    1: "PreparedChannel_create os i (cleanup_shm os i s) = Inr (Inr pc, s1)"
    and 2: "ServiceChannel_join os i s1 = Inr (Inr se, s2)"
    and 3: "PreparedChannel_connect os (\<lambda>_ s. s) pc s2 = Inr (Inr ce, s')"
    by (auto simp: setup_pair_def unwrap_def split: sum.splits elim!: and_then_InrE)
  have "quiet i view (\<lambda>_. id)" by (simp add: quiet_def)
  from startup_steps [OF os quiet_id this, where s = "cleanup_shm os i s"] 1 2 3 show ?thesis
    by (simp only: sum.case prod.case id_apply) (elim conjE, assumption)
qed

definition idle_rings :: "'p ClientChannel \<Rightarrow> bool" where
  "idle_rings c \<longleftrightarrow> cc_wf c \<and> spsc_contents RING_CAPACITY (cc_req c) = [] \<and>
     spsc_contents RING_CAPACITY (cc_resp c) = []"

lemma client_of_idle: "connected ce se i v \<Longrightarrow> idle_rings (client_of ce se v bytes)"
  using connected_channel [of ce se i v]
  by (auto simp: idle_rings_def client_of_def Let_def cc_wf_def chan_wf_def resp_log_def opened_channel_def)

lemma send_request_idle:
  assumes "idle_rings c" "rs_id (reply req) = rq_id req"
  obtains c' where "send_request [serve_one check reply] req c = Inr (reply req, c', [])" "idle_rings c'"
    "cc_peer c' = (cc_peer c \<and> check req)"
  using send_request_replied [where note_of = "\<lambda>r ok. ok \<and> check r" and reply = reply and req = req and c = c] assms
  by (auto simp: idle_rings_def serve_one_def)

lemma ascii_dat: "utf8_valid (ascii ''/tmp/test.dat'') \<and> 0 \<notin> set (ascii ''/tmp/test.dat'')"
  by code_simp

lemma request_roundtrip_passes:
  assumes "idle_rings c" "cc_peer c"
  shows "test_request_roundtrip c = Inr ()"
proof -
  let ?path = "ascii ''/tmp/test.dat''"
  let ?req = "set_path (IoRequest_new 42 Open High) ?path"
  let ?check = "\<lambda>req. rq_id req = 42 \<and> io_op req = Some Open \<and> path_str req = ?path"
  let ?reply = "\<lambda>_ :: IoRequest. (IoResponse_ok 42)\<lparr>rs_fd := 7\<rparr>"
  have "path_str ?req = ?path" using ascii_dat by (intro path_str_kept) (simp_all add: ascii_def)
  moreover have "io_op ?req = Some Open" by (simp add: io_op_def op_from_u8_def)
  ultimately have ok: "?check ?req" by simp
  have "rs_id (?reply ?req) = rq_id ?req" by simp
  then obtain c' where c': "send_request [serve_one ?check ?reply] ?req c = Inr (?reply ?req, c', [])"
    and peer: "cc_peer c' = (cc_peer c \<and> ?check ?req)"
    using send_request_idle [where reply = ?reply and req = ?req and check = ?check, OF assms(1)] by blast
  have "cc_peer c'" unfolding peer using assms(2) ok by blast
  with c' show ?thesis by (simp add: test_request_roundtrip_def Let_def)
qed

lemma cycles_pass:
  assumes "idle_rings c"
  shows "test_request_response_cycles c = Inr ()"
proof -
  let ?reply = "\<lambda>req. IoResponse_ok (rq_id req)"
  let ?body = "\<lambda>client i.
       and_then (send_request [serve_one (\<lambda>_. True) ?reply] (IoRequest_new (of_nat i) Read High) client) (\<lambda>res.
       case res of (resp, client, _) \<Rightarrow>
       and_then (assert_that (rs_id resp = of_nat i)) (\<lambda>_.
       and_then (assert_that (rs_status resp = 0)) (\<lambda>_. Inr client)))"
  have "\<exists>c'. fold_exec ?body c xs = Inr c'" for xs
    using assms
  proof (induction xs arbitrary: c)
    case (Cons i xs)
    let ?req = "IoRequest_new (of_nat i) Read High"
    have "rs_id (?reply ?req) = rq_id ?req" by simp
    then obtain c1 where "send_request [serve_one (\<lambda>_. True) ?reply] ?req c = Inr (?reply ?req, c1, [])" "idle_rings c1"
      using send_request_idle [where reply = ?reply and req = ?req and check = "\<lambda>_. True", OF Cons.prems] by blast
    with Cons.IH [of c1] show ?case by simp
  qed simp
  then obtain c' where "fold_exec ?body c [0..<10] = Inr c'" by blast
  then show ?thesis unfolding test_request_response_cycles_def by (simp only: and_then_simps)
qed

lemma error_response_passes:
  assumes "idle_rings c"
  shows "test_error_response c = Inr ()"
proof -
  let ?reply = "\<lambda>req. IoResponse_err (rq_id req) (- 2)" and ?req = "IoRequest_new 99 Open High"
  have "rs_id (?reply ?req) = rq_id ?req" by simp
  then obtain c1 where "send_request [serve_one (\<lambda>_. True) ?reply] ?req c = Inr (?reply ?req, c1, [])"
    using send_request_idle [where reply = ?reply and req = ?req and check = "\<lambda>_. True", OF assms] by blast
  then show ?thesis by (simp add: test_error_response_def)
qed

lemma region_shared_passes:
  assumes "76 \<le> length (dr_mem (cc_data c))"
  shows "test_data_region_shared c = Inr ()"
proof -
  let ?d = "cc_data c" and ?x = "ascii ''from_client''" and ?y = "ascii ''from_service''"
  have len: "length ?x = 11" "length ?y = 12" by (simp_all add: ascii_def)
  obtain d1 where d1: "dr_write 0 ?x ?d = Inr d1" using assms len by (simp add: dr_write_def)
  have x: "dr_read 0 11 d1 = Inr ?x" using dr_write_spec(1) [OF d1] len by simp
  have "length (dr_mem d1) = length (dr_mem ?d)" by (rule dr_write_spec(2) [OF d1])
  then obtain d2 where d2: "dr_write 64 ?y d1 = Inr d2" using assms len by (simp add: dr_write_def)
  have y: "dr_read 64 12 d2 = Inr ?y" using dr_write_spec(1) [OF d2] len by simp
  have "d1\<lparr>dr_mem := dr_mem d2\<rparr> = d2" using d2 by (auto simp: dr_write_def split: if_splits)
  then show ?thesis by (simp add: test_data_region_shared_def d1 svc_region x d2 y)
qed

lemma region_tests_pass:
  assumes "length bytes = unat DATA_REGION_SIZE"
  shows "test_region_roundtrip (created_region bytes) = Inr ()"
    and "test_alloc_advances_offset (created_region bytes) = Inr ()"
    and "test_alloc_wraps_around (created_region bytes) = Inr ()"
    and "test_non_overlapping_writes (created_region bytes) = Inr ()"
proof -
  let ?r = "created_region bytes"
  have size: "length (dr_mem ?r) = 67108864" "dr_len ?r = 67108864" "dr_offset ?r = 0"
    using assms by (simp_all add: created_region_def DATA_REGION_SIZE_def)
  note eval = alloc_def alloc_next_def size uadd_def usub_def DATA_REGION_SIZE_def
  show "test_alloc_advances_offset ?r = Inr ()" "test_alloc_wraps_around ?r = Inr ()"
    by (simp_all add: test_alloc_advances_offset_def test_alloc_wraps_around_def eval)
  let ?x = "ascii ''hello atlas''"
  have x: "length ?x = 11" by (simp add: ascii_def)
  have a: "alloc Debug 11 [] ?r = Inr (0, ?r\<lparr>dr_offset := 11\<rparr>)" by (simp add: eval)
  obtain r1 where r1: "dr_write 0 ?x (?r\<lparr>dr_offset := 11\<rparr>) = Inr r1" using size x by (simp add: dr_write_def)
  show "test_region_roundtrip ?r = Inr ()"
    using a r1 dr_write_spec(1) [OF r1] x by (simp add: test_region_roundtrip_def Let_def)
  let ?a = "ascii ''AAAA''" and ?b = "ascii ''BBBB''" and ?r8 = "?r\<lparr>dr_offset := 8\<rparr>"
  have ab: "length ?a = 4" "length ?b = 4" by (simp_all add: ascii_def)
  have al: "alloc Debug 4 [] ?r = Inr (0, ?r\<lparr>dr_offset := 4\<rparr>)" "alloc Debug 4 [] (?r\<lparr>dr_offset := 4\<rparr>) = Inr (4, ?r8)"
    by (simp_all add: eval)
  obtain r2 where r2: "dr_write 0 ?a ?r8 = Inr r2" using size ab by (simp add: dr_write_def)
  have "length (dr_mem r2) = 67108864" using dr_write_spec(2) [OF r2] size by simp
  then obtain r3 where r3: "dr_write 4 ?b r2 = Inr r3" using ab by (simp add: dr_write_def)
  have "dr_read 0 4 r3 = dr_read 0 4 r2" using dr_write_spec(5) [OF r3] by simp
  then have "dr_read 0 4 r3 = Inr ?a" "dr_read 4 4 r3 = Inr ?b"
    using dr_write_spec(1) [OF r2] dr_write_spec(1) [OF r3] ab by simp_all
  then show "test_non_overlapping_writes ?r = Inr ()"
    using al r2 r3 by (simp add: test_non_overlapping_writes_def)
qed

section \<open>Property\<close>

text \<open>The unit tests of the three crates pass in the model, in which they are run as they are written: the
  tests of the codes, the structs and the path, of the ring, of the batch engine, the scheduler and the stages, of the
  POSIX executor on a small file system, and of the data region; those of the two channels
  on every operating system that keeps its contract and lets the setup succeed; and in the stress test of
  the ring, under every interleaving of its two threads, no assertion fails and the threads can always go on until all
  200000 payloads have arrived in order.\<close>

theorem unit_tests_pass:
  assumes "shm_contract os view" "setup_pair os i s = Inr (ce, se, s')" "length bytes = unat DATA_REGION_SIZE"
  shows "test_request_is_any_bit_pattern = Inr () \<and> test_response_is_any_bit_pattern = Inr () \<and>
    test_sizes_are_stable = Inr () \<and> test_path_roundtrip = Inr () \<and> test_op_roundtrip = Inr () \<and>
    test_single_push_pop = Inr () \<and> test_fill_then_drain = Inr () \<and> test_attach_validates_magic = Inr () \<and>
    test_merge_adjacent_reads = Inr () \<and> test_no_merge_different_fds = Inr () \<and> test_priority_ordering = Inr () \<and>
    test_passthrough_preserves_order = Inr () \<and> test_batched_coalesces = Inr () \<and>
    test_is_empty_tracks_state = Inr () \<and> test_open_create_and_close = Inr () \<and>
    test_open_nonexistent_fails = Inr () \<and> test_write_read_roundtrip = Inr () \<and> test_pwrite_at_offset = Inr () \<and>
    test_fsync_succeeds = Inr () \<and> test_bad_fds = Inr () \<and> test_fsync_persists_data = Inr () \<and>
    test_poll_request_empty (opened_channel ce se (view s')) = Inr () \<and>
    test_request_roundtrip (client_of ce se (view s') bytes) = Inr () \<and>
    test_request_response_cycles (client_of ce se (view s') bytes) = Inr () \<and>
    test_data_region_shared (client_of ce se (view s') bytes) = Inr () \<and>
    test_error_response (client_of ce se (view s') bytes) = Inr () \<and>
    test_region_roundtrip (created_region bytes) = Inr () \<and>
    test_alloc_advances_offset (created_region bytes) = Inr () \<and>
    test_alloc_wraps_around (created_region bytes) = Inr () \<and>
    test_non_overlapping_writes (created_region bytes) = Inr () \<and>
    (\<forall>sys. stress_reach sys \<longrightarrow> s_rcvd sys = map payload [1..<Suc (length (s_rcvd sys))] \<and>
       (\<exists>t. stress_step\<^sup>*\<^sup>* sys t \<and> s_rcvd t = map payload [1..<200001]))"
proof -
  have c: "connected ce se i (view s')" using assms(1,2) by (rule setup_connected)
  note idle = client_of_idle [OF c, of bytes]
  have wf: "chan_wf (opened_channel ce se (view s'))" "requests (opened_channel ce se (view s')) = []"
    using connected_channel [OF c] by simp_all
  obtain out ch where p: "poll_request (opened_channel ce se (view s')) = (out, ch)" by force
  have "test_poll_request_empty (opened_channel ce se (view s')) = Inr ()"
    using poll_request_spec [OF wf(1) p] wf(2) p by (auto simp: test_poll_request_empty_def split: option.splits)
  moreover have "cc_peer (client_of ce se (view s') bytes)" "dr_mem (cc_data (client_of ce se (view s') bytes)) = bytes"
    by (simp_all add: client_of_def Let_def)
  moreover have "76 \<le> length bytes" using assms(3) by (simp add: DATA_REGION_SIZE_def)
  ultimately have channel: "test_poll_request_empty (opened_channel ce se (view s')) = Inr ()"
    "test_request_roundtrip (client_of ce se (view s') bytes) = Inr ()"
    "test_data_region_shared (client_of ce se (view s') bytes) = Inr ()"
    using request_roundtrip_passes [OF idle] by (simp_all add: region_shared_passes)
  have "\<forall>sys. stress_reach sys \<longrightarrow> s_rcvd sys = map payload [1..<Suc (length (s_rcvd sys))] \<and>
       (\<exists>t. stress_step\<^sup>*\<^sup>* sys t \<and> s_rcvd t = map payload [1..<200001])"
    using stress_test_passes by blast
  then show ?thesis
    by (intro conjI lib_tests ring_tests batch_tests scheduler_tests pipeline_tests executor_tests channel
        cycles_pass error_response_passes region_tests_pass idle assms(3))
qed

lemma toy_setup: "setup_pair toy 5 toy_start = Inr (toy_ce, toy_se, toy_connected)"
proof -
  have "cleanup_shm toy 5 (cleanup_shm toy 5 toy_start) = cleanup_shm toy 5 toy_start"
    by (simp add: cleanup_shm_def toy_def toy_start_def)
  then have "PreparedChannel_create toy 5 (cleanup_shm toy 5 toy_start) = PreparedChannel_create toy 5 toy_start"
    by (simp add: PreparedChannel_create_def)
  then show ?thesis by (simp add: setup_pair_def toy_create toy_join toy_connect)
qed

theorem unit_tests_pass_witness:
  "test_request_roundtrip (client_of toy_ce toy_se (toy_view toy_connected) (replicate (unat DATA_REGION_SIZE) 0)) = Inr () \<and>
   test_batched_coalesces = Inr () \<and> test_write_read_roundtrip = Inr ()"
proof -
  have "length (replicate (unat DATA_REGION_SIZE) (0 :: u8)) = unat DATA_REGION_SIZE" by (rule length_replicate)
  from unit_tests_pass [OF toy_contract toy_setup this] show ?thesis by blast
qed

end
