(* ===== verification/End_To_End.thy ===== *)
theory End_To_End
  imports Disk_World Channel_Tests
begin

text \<open>
  The end-to-end tests, \<open>atlas-client/tests/e2e.rs\<close> and \<open>atlas-service/tests/service_stress.rs\<close>, as
  computations in the model: a client and a service are set up through the operating system, and the client
  works on files through the service. Deadlines, which are about time, are left out.
\<close>

unbundle bit_operations_syntax

section \<open>Setup\<close>

text \<open>\<open>setup\<close> and \<open>start_service\<close> for one instance: clean up, prepare, register, connect, each expected to
  succeed. The sleeps give the peers time.\<close>

definition start_service :: "'s ShmOs \<Rightarrow> u32 \<Rightarrow> 's \<Rightarrow> (ClientEnds \<times> ServiceEnds \<times> 's) exec" where
  "start_service os i s =
     and_then (AtlasClient_prepare os i (cleanup_shm os i s)) (\<lambda>r1.
     and_then (unwrap (fst r1)) (\<lambda>pc.
     and_then (ServiceChannel_join os i (snd r1)) (\<lambda>r2.
     and_then (unwrap (fst r2)) (\<lambda>se.
     and_then (AtlasClient_connect os (\<lambda>_ s. s) pc (snd r2)) (\<lambda>r3.
     and_then (unwrap (fst r3)) (\<lambda>ce. Inr (ce, se, snd r3)))))))"

text \<open>The client that comes of it, with \<open>AtlasService::new\<close> as its service; \<open>NEXT_REQ_ID\<close> begins at 1.\<close>

definition started_client ::
  "ClientEnds \<Rightarrow> ServiceEnds \<Rightarrow> shm_view \<Rightarrow> u8 list \<Rightarrow> 'w \<Rightarrow> ('w, PassThrough) AtlasService AtlasClient" where
  "started_client ce se v bytes w = \<lparr>ac_channel = started_channel ce se v bytes w, ac_next_id = 1\<rparr>"

lemma start_service_connected:
  "shm_contract os view \<Longrightarrow> start_service os i s = Inr (ce, se, s') \<Longrightarrow> connected ce se i (view s')"
  by (rule setup_connected) (simp_all add: start_service_def setup_pair_def)

lemma started_serving:
  assumes "connected ce se i v" "length bytes = unat DATA_REGION_SIZE"
  shows "serving_files 0 pass_through (\<lambda>_. True) fs (started_client ce se v bytes w) (fs w) Map.empty 1"
proof -
  have "dr_len (cc_data (started_channel ce se v bytes w)) = DATA_REGION_SIZE"
    using assms(1) by (simp add: started_channel_def Let_def connected_def fresh_region_def)
  moreover have "cc_peer (started_channel ce se v bytes w) =
      snd (register (Inr (opened_channel ce se v) :: unit + ServiceChannel) (AtlasService_new w))"
    by (simp add: started_channel_def Let_def)
  ultimately show ?thesis
    using connected_idle [OF assms(1), of bytes w] connected_region [OF assms, of w]
    by (simp add: serving_files_def started_client_def register_def AtlasService_new_def with_pipeline_def)
qed

section \<open>The tests\<close>

text \<open>The running service of the tests: \<open>AtlasService::new(running, PosixExecutor::new())\<close>, in \<open>run\<close>.\<close>

abbreviation posix_service ::
  "profile \<Rightarrow> 'w LibC \<Rightarrow> ('w \<Rightarrow> nat \<Rightarrow> u8 list) \<Rightarrow> (nat \<Rightarrow> u8 list \<Rightarrow> 'w \<Rightarrow> 'w) \<Rightarrow>
   ('w, PassThrough) AtlasService peer_move" where
  "posix_service p L seg set_seg \<equiv> service_move p (PosixExecutor L) pass_through 0 seg set_seg"

text \<open>A call that is expected to succeed (\<open>expect\<close>, \<open>unwrap\<close>), and one whose result is dropped (\<open>ok\<close>).\<close>

definition expect_call ::
  "('p, 'a) called \<Rightarrow> ('a \<Rightarrow> 'p AtlasClient \<Rightarrow> 'b exec) \<Rightarrow> 'b exec" where
  "expect_call m f = and_then m (\<lambda>res. case res of (r, ac, _) \<Rightarrow> and_then (unwrap r) (\<lambda>x. f x ac))"

definition drop_call :: "('p, 'a) called \<Rightarrow> ('p AtlasClient \<Rightarrow> 'b exec) \<Rightarrow> 'b exec" where
  "drop_call m f = and_then m (\<lambda>res. case res of (_, ac, _) \<Rightarrow> f ac)"

lemma call_simps [simp]:
  "m = Inr (Inr x, ac, ms) \<Longrightarrow> expect_call m f = f x ac" "m = Inr (r, ac, ms) \<Longrightarrow> drop_call m g = g ac"
  by (simp_all add: expect_call_def drop_call_def)

definition single_instance_write_read :: "profile \<Rightarrow> 'p peer_move \<Rightarrow> u8 list \<Rightarrow> 'p AtlasClient \<Rightarrow> unit exec" where
  "single_instance_write_read p svc path client =
     expect_call (client_open [svc] path (O_WRONLY OR O_CREAT OR O_TRUNC) client) (\<lambda>fd client.
     let data = ascii ''Hello, Atlas I/O Service!'' in
     expect_call (client_write p [] [svc] fd data 0 client) (\<lambda>n client.
     and_then (assert_that (n = of_nat (length data))) (\<lambda>_.
     expect_call (client_sync [svc] fd client) (\<lambda>_ client.
     expect_call (client_close [svc] fd client) (\<lambda>_ client.
     expect_call (client_open [svc] path O_RDONLY client) (\<lambda>fd client.
     expect_call (client_read p [] [svc] fd (replicate 64 0) 0 client) (\<lambda>x client. case x of (n, buf) \<Rightarrow>
     and_then (assert_that (take n buf = data)) (\<lambda>_.
     expect_call (client_close [svc] fd client) (\<lambda>_ _. Inr ())))))))))"

definition open_then_close_roundtrip :: "'p peer_move \<Rightarrow> u8 list \<Rightarrow> 'p AtlasClient \<Rightarrow> unit exec" where
  "open_then_close_roundtrip svc path client =
     expect_call (client_open [svc] path O_RDONLY client) (\<lambda>vfd client.
     and_then (assert_that (0 < vfd)) (\<lambda>_.
     expect_call (client_close [svc] vfd client) (\<lambda>_ _. Inr ())))"

definition single_read_returns_file_contents ::
  "profile \<Rightarrow> 'p peer_move \<Rightarrow> u8 list \<Rightarrow> 'p AtlasClient \<Rightarrow> unit exec" where
  "single_read_returns_file_contents p svc path client =
     expect_call (client_open [svc] path O_RDONLY client) (\<lambda>vfd client.
     expect_call (client_read p [] [svc] vfd (replicate 10 0) 0 client) (\<lambda>x client. case x of (n, buf) \<Rightarrow>
     and_then (assert_that (n = 10)) (\<lambda>_.
     and_then (assert_that (buf = ascii ''abcdefghij'')) (\<lambda>_.
     drop_call (client_close [svc] vfd client) (\<lambda>_. Inr ())))))"

definition sequential_reads_stress ::
  "profile \<Rightarrow> 'p peer_move \<Rightarrow> u8 list \<Rightarrow> 'p AtlasClient \<Rightarrow> unit exec" where
  "sequential_reads_stress p svc path client =
     expect_call (client_open [svc] path O_RDONLY client) (\<lambda>vfd client.
     and_then (fold_exec (\<lambda>st i. case st of (buf, client) \<Rightarrow>
       expect_call (client_read p [] [svc] vfd buf 0 client) (\<lambda>x client. case x of (n, buf) \<Rightarrow>
       and_then (assert_that (n = 4096)) (\<lambda>_.
       and_then (if is_power_of_two (of_nat i) then assert_that (list_all (\<lambda>b. b = 0xAB) buf) else Inr ()) (\<lambda>_.
       Inr (buf, client))))) (replicate 4096 0, client) [0..<100000]) (\<lambda>st.
     drop_call (client_close [svc] vfd (snd st)) (\<lambda>_. Inr ())))"

definition sequential_writes_stress ::
  "profile \<Rightarrow> 'p peer_move \<Rightarrow> u8 list \<Rightarrow> 'p AtlasClient \<Rightarrow> unit exec" where
  "sequential_writes_stress p svc path client =
     expect_call (client_open [svc] path (O_CREAT OR O_RDWR) client) (\<lambda>vfd client.
     let data = replicate 4096 0xCD in
     and_then (fold_exec (\<lambda>client i.
       expect_call (client_write p [] [svc] vfd data 0 client) (\<lambda>n client.
       and_then (assert_that (n = 4096)) (\<lambda>_. Inr client))) client [0..<100000 :: nat]) (\<lambda>client.
     drop_call (client_close [svc] vfd client) (\<lambda>_. Inr ())))"

definition fsync_roundtrip :: "'p peer_move \<Rightarrow> u8 list \<Rightarrow> 'p AtlasClient \<Rightarrow> unit exec" where
  "fsync_roundtrip svc path client =
     expect_call (client_open [svc] path O_RDWR client) (\<lambda>vfd client.
     expect_call (client_sync [svc] vfd client) (\<lambda>_ client.
     drop_call (client_close [svc] vfd client) (\<lambda>_. Inr ())))"

section \<open>They pass\<close>

lemma test_flags:
  "plain_flags O_RDONLY" "plain_flags O_RDWR" "plain_flags (O_CREAT OR O_RDWR)"
  "plain_flags (O_WRONLY OR O_CREAT OR O_TRUNC)" "can_read O_RDONLY" "can_read O_RDWR" "can_write (O_CREAT OR O_RDWR)"
  "can_write (O_WRONLY OR O_CREAT OR O_TRUNC)" "(O_WRONLY OR O_CREAT OR O_TRUNC) AND O_CREAT \<noteq> 0"
  "(O_WRONLY OR O_CREAT OR O_TRUNC) AND O_TRUNC \<noteq> 0" "(O_CREAT OR O_RDWR) AND O_CREAT \<noteq> 0"
  "O_RDONLY AND O_TRUNC = 0" "O_RDWR AND O_TRUNC = 0"
  by (simp_all add: plain_flags_def can_read_def can_write_def O_RDONLY_def O_WRONLY_def O_RDWR_def O_CREAT_def
      O_TRUNC_def)

lemma opened_file:
  "fv_open (file_opened path flags fd i v) fd = Some (i, flags)"
  "fv_names (file_opened path flags fd i v) path = Some i"
  "fv_names v path = None \<or> flags AND O_TRUNC \<noteq> 0 \<Longrightarrow> fv_data (file_opened path flags fd i v) i = []"
  "fv_names v path = Some i \<Longrightarrow> flags AND O_TRUNC = 0 \<Longrightarrow> fv_data (file_opened path flags fd i v) = fv_data v"
  by (auto simp: file_opened_def)

lemma overwrite_whole:
  "overwrite [] 0 data = data"
  "length data = length bs \<Longrightarrow> overwrite bs 0 data = data"
  by (simp_all add: overwrite_def)

lemma opens_known: "opens_file path i v \<Longrightarrow> fv_names v path = Some f \<Longrightarrow> i = f"
  by (simp add: opens_file_def)

text \<open>Opening a file that is there, without \<open>O_TRUNC\<close>.\<close>

lemma open_known_file:
  assumes L: "file_directory L seg set_seg fs paths room"
    and Pl: "lone_stage (pl_add Pl) (pl_is_empty Pl) (pl_drain Pl) held invar"
    and r: "serving_files k Pl invar fs ac v fds nf"
    and path: "path \<in> paths" "good_path path" "plain_flags flags" "flags AND O_TRUNC = 0" "fv_names v path = Some f"
    and room: "card (dom (fv_open v)) < room" and nf: "unat nf < 2 ^ 64 - 1"
  obtains ac' rfd v' where
    "client_open [service_move p (PosixExecutor L) Pl k seg set_seg] path flags ac = Inr (Inr nf, ac', [])"
    "serving_files k Pl invar fs ac' v' (fds(nf \<mapsto> rfd)) (nf + 1)"
    "fv_open v' rfd = Some (f, flags)" "fv_data v' = fv_data v"
proof (rule file_open_call [OF L Pl r path(1-3) _ room nf])
  show "fv_names v path \<noteq> None \<or> flags AND O_CREAT \<noteq> 0" using path(5) by simp
next
  fix ac' rfd i
  assume o: "client_open [service_move p (PosixExecutor L) Pl k seg set_seg] path flags ac = Inr (Inr nf, ac', [])"
    "serving_files k Pl invar fs ac' (file_opened path flags rfd i v) (fds(nf \<mapsto> rfd)) (nf + 1)"
    "opens_file path i v"
  have "i = f" using o(3) path(5) by (rule opens_known)
  with o(1,2) path(4,5) opened_file show thesis by (intro that [of ac' "file_opened path flags rfd i v" rfd]) auto
qed

lemma open_then_close_passes:
  assumes L: "file_directory L seg set_seg fs paths room"
    and Pl: "lone_stage (pl_add Pl) (pl_is_empty Pl) (pl_drain Pl) held invar"
    and r: "serving_files k Pl invar fs ac v fds 1" and path: "path \<in> paths" "good_path path" "fv_names v path = Some f"
    and room: "card (dom (fv_open v)) < room"
  shows "open_then_close_roundtrip (service_move p (PosixExecutor L) Pl k seg set_seg) path ac = Inr ()"
proof -
  let ?svc = "service_move p (PosixExecutor L) Pl k seg set_seg"
  obtain a rfd w where o: "client_open [?svc] path O_RDONLY ac = Inr (Inr 1, a, [])"
    "serving_files k Pl invar fs a w (fds(1 \<mapsto> rfd)) (1 + 1)" "fv_open w rfd = Some (f, O_RDONLY)"
    by (rule open_known_file [OF L Pl r path(1,2) test_flags(1,12) path(3) room]) simp_all
  have fd: "(fds(1 \<mapsto> rfd)) 1 = Some rfd" "fv_open w rfd \<noteq> None" using o(3) by simp_all
  obtain b where "client_close [?svc] 1 a = Inr (Inr (), b, [])" by (rule file_close_call [OF L Pl o(2) fd])
  with o(1) show ?thesis by (simp add: open_then_close_roundtrip_def)
qed

lemma fsync_roundtrip_passes:
  assumes L: "file_directory L seg set_seg fs paths room"
    and Pl: "lone_stage (pl_add Pl) (pl_is_empty Pl) (pl_drain Pl) held invar"
    and r: "serving_files k Pl invar fs ac v fds 1" and path: "path \<in> paths" "good_path path" "fv_names v path = Some f"
    and room: "card (dom (fv_open v)) < room"
  shows "fsync_roundtrip (service_move p (PosixExecutor L) Pl k seg set_seg) path ac = Inr ()"
proof -
  let ?svc = "service_move p (PosixExecutor L) Pl k seg set_seg"
  obtain a rfd w where o: "client_open [?svc] path O_RDWR ac = Inr (Inr 1, a, [])"
    "serving_files k Pl invar fs a w (fds(1 \<mapsto> rfd)) (1 + 1)" "fv_open w rfd = Some (f, O_RDWR)"
    by (rule open_known_file [OF L Pl r path(1,2) test_flags(2,13) path(3) room]) simp_all
  have fd: "(fds(1 \<mapsto> rfd)) 1 = Some rfd" "fv_open w rfd \<noteq> None" using o(3) by simp_all
  obtain b where s: "client_sync [?svc] 1 a = Inr (Inr (), b, [])" "serving_files k Pl invar fs b w (fds(1 \<mapsto> rfd)) (1 + 1)"
    by (rule file_sync_call [OF L Pl o(2) fd])
  obtain c where "client_close [?svc] 1 b = Inr (Inr (), c, [])" by (rule file_close_call [OF L Pl s(2) fd])
  with o(1) s(1) show ?thesis by (simp add: fsync_roundtrip_def)
qed

lemma region_fits: "4096 \<le> unat DATA_REGION_SIZE"
  by (simp add: DATA_REGION_SIZE_def)

text \<open>Reading a whole file into a buffer of its size.\<close>

lemma read_whole_file:
  assumes L: "file_directory L seg set_seg fs paths room"
    and Pl: "lone_stage (pl_add Pl) (pl_is_empty Pl) (pl_drain Pl) held invar"
    and r: "serving_files k Pl invar fs ac v fds nf"
    and fd: "fds fd = Some rfd" "fv_open v rfd = Some (i, flags)" "can_read flags"
    and buf: "length buf = length (fv_data v i)" "length buf \<le> 4096"
  obtains ac' where "client_read p [] [service_move p (PosixExecutor L) Pl k seg set_seg] fd buf 0 ac =
      Inr (Inr (length buf, fv_data v i), ac', [])"
    "serving_files k Pl invar fs ac' v fds nf"
proof -
  have fit: "length buf \<le> unat DATA_REGION_SIZE" "unat (0 :: u64) + length buf < 2 ^ 63"
    using buf(2) region_fits by simp_all
  have data: "fv_data v i = take (length buf) (drop (unat (0 :: u64)) (fv_data v i))" using buf(1) by simp
  show thesis
    by (rule file_read_call [OF L Pl r fd fit data, where p = p]) (rule that, simp_all add: buf(1))
qed

lemma single_read_passes:
  assumes L: "file_directory L seg set_seg fs paths room"
    and Pl: "lone_stage (pl_add Pl) (pl_is_empty Pl) (pl_drain Pl) held invar"
    and r: "serving_files k Pl invar fs ac v fds 1" and path: "path \<in> paths" "good_path path" "fv_names v path = Some f"
    and room: "card (dom (fv_open v)) < room"
    and data: "fv_data v f = ascii ''abcdefghij''"
  shows "single_read_returns_file_contents p (service_move p (PosixExecutor L) Pl k seg set_seg) path ac = Inr ()"
proof -
  let ?svc = "service_move p (PosixExecutor L) Pl k seg set_seg"
  obtain a rfd w where o: "client_open [?svc] path O_RDONLY ac = Inr (Inr 1, a, [])"
    "serving_files k Pl invar fs a w (fds(1 \<mapsto> rfd)) (1 + 1)" "fv_open w rfd = Some (f, O_RDONLY)" "fv_data w = fv_data v"
    by (rule open_known_file [OF L Pl r path(1,2) test_flags(1,12) path(3) room]) simp_all
  have fd: "(fds(1 \<mapsto> rfd)) 1 = Some rfd" "fv_open w rfd \<noteq> None" using o(3) by simp_all
  have len: "length (replicate 10 0 :: u8 list) = length (fv_data w f)" "length (replicate 10 0 :: u8 list) \<le> 4096"
    by (simp_all add: o(4) data ascii_def)
  obtain b where s: "client_read p [] [?svc] 1 (replicate 10 0) 0 a =
      Inr (Inr (length (replicate 10 (0 :: u8)), fv_data w f), b, [])"
    "serving_files k Pl invar fs b w (fds(1 \<mapsto> rfd)) (1 + 1)"
    by (rule read_whole_file [OF L Pl o(2) fd(1) o(3) test_flags(5) len])
  obtain c where c: "client_close [?svc] 1 b = Inr (Inr (), c, [])" by (rule file_close_call [OF L Pl s(2) fd])
  show ?thesis
    unfolding single_read_returns_file_contents_def call_simps(1) [OF o(1)] call_simps(1) [OF s(1)]
    by (simp add: o(4) data c)
qed

lemma sequential_reads_pass:
  assumes L: "file_directory L seg set_seg fs paths room"
    and Pl: "lone_stage (pl_add Pl) (pl_is_empty Pl) (pl_drain Pl) held invar"
    and r: "serving_files k Pl invar fs ac v fds 1" and path: "path \<in> paths" "good_path path" "fv_names v path = Some f"
    and room: "card (dom (fv_open v)) < room"
    and data: "fv_data v f = replicate 4096 0xAB"
  shows "sequential_reads_stress p (service_move p (PosixExecutor L) Pl k seg set_seg) path ac = Inr ()"
proof -
  let ?svc = "service_move p (PosixExecutor L) Pl k seg set_seg"
  obtain a rfd w where o: "client_open [?svc] path O_RDONLY ac = Inr (Inr 1, a, [])"
    "serving_files k Pl invar fs a w (fds(1 \<mapsto> rfd)) (1 + 1)" "fv_open w rfd = Some (f, O_RDONLY)" "fv_data w = fv_data v"
    by (rule open_known_file [OF L Pl r path(1,2) test_flags(1,12) path(3) room]) simp_all
  have fd: "(fds(1 \<mapsto> rfd)) 1 = Some rfd" "fv_open w rfd \<noteq> None" using o(3) by simp_all
  have all: "list_all (\<lambda>b. b = 0xAB) (fv_data w f)" "length (fv_data w f) = 4096" by (simp_all add: o(4) data list_all_iff)
  let ?P = "\<lambda>st. length (fst st) = 4096 \<and> serving_files k Pl invar fs (snd st) w (fds(1 \<mapsto> rfd)) (1 + 1)"
  let ?body = "\<lambda>st i. case st of (buf, client) \<Rightarrow>
       expect_call (client_read p [] [?svc] 1 buf 0 client) (\<lambda>x client. case x of (n, buf) \<Rightarrow>
       and_then (assert_that (n = 4096)) (\<lambda>_.
       and_then (if is_power_of_two (of_nat i) then assert_that (list_all (\<lambda>b. b = 0xAB) buf) else Inr ()) (\<lambda>_.
       Inr (buf, client))))"
  have "\<exists>t. fold_exec ?body (replicate 4096 0, a) [0..<100000] = Inr t \<and> ?P t"
  proof (rule fold_exec_total)
    fix i :: nat and st :: "u8 list \<times> _" assume P: "?P st"
    obtain buf client where st: "st = (buf, client)" by (rule prod.exhaust)
    have len: "length buf = length (fv_data w f)" "length buf \<le> 4096" and
      on: "serving_files k Pl invar fs client w (fds(1 \<mapsto> rfd)) (1 + 1)" using P all(2) by (simp_all add: st)
    obtain b where s: "client_read p [] [?svc] 1 buf 0 client = Inr (Inr (length buf, fv_data w f), b, [])"
      "serving_files k Pl invar fs b w (fds(1 \<mapsto> rfd)) (1 + 1)"
      by (rule read_whole_file [OF L Pl on fd(1) o(3) test_flags(5) len])
    have "?body st i = Inr (fv_data w f, b)"
      unfolding st prod.case call_simps(1) [OF s(1)] by (simp add: all len(1))
    with s(2) all(2) show "\<exists>t. ?body st i = Inr t \<and> ?P t" by simp
  qed (use o(2) in simp)
  then obtain t where t: "fold_exec ?body (replicate 4096 0, a) [0..<100000] = Inr t" "?P t" by blast
  obtain c where c: "client_close [?svc] 1 (snd t) = Inr (Inr (), c, [])"
    by (rule file_close_call [OF L Pl conjunct2 [OF t(2)] fd])
  show ?thesis
    unfolding sequential_reads_stress_def call_simps(1) [OF o(1)] t(1) and_then_simps call_simps(2) [OF c] ..
qed

lemma sequential_writes_pass:
  assumes L: "file_directory L seg set_seg fs paths room"
    and Pl: "lone_stage (pl_add Pl) (pl_is_empty Pl) (pl_drain Pl) held invar"
    and r: "serving_files k Pl invar fs ac v fds 1" and path: "path \<in> paths" "good_path path"
    and room: "card (dom (fv_open v)) < room"
  shows "sequential_writes_stress p (service_move p (PosixExecutor L) Pl k seg set_seg) path ac = Inr ()"
proof -
  let ?svc = "service_move p (PosixExecutor L) Pl k seg set_seg" and ?data = "replicate 4096 0xCD :: u8 list"
  have cr: "fv_names v path \<noteq> None \<or> (O_CREAT OR O_RDWR) AND O_CREAT \<noteq> 0" and nf: "unat (1 :: u64) < 2 ^ 64 - 1"
    using test_flags(11) by (blast, simp)
  obtain a rfd i where o: "client_open [?svc] path (O_CREAT OR O_RDWR) ac = Inr (Inr 1, a, [])"
    "serving_files k Pl invar fs a (file_opened path (O_CREAT OR O_RDWR) rfd i v) (fds(1 \<mapsto> rfd)) (1 + 1)"
    by (rule file_open_call [OF L Pl r path test_flags(3) cr room nf])
  have tab: "(fds(1 \<mapsto> rfd)) 1 = Some rfd" by simp
  let ?P = "\<lambda>c. \<exists>u. serving_files k Pl invar fs c u (fds(1 \<mapsto> rfd)) (1 + 1) \<and> fv_open u rfd = Some (i, O_CREAT OR O_RDWR)"
  let ?body = "\<lambda>client i. expect_call (client_write p [] [?svc] 1 ?data 0 client) (\<lambda>n client.
      and_then (assert_that (n = 4096)) (\<lambda>_. Inr client))"
  have "\<exists>t. fold_exec ?body a [0..<100000 :: nat] = Inr t \<and> ?P t"
  proof (rule fold_exec_total)
    fix n :: nat and c assume "?P c"
    then obtain u where u: "serving_files k Pl invar fs c u (fds(1 \<mapsto> rfd)) (1 + 1)"
      "fv_open u rfd = Some (i, O_CREAT OR O_RDWR)" by blast
    have fit: "length ?data \<le> unat DATA_REGION_SIZE" "unat (0 :: u64) + length ?data < 2 ^ 63"
      using region_fits by simp_all
    obtain d where d: "client_write p [] [?svc] 1 ?data 0 c = Inr (Inr (of_nat (length ?data)), d, [])"
      "serving_files k Pl invar fs d (u\<lparr>fv_data := (fv_data u)(i := overwrite (fv_data u i) (unat (0 :: u64)) ?data)\<rparr>)
        (fds(1 \<mapsto> rfd)) (1 + 1)"
      by (rule file_write_call [OF L Pl u(1) tab u(2) test_flags(7) fit])
    have "?body c n = Inr d" unfolding call_simps(1) [OF d(1)] by simp
    moreover have "?P d" by (rule exI, rule conjI, rule d(2)) (simp add: u(2))
    ultimately show "\<exists>t. ?body c n = Inr t \<and> ?P t" by blast
  next
    show "?P a" by (rule exI, rule conjI, rule o(2)) (rule opened_file)
  qed
  then obtain t u where t: "fold_exec ?body a [0..<100000 :: nat] = Inr t"
    "serving_files k Pl invar fs t u (fds(1 \<mapsto> rfd)) (1 + 1)" "fv_open u rfd \<noteq> None" by force
  obtain c where c: "client_close [?svc] 1 t = Inr (Inr (), c, [])" by (rule file_close_call [OF L Pl t(2) tab t(3)])
  show ?thesis
    unfolding sequential_writes_stress_def call_simps(1) [OF o(1)] Let_def t(1) and_then_simps call_simps(2) [OF c] ..
qed

lemma single_instance_passes:
  assumes L: "file_directory L seg set_seg fs paths room"
    and Pl: "lone_stage (pl_add Pl) (pl_is_empty Pl) (pl_drain Pl) held invar"
    and r: "serving_files k Pl invar fs ac v fds 1" and path: "path \<in> paths" "good_path path"
    and room: "card (dom (fv_open v)) < room"
  shows "single_instance_write_read p (service_move p (PosixExecutor L) Pl k seg set_seg) path ac = Inr ()"
proof -
  let ?svc = "service_move p (PosixExecutor L) Pl k seg set_seg" and ?data = "ascii ''Hello, Atlas I/O Service!''"
  let ?fl = "O_WRONLY OR O_CREAT OR O_TRUNC"
  have cr: "fv_names v path \<noteq> None \<or> ?fl AND O_CREAT \<noteq> 0" and nf: "unat (1 :: u64) < 2 ^ 64 - 1"
    "unat (1 + 1 :: u64) < 2 ^ 64 - 1" using test_flags(9) by (blast, simp_all)
  have len: "length ?data = 25" by (simp add: ascii_def)
  obtain a rfd i where o: "client_open [?svc] path ?fl ac = Inr (Inr 1, a, [])"
    "serving_files k Pl invar fs a (file_opened path ?fl rfd i v) (fds(1 \<mapsto> rfd)) (1 + 1)"
    "fv_open v rfd = None"
    by (rule file_open_call [OF L Pl r path test_flags(4) cr room nf(1)])
  let ?u = "file_opened path ?fl rfd i v"
  have u: "fv_open ?u rfd = Some (i, ?fl)" "fv_names ?u path = Some i" "fv_data ?u i = []"
    using opened_file test_flags(10) by simp_all
  have tab: "(fds(1 \<mapsto> rfd)) 1 = Some rfd" by simp
  have fit: "length ?data \<le> unat DATA_REGION_SIZE" "unat (0 :: u64) + length ?data < 2 ^ 63"
    using region_fits len by simp_all
  let ?w = "?u\<lparr>fv_data := (fv_data ?u)(i := overwrite (fv_data ?u i) (unat (0 :: u64)) ?data)\<rparr>"
  obtain b where b: "client_write p [] [?svc] 1 ?data 0 a = Inr (Inr (of_nat (length ?data)), b, [])"
    "serving_files k Pl invar fs b ?w (fds(1 \<mapsto> rfd)) (1 + 1)"
    by (rule file_write_call [OF L Pl o(2) tab u(1) test_flags(8) fit])
  have w: "fv_open ?w rfd \<noteq> None" "fv_names ?w path = Some i" "fv_data ?w i = ?data"
    using u overwrite_whole(1) by simp_all
  obtain c where c: "client_sync [?svc] 1 b = Inr (Inr (), c, [])" "serving_files k Pl invar fs c ?w (fds(1 \<mapsto> rfd)) (1 + 1)"
    by (rule file_sync_call [OF L Pl b(2) tab w(1)])
  let ?x = "?w\<lparr>fv_open := (fv_open ?w)(rfd := None)\<rparr>" and ?fds = "(fds(1 \<mapsto> rfd))(1 := None)"
  obtain d where d: "client_close [?svc] 1 c = Inr (Inr (), d, [])" "serving_files k Pl invar fs d ?x ?fds (1 + 1)"
    by (rule file_close_call [OF L Pl c(2) tab w(1)])
  have "fv_open ?x = fv_open v" using o(3) by (simp add: file_opened_def fun_upd_idem)
  then have x: "fv_names ?x path = Some i" "fv_data ?x i = ?data" "card (dom (fv_open ?x)) < room"
    using w(2,3) room by simp_all
  obtain e rfd' y where e: "client_open [?svc] path O_RDONLY d = Inr (Inr (1 + 1), e, [])"
    "serving_files k Pl invar fs e y (?fds(1 + 1 \<mapsto> rfd')) (1 + 1 + 1)" "fv_open y rfd' = Some (i, O_RDONLY)"
    "fv_data y = fv_data ?x"
    by (rule open_known_file [OF L Pl d(2) path test_flags(1,12) x(1,3) nf(2)])
  have tab': "(?fds(1 + 1 \<mapsto> rfd')) (1 + 1) = Some rfd'" "fv_open y rfd' \<noteq> None" using e(3) by simp_all
  let ?buf = "replicate 64 0 :: u8 list"
  have fit': "length ?buf \<le> unat DATA_REGION_SIZE" "unat (0 :: u64) + length ?buf < 2 ^ 63"
    using region_fits by simp_all
  have got: "?data = take (length ?buf) (drop (unat (0 :: u64)) (fv_data y i))" unfolding e(4) x(2) by (simp add: len)
  obtain g where g: "client_read p [] [?svc] (1 + 1) ?buf 0 e = Inr (Inr (length ?data, ?data @ drop (length ?data) ?buf), g, [])"
    "serving_files k Pl invar fs g y (?fds(1 + 1 \<mapsto> rfd')) (1 + 1 + 1)"
    by (rule file_read_call [OF L Pl e(2) tab'(1) e(3) test_flags(5) fit' got])
  obtain h where h: "client_close [?svc] (1 + 1) g = Inr (Inr (), h, [])" by (rule file_close_call [OF L Pl g(2) tab'])
  show ?thesis
    unfolding single_instance_write_read_def Let_def call_simps(1) [OF o(1)] call_simps(1) [OF b(1)] call_simps(1) [OF c(1)]
      call_simps(1) [OF d(1)] call_simps(1) [OF e(1)] call_simps(1) [OF g(1)] call_simps(1) [OF h]
    by (simp add: call_simps(1) [OF c(1)] call_simps(1) [OF d(1)] call_simps(1) [OF e(1)] call_simps(1) [OF g(1)]
        call_simps(1) [OF h] del: One_nat_def)
qed

section \<open>The property\<close>

text \<open>Setup fails because a system call was refused: a step of it returned the error number (\<open>connect\<close>: its
  timeout that names the last one), on which the test's \<open>expect\<close> panics.\<close>

definition setup_refused :: "'s ShmOs \<Rightarrow> u32 \<Rightarrow> 's \<Rightarrow> bool" where
  "setup_refused os i s \<longleftrightarrow>
     (case AtlasClient_prepare os i (cleanup_shm os i s) of
        Inr (Inl e, _) \<Rightarrow> \<exists>n. e = Raw_Os n
      | Inr (Inr pc, s1) \<Rightarrow>
          (case ServiceChannel_join os i s1 of
             Inr (Inl e, _) \<Rightarrow> \<exists>n. e = Raw_Os n
           | Inr (Inr se, s2) \<Rightarrow>
               (case AtlasClient_connect os (\<lambda>_ s. s) pc s2 of
                  Inr (Inl e, _) \<Rightarrow> \<exists>n. e = Join_Timeout (Some (Inl n))
                | _ \<Rightarrow> False)
           | _ \<Rightarrow> False)
      | _ \<Rightarrow> False)"

lemma start_service_fails:
  assumes "shm_contract os view" "start_service os i s = Inl e"
  shows "e = Assertion \<and> setup_refused os i s"
proof -
  note steps = startup_steps [OF assms(1) quiet_id quiet_id, of i "cleanup_shm os i s"]
  note un = start_service_def setup_refused_def AtlasClient_prepare_def AtlasClient_connect_def unwrap_def
  obtain r1 s1 where prepare: "PreparedChannel_create os i (cleanup_shm os i s) = Inr (r1, s1)"
    using steps by (auto split: sum.splits)
  show ?thesis
  proof (cases r1)
    case (Inl e1)
    then show ?thesis using steps assms(2) by (auto simp: un prepare)
  next
    case prepared: (Inr pc)
    obtain r2 s2 where join: "ServiceChannel_join os i s1 = Inr (r2, s2)"
      using steps by (auto simp: prepare prepared split: sum.splits)
    show ?thesis
    proof (cases r2)
      case (Inl e2)
      then show ?thesis using steps assms(2) by (auto simp: un prepare prepared join)
    next
      case joined: (Inr se)
      obtain r3 s3 where connect: "PreparedChannel_connect os (\<lambda>_ s. s) pc s2 = Inr (r3, s3)"
        using steps by (auto simp: prepare prepared join joined split: sum.splits)
      show ?thesis
        using steps assms(2) by (cases r3) (auto simp: un prepare prepared join joined connect)
    qed
  qed
qed

text \<open>C9. The end-to-end tests with one client pass: take any system that keeps the shared-memory contract and
  any C library that keeps POSIX on a directory of regular files. Starting the client and the service either
  stops at the test's \<open>expect\<close> because the operating system refused one of the calls, or it succeeds, and
  then the client of the fresh service writes a file and reads it back, and makes its 100000 writes, each call
  with the result that the test asserts; where the file is there, it is opened, synced and closed; and where
  it holds what the test wrote, a read and each of 100000 reads return these bytes. No call fails, waits
  for ever or panics.\<close>

theorem end_to_end_tests_pass:
  assumes "shm_contract os view" "length bytes = unat DATA_REGION_SIZE"
    and "file_directory L seg set_seg fs paths room" "path \<in> paths" "good_path path"
    and "card (dom (fv_open (fs w))) < room"
  shows "case start_service os i s of
      Inl e \<Rightarrow> e = Assertion \<and> setup_refused os i s
    | Inr (ce, se, s') \<Rightarrow>
        (let client = started_client ce se (view s') bytes w; svc = posix_service p L seg set_seg in
         single_instance_write_read p svc path client = Inr () \<and>
         sequential_writes_stress p svc path client = Inr () \<and>
         (\<forall>f. fv_names (fs w) path = Some f \<longrightarrow>
            open_then_close_roundtrip svc path client = Inr () \<and> fsync_roundtrip svc path client = Inr () \<and>
            (fv_data (fs w) f = ascii ''abcdefghij'' \<longrightarrow>
              single_read_returns_file_contents p svc path client = Inr ()) \<and>
            (fv_data (fs w) f = replicate 4096 0xAB \<longrightarrow> sequential_reads_stress p svc path client = Inr ())))"
proof (cases "start_service os i s")
  case (Inl e)
  with start_service_fails [OF assms(1) Inl] show ?thesis by simp
next
  case (Inr res)
  obtain ce se s' where res: "res = (ce, se, s')" by (cases res)
  note r = started_serving [OF start_service_connected [OF assms(1) Inr [unfolded res]] assms(2), where fs = fs and w = w]
  note L = assms(3) and Pl = lone_pass_through and path = assms(4,5) and room = assms(6)
  show ?thesis
    unfolding Inr res sum.case prod.case Let_def
    using single_instance_passes [OF L Pl r path room] sequential_writes_pass [OF L Pl r path room]
      open_then_close_passes [OF L Pl r path _ room] fsync_roundtrip_passes [OF L Pl r path _ room]
      single_read_passes [OF L Pl r path _ room] sequential_reads_pass [OF L Pl r path _ room]
    by blast
qed

lemma toy_start_service: "start_service toy 5 toy_start = Inr (toy_ce, toy_se, toy_connected)"
  using toy_setup by (simp add: start_service_def setup_pair_def AtlasClient_prepare_def AtlasClient_connect_def)

theorem end_to_end_tests_pass_witness:
  "let w = \<lparr>dw_segs = (\<lambda>_. []), dw_names = [(ascii ''a.dat'', 1)],
       dw_data = (\<lambda>_. ascii ''abcdefghij''), dw_open = []\<rparr>;
     client = started_client toy_ce toy_se (toy_view toy_connected) (replicate (unat DATA_REGION_SIZE) 0) w;
     svc = posix_service Debug dw_libc dw_segs dw_set_seg in
   single_instance_write_read Debug svc (ascii ''a.dat'') client = Inr () \<and>
   sequential_writes_stress Debug svc (ascii ''a.dat'') client = Inr () \<and>
   open_then_close_roundtrip svc (ascii ''a.dat'') client = Inr () \<and>
   single_read_returns_file_contents Debug svc (ascii ''a.dat'') client = Inr ()"
proof -
  let ?w = "\<lparr>dw_segs = (\<lambda>_. []), dw_names = [(ascii ''a.dat'', 1)],
       dw_data = (\<lambda>_. ascii ''abcdefghij''), dw_open = []\<rparr>"
  have len: "length (replicate (unat DATA_REGION_SIZE) (0 :: u8)) = unat DATA_REGION_SIZE" by (rule length_replicate)
  have path: "ascii ''a.dat'' \<in> {ascii ''a.dat''}" "good_path (ascii ''a.dat'')"
    by (simp, unfold good_path_def ascii_def, code_simp)
  have w: "card (dom (fv_open (dw_view ?w))) < 16" "fv_names (dw_view ?w) (ascii ''a.dat'') = Some 1"
    "fv_data (dw_view ?w) 1 = ascii ''abcdefghij''" by (simp_all add: dw_view_def)
  note all = end_to_end_tests_pass [where fs = dw_view and w = ?w and p = Debug and path = "ascii ''a.dat''"
      and paths = "{ascii ''a.dat''}" and i = 5 and s = toy_start, OF toy_contract len dw_directory path w(1),
      unfolded toy_start_service sum.case prod.case Let_def]
  note there = conjunct2 [OF conjunct2 [OF all], rule_format, OF w(2)]
  note read = conjunct1 [OF conjunct2 [OF conjunct2 [OF there]], rule_format, OF w(3)]
  show ?thesis
    unfolding Let_def by (intro conjI conjunct1 [OF all] conjunct1 [OF conjunct2 [OF all]] conjunct1 [OF there] read)
qed

end
