(* ===== verification/Region_Memory.thy ===== *)
theory Region_Memory
  imports Channel_Tests
begin

text \<open>
  The bytes of a data region that is mapped more than once: what one mapping stores the others show. With
  it the test \<open>join_sees_written_data\<close> of \<open>atlas-client/src/channel.rs\<close>, which maps an object twice.
\<close>

section \<open>Mapped bytes\<close>

text \<open>The bytes that a mapping of the region's size shows, and storing them.\<close>

record 's RegionMem =
  rg_at :: "'s \<Rightarrow> usize \<Rightarrow> u8 list"
  rg_put :: "usize \<Rightarrow> u8 list \<Rightarrow> 's \<Rightarrow> 's"

text \<open>\<open>MAP_SHARED\<close>: all mappings of an object show its bytes, a store goes to the object and changes no
  name and no mapping; the system calls change no bytes.\<close>

definition region_law :: "'s ShmOs \<Rightarrow> ('s \<Rightarrow> shm_view) \<Rightarrow> 's RegionMem \<Rightarrow> ('s \<Rightarrow> nat \<Rightarrow> u8 list) \<Rightarrow> bool" where
  "region_law os view rg bytes \<longleftrightarrow>
     (\<forall>s p x. v_maps (view s) p = Some x \<longrightarrow> rg_at rg s p = bytes s x \<and>
        (\<forall>m. length m = length (bytes s x) \<longrightarrow> bytes (rg_put rg p m s) = (bytes s)(x := m) \<and>
           v_names (view (rg_put rg p m s)) = v_names (view s) \<and>
           v_maps (view (rg_put rg p m s)) = v_maps (view s))) \<and>
     (\<forall>n c s. bytes (snd (os_open os n c s)) = bytes s) \<and> (\<forall>fd sz s. bytes (snd (os_mmap os fd sz s)) = bytes s)"

lemma region_lawD:
  assumes "region_law os view rg bytes"
  shows "v_maps (view s) p = Some x \<Longrightarrow> rg_at rg s p = bytes s x"
    and "v_maps (view s) p = Some x \<Longrightarrow> length m = length (bytes s x) \<Longrightarrow>
      bytes (rg_put rg p m s) = (bytes s)(x := m) \<and> v_names (view (rg_put rg p m s)) = v_names (view s) \<and>
      v_maps (view (rg_put rg p m s)) = v_maps (view s)"
    and "os_open os n c s = (r, s') \<Longrightarrow> bytes s' = bytes s"
    and "os_mmap os fd sz s = (q, s') \<Longrightarrow> bytes s' = bytes s"
proof -
  show "v_maps (view s) p = Some x \<Longrightarrow> rg_at rg s p = bytes s x"
    and "v_maps (view s) p = Some x \<Longrightarrow> length m = length (bytes s x) \<Longrightarrow>
      bytes (rg_put rg p m s) = (bytes s)(x := m) \<and> v_names (view (rg_put rg p m s)) = v_names (view s) \<and>
      v_maps (view (rg_put rg p m s)) = v_maps (view s)"
    using assms unfolding region_law_def by blast+
  show "os_open os n c s = (r, s') \<Longrightarrow> bytes s' = bytes s" "os_mmap os fd sz s = (q, s') \<Longrightarrow> bytes s' = bytes s"
    using assms unfolding region_law_def by (metis snd_conv)+
qed

text \<open>A mapped region as the client's data region.\<close>

definition region_at :: "'s RegionMem \<Rightarrow> 's \<Rightarrow> MappedRegion \<Rightarrow> DataRegion" where
  "region_at rg s mr = \<lparr>dr_mem = rg_at rg s (mr_ptr mr), dr_len = mr_len mr, dr_offset = mr_offset mr\<rparr>"

section \<open>The test\<close>

text \<open>The part before the second mapping, and the whole.\<close>

definition write_share :: "'s ShmOs \<Rightarrow> 's RegionMem \<Rightarrow> string \<Rightarrow> 's \<Rightarrow> (MappedRegion \<times> u32 \<times> 's) exec" where
  "write_share os rg name s =
     and_then (DataRegion_create os name s) (\<lambda>res. case res of (r, s) \<Rightarrow>
     and_then (unwrap r) (\<lambda>mr.
     and_then (alloc Debug 5 [] (region_at rg s mr)) (\<lambda>res. case res of (off, dr) \<Rightarrow>
     and_then (dr_write off (ascii ''share'') dr) (\<lambda>dr.
     Inr (mr, off, rg_put rg (mr_ptr mr) (dr_mem dr) s)))))"

definition test_join_sees_written_data :: "'s ShmOs \<Rightarrow> 's RegionMem \<Rightarrow> string \<Rightarrow> 's \<Rightarrow> unit exec" where
  "test_join_sees_written_data os rg name s =
     and_then (write_share os rg name s) (\<lambda>res. case res of (_, off, s) \<Rightarrow>
     and_then (DataRegion_join os name s) (\<lambda>res. case res of (r, s) \<Rightarrow>
     and_then (unwrap r) (\<lambda>mr2.
     and_then (dr_read off 5 (region_at rg s mr2)) (\<lambda>x. assert_that (x = ascii ''share'')))))"

text \<open>A region that has been joined is the one its name stands for, with the bytes that are there.\<close>

lemma join_same_object:
  assumes os: "shm_contract os view" "region_law os view rg bytes" and j: "DataRegion_join os name s = Inr (Inr mr, s')"
    and x: "v_names (view s) name = Some x"
  shows "rg_at rg s' (mr_ptr mr) = bytes s x"
proof -
  from j obtain fd s1 p where o: "os_open os name False s = (Inr fd, s1)" and m: "os_mmap os fd DATA_REGION_SIZE s1 = (Inr p, s')"
    and mr: "mr_ptr mr = p"
    by (auto simp: DataRegion_join_def shm_then_def os_call_def map_shm_sized_def shm_return_def
        split: prod.splits sum.splits if_splits elim!: and_then_InrE)
  from contract_open [OF os(1) o] x have fd: "v_fds (view s1) fd = Some x" by (auto simp: may_open_def)
  from contract_mmap [OF os(1) m] fd have "v_maps (view s') p = Some x" by auto
  then show ?thesis
    using region_lawD(1) [OF os(2)] region_lawD(3) [OF os(2) o] region_lawD(4) [OF os(2) m] mr by simp
qed

lemma create_names:
  assumes "shm_contract os view" "DataRegion_create os name s = Inr (Inr mr, s')"
  shows "\<exists>x. v_names (view s') name = Some x \<and> v_maps (view s') (mr_ptr mr) = Some x"
  using data_create_ends [OF assms(1), of name s] assms(2) by (auto simp: ends_def mapped_at_def)

theorem join_sees_written_data:
  assumes os: "shm_contract os view" "region_law os view rg bytes"
    and w: "write_share os rg name s = Inr (mr, off, s1)" and j: "DataRegion_join os name s1 = Inr (Inr mr2, s2)"
  shows "test_join_sees_written_data os rg name s = Inr ()"
proof -
  from w obtain s0 dr d where c: "DataRegion_create os name s = Inr (Inr mr, s0)"
    and a: "alloc Debug 5 [] (region_at rg s0 mr) = Inr (off, dr)" and d: "dr_write off (ascii ''share'') dr = Inr d"
    and s1: "s1 = rg_put rg (mr_ptr mr) (dr_mem d) s0"
    by (auto simp: write_share_def unwrap_def split: prod.splits sum.splits elim!: and_then_InrE)
  obtain x where x: "v_names (view s0) name = Some x" "v_maps (view s0) (mr_ptr mr) = Some x"
    using create_names [OF os(1) c] by blast
  have "dr_mem dr = dr_mem (region_at rg s0 mr)" using a by (auto simp: alloc_def elim!: and_then_InrE)
  then have "length (dr_mem d) = length (bytes s0 x)"
    using dr_write_spec(2) [OF d] region_lawD(1) [OF os(2) x(2)] by (simp add: region_at_def)
  note put = region_lawD(2) [OF os(2) x(2) this, folded s1]
  have "rg_at rg s2 (mr_ptr mr2) = dr_mem d" using join_same_object [OF os j, of x] put x(1) by simp
  moreover have "length (ascii ''share'') = 5" by (simp add: ascii_def)
  ultimately have "dr_read off 5 (region_at rg s2 mr2) = dr_read off (length (ascii ''share'')) d"
    by (simp only: dr_read_def region_at_def DataRegion.simps)
  then show ?thesis
    using w j dr_write_spec(1) [OF d] by (simp add: test_join_sees_written_data_def)
qed

section \<open>The laws hold of a system\<close>

text \<open>Any operating system of the contract with a store of bytes beside it, in which \<open>ftruncate\<close> gives an
  object its length.\<close>

definition ring_beside :: "('s, 'a) RingMem \<Rightarrow> ('s \<times> 'b, 'a) RingMem" where
  "ring_beside rm = \<lparr>rm_at = (\<lambda>s. rm_at rm (fst s)), rm_put = (\<lambda>p r s. (rm_put rm p r (fst s), snd s)),
     rm_polls = (\<lambda>s. rm_polls rm (fst s))\<rparr>"

definition with_bytes :: "('s \<Rightarrow> shm_view) \<Rightarrow> 's ShmOs \<Rightarrow> ('s \<times> (nat \<Rightarrow> u8 list)) ShmOs" where
  "with_bytes view os =
     \<lparr>os_unlink = (\<lambda>n s. (os_unlink os n (fst s), snd s)),
      os_open = (\<lambda>n c s. case os_open os n c (fst s) of (r, t) \<Rightarrow> (r, t, snd s)),
      os_truncate = (\<lambda>fd sz s. case os_truncate os fd sz (fst s) of (r, t) \<Rightarrow>
        (r, t, case v_fds (view (fst s)) fd of
           None \<Rightarrow> snd s
         | Some x \<Rightarrow> (snd s)(x := take (unat sz) (snd s x @ replicate (unat sz) 0)))),
      os_mmap = (\<lambda>fd sz s. case os_mmap os fd sz (fst s) of (r, t) \<Rightarrow> (r, t, snd s)),
      os_req = ring_beside (os_req os), os_resp = ring_beside (os_resp os)\<rparr>"

definition bytes_memory :: "('s \<Rightarrow> shm_view) \<Rightarrow> ('s \<times> (nat \<Rightarrow> u8 list)) RegionMem" where
  "bytes_memory view =
     \<lparr>rg_at = (\<lambda>s p. case v_maps (view (fst s)) p of None \<Rightarrow> [] | Some x \<Rightarrow> snd s x),
      rg_put = (\<lambda>p m s. case v_maps (view (fst s)) p of None \<Rightarrow> s | Some x \<Rightarrow> (fst s, (snd s)(x := m)))\<rparr>"

lemma ring_memory_beside: "ring_memory view rm ring \<Longrightarrow> ring_memory (view \<circ> fst) (ring_beside rm) ring"
  by (simp add: ring_memory_def ring_beside_def)

lemma with_bytes_contract:
  assumes os: "shm_contract os view"
  shows "shm_contract (with_bytes view os) (view \<circ> fst)"
proof -
  have "open_law (with_bytes view os) (view \<circ> fst)"
    unfolding open_law_def
  proof (intro allI)
    fix n c and s :: "'a \<times> (nat \<Rightarrow> u8 list)"
    obtain r t where o: "os_open os n c (fst s) = (r, t)" by force
    show "case os_open (with_bytes view os) n c s of
         (Inl _, s') \<Rightarrow> (view \<circ> fst) s' = (view \<circ> fst) s
       | (Inr fd, s') \<Rightarrow> \<exists>x. may_open c n ((view \<circ> fst) s) x \<and> (view \<circ> fst) s' = ((view \<circ> fst) s)
           \<lparr>v_names := (v_names ((view \<circ> fst) s))(n \<mapsto> x), v_fds := (v_fds ((view \<circ> fst) s))(fd \<mapsto> x)\<rparr>"
      using contract_open [OF os o] by (simp add: with_bytes_def o split: sum.splits)
  qed
  moreover have "mmap_law (with_bytes view os) (view \<circ> fst)"
    unfolding mmap_law_def
  proof (intro allI)
    fix fd sz and s :: "'a \<times> (nat \<Rightarrow> u8 list)"
    obtain r t where m: "os_mmap os fd sz (fst s) = (r, t)" by force
    show "case os_mmap (with_bytes view os) fd sz s of
         (Inl _, s') \<Rightarrow> (view \<circ> fst) s' = (view \<circ> fst) s
       | (Inr p, s') \<Rightarrow> p mod 128 = 0 \<and> v_maps ((view \<circ> fst) s) p = None \<and>
           (\<exists>x. v_fds ((view \<circ> fst) s) fd = Some x \<and>
             (view \<circ> fst) s' = ((view \<circ> fst) s)\<lparr>v_maps := (v_maps ((view \<circ> fst) s))(p \<mapsto> x)\<rparr>)"
      using contract_mmap [OF os m] by (simp add: with_bytes_def m split: sum.splits)
  qed
  moreover have "put_law (with_bytes view os) (view \<circ> fst)"
    using contract_put [OF os] by (simp add: put_law_def with_bytes_def ring_beside_def)
  moreover have "ring_memory (view \<circ> fst) (os_req (with_bytes view os)) v_req"
    "ring_memory (view \<circ> fst) (os_resp (with_bytes view os)) v_resp"
    using ring_memory_beside [OF contract_rings(1) [OF os]] ring_memory_beside [OF contract_rings(2) [OF os]]
    by (simp_all add: with_bytes_def)
  moreover have "view (fst (snd (os_truncate (with_bytes view os) fd sz s))) = view (fst s)" for fd sz s
    using contract_truncate [OF os, of fd sz "fst s"] by (simp add: with_bytes_def split: prod.split)
  ultimately show ?thesis
    using contract_unlink [OF os] by (simp add: shm_contract_def with_bytes_def)
qed

lemma with_bytes_region: "region_law (with_bytes view os) (view \<circ> fst) (bytes_memory view) snd"
  by (simp add: region_law_def with_bytes_def bytes_memory_def split: prod.split)

end
