(* ===== verification/Call_Sequences.thy ===== *)
theory Call_Sequences
  imports Client_Service
begin

text \<open>
  Any number of calls, one after the other: the client, the rings, the service's loop, its stage and its
  executor together implement a sequential server that answers each request by the specification
  \<open>answer\<close>.
\<close>

section \<open>The abstract server and the system\<close>

text \<open>A call: what the client stores in the region before it, and its request.\<close>

type_synonym region_call = "(u8 list \<Rightarrow> u8 list) \<times> IoRequest"

fun answers ::
  "profile \<Rightarrow> 'w IoExecutor \<Rightarrow> nat \<Rightarrow> ('w \<Rightarrow> nat \<Rightarrow> u8 list) \<Rightarrow> (nat \<Rightarrow> u8 list \<Rightarrow> 'w \<Rightarrow> 'w) \<Rightarrow>
   region_call list \<Rightarrow> 'w core \<Rightarrow> (IoResponse list \<times> 'w core) exec" where
  "answers p E k seg set_seg [] a = Inr ([], a)"
| "answers p E k seg set_seg ((store, r) # calls) (fds, nf, w) =
     and_then (answer p E k r (fds, nf, set_seg k (store (seg w k)) w)) (\<lambda>res.
     and_then (answers p E k seg set_seg calls (snd res)) (\<lambda>rest.
       Inr (fst res # fst rest, snd rest)))"

text \<open>The client's channel with the service as its peer; each call ends within one iteration.\<close>

fun run_calls ::
  "'p peer_move \<Rightarrow> region_call list \<Rightarrow> 'p ClientChannel \<Rightarrow> (IoResponse list \<times> 'p ClientChannel) exec" where
  "run_calls m [] c = Inr ([], c)"
| "run_calls m ((store, r) # calls) c =
     and_then (send_request [m] r (c\<lparr>cc_data := (cc_data c)\<lparr>dr_mem := store (dr_mem (cc_data c))\<rparr>\<rparr>)) (\<lambda>res.
     and_then (run_calls m calls (fst (snd res))) (\<lambda>rest.
       Inr (fst res # fst rest, snd rest)))"

section \<open>The simulation\<close>

text \<open>The service holds the abstract state, the region's bytes are the segment's, and nothing is under way.\<close>

definition implements ::
  "nat \<Rightarrow> 's Pipeline \<Rightarrow> ('s \<Rightarrow> bool) \<Rightarrow> ('w \<Rightarrow> nat \<Rightarrow> u8 list) \<Rightarrow>
   ('w, 's) AtlasService ClientChannel \<Rightarrow> 'w core \<Rightarrow> bool" where
  "implements k Pl invar seg c a \<longleftrightarrow>
     system_idle k Pl invar c \<and> core (cc_peer c) = a \<and> dr_mem (cc_data c) = seg (executor (cc_peer c)) k"

lemma implements_call:
  assumes "implements k Pl invar seg c (fds, nf, w)" "batch_executor (ex_batch E)"
    and "lone_stage (pl_add Pl) (pl_is_empty Pl) (pl_drain Pl) held invar" "range_fits p r"
    and "answer p E k r (fds, nf, set_seg k (store (seg w k)) w) = Inr (resp, a)"
  obtains c' where
    "send_request [service_move p E Pl k seg set_seg] r
       (c\<lparr>cc_data := (cc_data c)\<lparr>dr_mem := store (dr_mem (cc_data c))\<rparr>\<rparr>) = Inr (resp, c', [])"
    "implements k Pl invar seg c' a" "req_log c' = req_log c @ [r]" "cc_popped c' = cc_popped c @ [resp]"
    "cc_instance c' = cc_instance c"
proof -
  let ?c = "c\<lparr>cc_data := (cc_data c)\<lparr>dr_mem := store (dr_mem (cc_data c))\<rparr>\<rparr>"
  have idle: "system_idle k Pl invar ?c" using assms(1) by (simp add: implements_def idle_data)
  have "answer p E k r (core (shared_service k set_seg ?c)) = Inr (resp, a)"
    unfolding core_shared using assms(1,5) by (auto simp: implements_def core_def)
  from send_request_served [OF idle assms(2-4) this, of seg] that show thesis
    by (auto simp: implements_def req_log_def)
qed

lemma run_calls_implement:
  assumes E: "batch_executor (ex_batch E)"
    and Pl: "lone_stage (pl_add Pl) (pl_is_empty Pl) (pl_drain Pl) held invar"
    and "implements k Pl invar seg c a" "\<forall>call \<in> set calls. range_fits p (snd call)"
    and "answers p E k seg set_seg calls a = Inr (resps, a')"
  shows "\<exists>c'. run_calls (service_move p E Pl k seg set_seg) calls c = Inr (resps, c') \<and>
    implements k Pl invar seg c' a' \<and> req_log c' = req_log c @ map snd calls \<and>
    cc_popped c' = cc_popped c @ resps \<and> cc_instance c' = cc_instance c"
  using assms(3-5)
proof (induction calls arbitrary: c a resps)
  case (Cons call calls)
  obtain store r where call: "call = (store, r)" by force
  obtain fds nf w where a: "a = (fds, nf, w)" by (cases a)
  from Cons.prems(3) obtain resp a1 rest where
    one: "answer p E k r (fds, nf, set_seg k (store (seg w k)) w) = Inr (resp, a1)"
    and more: "answers p E k seg set_seg calls a1 = Inr (rest, a')" and resps: "resps = resp # rest"
    by (auto simp: call a elim!: and_then_InrE)
  have fits: "range_fits p r" using Cons.prems(2) call by simp
  obtain c1 where c1: "send_request [service_move p E Pl k seg set_seg] r
       (c\<lparr>cc_data := (cc_data c)\<lparr>dr_mem := store (dr_mem (cc_data c))\<rparr>\<rparr>) = Inr (resp, c1, [])"
    "implements k Pl invar seg c1 a1" "req_log c1 = req_log c @ [r]" "cc_popped c1 = cc_popped c @ [resp]"
    "cc_instance c1 = cc_instance c"
    using implements_call [where store = store and seg = seg and set_seg = set_seg, OF Cons.prems(1) [unfolded a] E Pl fits one] .
  from Cons.IH [OF c1(2) _ more] Cons.prems(2) c1 call resps show ?case by auto
qed simp

end
