(* ===== verification/System_Properties.thy ===== *)
theory System_Properties
  imports Call_Sequences Service_Properties
begin

text \<open>
  Properties of the whole path of a call: the client library, the rings, the service's loop, its
  stage and its executor.
\<close>

section \<open>A small system\<close>

text \<open>A world for the examples: the mapped segments, and one regular file, open as descriptor 3.\<close>

type_synonym disk = "(nat \<Rightarrow> u8 list) \<times> u8 list"

definition disk_libc :: "disk LibC" where
  "disk_libc =
     \<lparr>c_open = (\<lambda>w path flags mode. (3, w)),
      c_close = (\<lambda>w fd. (0, w)),
      c_pread = (\<lambda>w fd b n off. case (w, b) of ((segs, f), (k, at)) \<Rightarrow>
        (of_nat (length (file_range f off n)), segs(k := overwrite (segs k) at (file_range f off n)), f)),
      c_pwrite = (\<lambda>w fd b n off. case (w, b) of ((segs, f), (k, at)) \<Rightarrow>
        (n, segs, overwrite f (unat off) (take (unat n) (drop at (segs k))))),
      c_fsync = (\<lambda>w fd. (0, w)),
      c_last_os_error = (\<lambda>w. None)\<rparr>"

definition disk_seg :: "disk \<Rightarrow> nat \<Rightarrow> u8 list" where
  "disk_seg w k = fst w k"

definition disk_set_seg :: "nat \<Rightarrow> u8 list \<Rightarrow> disk \<Rightarrow> disk" where
  "disk_set_seg k m w = ((fst w)(k := m), snd w)"

definition disk_file :: "disk \<Rightarrow> i32 \<Rightarrow> u8 list option" where
  "disk_file w fd = (if fd = 3 then Some (snd w) else None)"

lemma disk_regular: "regular_files disk_libc disk_seg disk_set_seg disk_file"
  unfolding regular_files_def
  by (auto simp: disk_libc_def disk_seg_def disk_set_seg_def disk_file_def buf_bytes_def split: if_splits)

text \<open>A client of a service with one channel, with the descriptor 5 open on the file.\<close>

definition small_service :: "(disk, PassThrough) AtlasService" where
  "small_service =
     (fresh_service (AtlasService_new (\<lambda>_. [], [])) 1)\<lparr>fd_table := [5 \<mapsto> 3], next_fd := 6\<rparr>"

definition small_channel :: "(disk, PassThrough) AtlasService ClientChannel" where
  "small_channel =
     \<lparr>cc_req = spsc_open (fresh_ring (IoRequest_new 0 Open Low)),
      cc_resp = spsc_open (fresh_ring (IoResponse_ok 0)), cc_data = small_region, cc_instance = 0,
      cc_served = [], cc_popped = [], cc_peer = small_service\<rparr>"

definition small_client :: "(disk, PassThrough) AtlasService AtlasClient" where
  "small_client = \<lparr>ac_channel = small_channel, ac_next_id = 1\<rparr>"

lemma small_idle: "system_idle 0 pass_through (\<lambda>_. True) small_channel"
proof -
  have "channels small_service = [fresh_channel 0]"
    by (simp add: small_service_def fresh_service_def)
  then show ?thesis
    by (auto simp: system_idle_def small_channel_def cc_wf_def between_rounds_def chans_wf_def
        fresh_channel_def [of 0] small_service_def AtlasService_new_def with_pipeline_def
        PassThrough_new_def pass_through_def pt_is_empty_def chan_wf_def fresh_service_def)
qed

lemma small_file: "file_open 0 pass_through (\<lambda>_. True) disk_file 5 [] small_client"
  using small_idle
  by (simp add: file_open_def small_client_def small_channel_def small_region_def region_wf_def
      small_service_def disk_file_def AtlasService_new_def with_pipeline_def)

section \<open>Calls\<close>

text \<open>C6. The system is a sequential server of its specification: whatever calls a client makes, one after the
  other and each after storing what it likes in the data region, each is answered within one iteration of
  the service, with the response that the specification \<open>answer\<close> gives in the state that the calls
  before it have left; the client gets exactly these responses in order, and at the end the descriptor
  table, the counter, the executor and the shared bytes are as the specification leaves them and the
  system is idle. No ring, stage, round or batch shows. This holds for both stages and any executor whose
  batches keep their operations.\<close>

theorem calls_refine_answers:
  assumes "batch_executor (ex_batch E)"
    and "lone_stage (pl_add Pl) (pl_is_empty Pl) (pl_drain Pl) held invar"
    and "system_idle k Pl invar c" "dr_mem (cc_data c) = seg (executor (cc_peer c)) k"
    and "\<forall>call \<in> set calls. range_fits p (snd call)"
    and "answers p E k seg set_seg calls (core (cc_peer c)) = Inr (resps, a)"
  shows "\<exists>c'. run_calls (service_move p E Pl k seg set_seg) calls c = Inr (resps, c') \<and>
    system_idle k Pl invar c' \<and> core (cc_peer c') = a \<and>
    dr_mem (cc_data c') = seg (executor (cc_peer c')) k \<and>
    req_log c' = req_log c @ map snd calls \<and> cc_popped c' = cc_popped c @ resps"
  using run_calls_implement [OF assms(1,2) _ assms(5,6)] assms(3,4) by (auto simp: implements_def)

theorem calls_refine_answers_witness:
  "\<exists>c'. run_calls (service_move Debug (PosixExecutor disk_libc) pass_through 0 disk_seg disk_set_seg)
      [(\<lambda>m. m[0 := 1], (IoRequest_new 7 Sync Critical)\<lparr>rq_fd := 5\<rparr>),
       (\<lambda>m. m, (IoRequest_new 8 Close Low)\<lparr>rq_fd := 5\<rparr>),
       (\<lambda>m. m, (IoRequest_new 9 Sync Critical)\<lparr>rq_fd := 5\<rparr>)]
      (small_channel\<lparr>cc_data := small_region\<lparr>dr_mem := []\<rparr>\<rparr>) =
    Inr ([IoResponse_ok 7, IoResponse_ok 8, IoResponse_err 9 (- EBADF)], c')"
proof -
  let ?calls = "[(\<lambda>m. m[0 := 1], (IoRequest_new 7 Sync Critical)\<lparr>rq_fd := 5\<rparr>),
       (\<lambda>m. m, (IoRequest_new 8 Close Low)\<lparr>rq_fd := 5\<rparr>),
       (\<lambda>m. m, (IoRequest_new 9 Sync Critical)\<lparr>rq_fd := 5\<rparr>)] :: region_call list"
    and ?c = "small_channel\<lparr>cc_data := small_region\<lparr>dr_mem := []\<rparr>\<rparr>"
  have fits: "\<forall>call \<in> set ?calls. range_fits Debug (snd call)" by (simp add: range_fits_def)
  have idle: "system_idle 0 pass_through (\<lambda>_. True) ?c" using small_idle by (simp add: idle_data)
  have mem: "dr_mem (cc_data ?c) = disk_seg (executor (cc_peer ?c)) 0"
    by (simp add: small_channel_def small_service_def fresh_service_def AtlasService_new_def with_pipeline_def
        disk_seg_def)
  obtain a where "answers Debug (PosixExecutor disk_libc) 0 disk_seg disk_set_seg ?calls (core (cc_peer ?c)) =
      Inr ([IoResponse_ok 7, IoResponse_ok 8, IoResponse_err 9 (- EBADF)], a)"
    by (auto simp: answer_def io_op_def op_from_u8_def core_def small_channel_def small_service_def
        PosixExecutor_def posix_close_def disk_libc_def batch_of_one_def posix_batch_def run_kind_def
        BatchOp_new_def posix_fsync_def)
  from calls_refine_answers [OF posix_batch_executor lone_pass_through idle mem fits this] show ?thesis by auto
qed

text \<open>C7. What is written through the service is read back through it: a client that writes a buffer to an
  open regular file and then reads the same range gets the same bytes, with both counts equal to the
  length of the buffer, whatever the file held, and leaves the file with the bytes at that place. A read of
  any other range, into a buffer of any size up to that of the region, then gets the bytes that the file has
  there, with their number as the count: fewer than asked for, or none, where the range passes the end, and
  the rest of the buffer is left as it was. The calls go through the allocator, the shared region, both
  rings, the stage and the POSIX executor.\<close>

theorem write_then_read:
  assumes "regular_files L seg set_seg file"
    and "lone_stage (pl_add Pl) (pl_is_empty Pl) (pl_drain Pl) held invar"
    and "file_open k Pl invar file fd bs ac"
    and "length buf \<le> unat (dr_len (cc_data (ac_channel ac)))" "unat off + length buf < 2 ^ 63"
    and "length out = length buf"
    and "length out2 \<le> unat (dr_len (cc_data (ac_channel ac)))" "unat off2 + length out2 < 2 ^ 63"
    and "bs' = overwrite bs (unat off) buf" "data = take (length out2) (drop (unat off2) bs')"
  shows "\<exists>ac1 ac2 ac3.
    client_write p [] [service_move p (PosixExecutor L) Pl k seg set_seg] fd buf off ac =
      Inr (Inr (of_nat (length buf)), ac1, []) \<and>
    client_read p [] [service_move p (PosixExecutor L) Pl k seg set_seg] fd out off ac1 =
      Inr (Inr (length buf, buf), ac2, []) \<and>
    client_read p [] [service_move p (PosixExecutor L) Pl k seg set_seg] fd out2 off2 ac2 =
      Inr (Inr (length data, data @ drop (length data) out2), ac3, []) \<and>
    file_open k Pl invar file fd bs' ac3"
proof -
  from client_write_served [OF assms(1-5)] obtain ac1 where
    w: "client_write p [] [service_move p (PosixExecutor L) Pl k seg set_seg] fd buf off ac =
      Inr (Inr (of_nat (length buf)), ac1, [])" "file_open k Pl invar file fd bs' ac1"
      "dr_len (cc_data (ac_channel ac1)) = dr_len (cc_data (ac_channel ac))"
    unfolding assms(9) by blast
  have written_back: "buf = take (length out) (drop (unat off) bs')" by (simp add: assms(6,9) overwrite_read)
  have "length out \<le> unat (dr_len (cc_data (ac_channel ac1)))" "unat off + length out < 2 ^ 63"
    using assms(4-6) w(3) by simp_all
  from client_read_served [OF assms(1,2) w(2) this written_back, of p] assms(6) w(3) obtain ac2 where
    r: "client_read p [] [service_move p (PosixExecutor L) Pl k seg set_seg] fd out off ac1 =
      Inr (Inr (length buf, buf), ac2, [])" "file_open k Pl invar file fd bs' ac2"
      "dr_len (cc_data (ac_channel ac2)) = dr_len (cc_data (ac_channel ac))" by auto
  have "length out2 \<le> unat (dr_len (cc_data (ac_channel ac2)))" using assms(7) r(3) by simp
  from client_read_served [OF assms(1,2) r(2) this assms(8,10), of p] w(1) r(1) show ?thesis by blast
qed

theorem write_then_read_witness:
  "\<exists>ac1 ac2 ac3.
    client_write Debug [] [service_move Debug (PosixExecutor disk_libc) pass_through 0 disk_seg disk_set_seg]
      5 [7, 8, 9] 100 small_client = Inr (Inr 3, ac1, []) \<and>
    client_read Debug [] [service_move Debug (PosixExecutor disk_libc) pass_through 0 disk_seg disk_set_seg]
      5 [0, 0, 0] 100 ac1 = Inr (Inr (3, [7, 8, 9]), ac2, []) \<and>
    client_read Debug [] [service_move Debug (PosixExecutor disk_libc) pass_through 0 disk_seg disk_set_seg]
      5 [1, 1, 1, 1] 101 ac2 = Inr (Inr (2, [8, 9, 1, 1]), ac3, [])"
proof -
  have bound: "length [7, 8, 9 :: u8] \<le> unat (dr_len (cc_data (ac_channel small_client)))"
    "unat (100 :: u64) + length [7, 8, 9 :: u8] < 2 ^ 63" "length [0, 0, 0 :: u8] = length [7, 8, 9 :: u8]"
    "length [1, 1, 1, 1 :: u8] \<le> unat (dr_len (cc_data (ac_channel small_client)))"
    "unat (101 :: u64) + length [1, 1, 1, 1 :: u8] < 2 ^ 63"
    by (simp_all add: small_client_def small_channel_def small_region_def)
  have "overwrite [] (unat (100 :: u64)) [7, 8, 9] = replicate 100 0 @ [7, 8, 9]"
    "[8, 9] = take (length [1, 1, 1, 1 :: u8]) (drop (unat (101 :: u64)) (replicate 100 0 @ [7, 8, 9 :: u8]))"
    by (simp_all add: overwrite_def)
  from write_then_read [OF disk_regular lone_pass_through small_file bound this(1) [symmetric] this(2), of Debug]
  show ?thesis by auto
qed

text \<open>An open reaches the executor as the client made it, and its outcome reaches the client: the
  executor is asked to open exactly the client's path (valid UTF-8 of at most 255 bytes without NUL)
  with the client's flags and mode 0644; a descriptor it returns is entered in the table under the
  next virtual descriptor, which is what the client gets, and the counter moves on; an error number
  it returns is what the client gets, and the table and the counter stay as they are.\<close>

theorem open_reaches_executor:
  assumes "system_idle k Pl invar (ac_channel ac)" "batch_executor (ex_batch E)"
    and "lone_stage (pl_add Pl) (pl_is_empty Pl) (pl_drain Pl) held invar"
    and "utf8_valid path" "0 \<notin> set path" "length path \<le> 255"
    and "ex_open E (executor (shared_service k set_seg (ac_channel ac))) path flags 420 = (rc, w)"
    and "i64_as_i32 rc \<noteq> 0 \<or> \<not> negative rc"
    and "unat (next_fd (cc_peer (ac_channel ac))) < 2 ^ 64 - 1"
  shows "\<exists>res ac'. client_open [service_move p E Pl k seg set_seg] path flags ac = Inr (res, ac', []) \<and>
    executor (cc_peer (ac_channel ac')) = w \<and>
    (if negative rc
     then res = Inl (i64_as_i32 rc) \<and> fd_table (cc_peer (ac_channel ac')) = fd_table (cc_peer (ac_channel ac)) \<and>
       next_fd (cc_peer (ac_channel ac')) = next_fd (cc_peer (ac_channel ac))
     else res = Inr (next_fd (cc_peer (ac_channel ac))) \<and>
       fd_table (cc_peer (ac_channel ac')) =
         (fd_table (cc_peer (ac_channel ac)))(next_fd (cc_peer (ac_channel ac)) \<mapsto> i64_as_i32 rc) \<and>
       next_fd (cc_peer (ac_channel ac')) = next_fd (cc_peer (ac_channel ac)) + 1)"
  using client_open_executed [OF assms, of p seg] by blast

theorem open_reaches_executor_witness:
  "\<exists>ac'. client_open [service_move Debug (PosixExecutor disk_libc) pass_through 0 disk_seg disk_set_seg]
      [47, 97] 2 small_client = Inr (Inr 6, ac', []) \<and> fd_table (cc_peer (ac_channel ac')) 6 = Some 3 \<and>
    fd_table (cc_peer (ac_channel ac')) 5 = Some 3 \<and> next_fd (cc_peer (ac_channel ac')) = 7"
proof -
  let ?E = "PosixExecutor disk_libc"
  have path: "utf8_valid [47, 97]" "0 \<notin> set [47, 97 :: u8]" "length [47, 97 :: u8] \<le> 255"
    by (simp_all add: utf8_valid.simps(2))
  obtain w where ex: "ex_open ?E (executor (shared_service 0 disk_set_seg (ac_channel small_client)))
      [47, 97] 2 420 = (3, w)"
    by (simp add: PosixExecutor_def posix_open_def disk_libc_def)
  have rc: "i64_as_i32 3 \<noteq> 0 \<or> \<not> negative (3 :: i64)" by simp
  have nf: "unat (next_fd (cc_peer (ac_channel small_client))) < 2 ^ 64 - 1"
    by (simp add: small_client_def small_channel_def small_service_def)
  have idle: "system_idle 0 pass_through (\<lambda>_. True) (ac_channel small_client)"
    using small_idle by (simp add: small_client_def)
  from open_reaches_executor [OF idle posix_batch_executor lone_pass_through path ex rc nf,
      of Debug disk_seg]
  show ?thesis by (auto simp: small_client_def small_channel_def small_service_def)
qed

lemma refused_data_call:
  assumes "unknown_fd k Pl invar fd ac" "batch_executor (ex_batch E)"
    and "lone_stage (pl_add Pl) (pl_is_empty Pl) (pl_drain Pl) held invar" "op \<noteq> Open"
    and "region_wf (cc_data (ac_channel ac))" "n \<le> unat (dr_len (cc_data (ac_channel ac)))"
    and "unat off + n < 2 ^ 64"
  obtains ac' where
    "on_channel [service_move p E Pl k seg set_seg] (data_request op (ac_next_id ac) fd off n start) (with_data d ac) =
       Inr (IoResponse_err (ac_next_id ac) (- EBADF), ac', [])" "unknown_fd k Pl invar fd ac'"
proof -
  let ?r = "data_request op (ac_next_id ac) fd off n start"
  have fits: "range_fits p ?r" using assms(7) small_len(2) [OF assms(5,6)] by (simp add: range_fits_def)
  have "unknown_fd k Pl invar fd (with_data d ac)" using assms(1) by (simp add: unknown_fd_def idle_data)
  from refused_call [OF this assms(2,3) fits data_request_op assms(4), of seg set_seg] that show thesis
    by auto
qed

lemma ffi_read_refused:
  assumes "unknown_fd k Pl invar fd ac" "batch_executor (ex_batch E)"
    and "lone_stage (pl_add Pl) (pl_is_empty Pl) (pl_drain Pl) held invar"
    and "region_wf (cc_data (ac_channel ac))" "length buf \<le> unat (dr_len (cc_data (ac_channel ac)))"
    and "unat off + length buf < 2 ^ 64"
  shows "\<exists>ac'. ffi_read p [] [service_move p E Pl k seg set_seg] fd buf off ac = Inr (- EBADF, buf, ac', []) \<and>
    unknown_fd k Pl invar fd ac'"
proof -
  let ?mv = "service_move p E Pl k seg set_seg"
  have noone: "\<forall>x \<in> set []. unat (x :: u32) \<le> unat (dr_len (cc_data (ac_channel ac)))" by simp
  obtain start d where r: "client_read p [] [?mv] fd buf off ac =
     and_then (on_channel [?mv] (data_request Read (ac_next_id ac) fd off (length buf) start) (with_data d ac))
       (\<lambda>res. case res of (resp, ac2, ms) \<Rightarrow>
         if rs_status resp \<noteq> 0 then Inr (Inl (rs_status resp), ac2, ms)
         else and_then (dr_read (rs_data_offset resp) (unat (rs_data_len resp)) (cc_data (ac_channel ac2)))
           (\<lambda>data. and_then
             (if length data \<le> length buf then Inr (length data, data @ drop (length data) buf)
              else Inl Index_Range)
             (\<lambda>x. Inr (Inr x, ac2, ms))))"
    by (rule client_read_sends [OF assms(4,5) noone])
  obtain ac1 where c: "on_channel [?mv] (data_request Read (ac_next_id ac) fd off (length buf) start) (with_data d ac) =
      Inr (IoResponse_err (ac_next_id ac) (- EBADF), ac1, [])" "unknown_fd k Pl invar fd ac1"
    by (rule refused_data_call [OF assms(1-3) _ assms(4-6), of Read]) simp
  then show ?thesis using r by (intro exI [of _ ac1]) (simp add: ffi_read_def)
qed

lemma ffi_write_refused:
  assumes "unknown_fd k Pl invar fd ac" "batch_executor (ex_batch E)"
    and "lone_stage (pl_add Pl) (pl_is_empty Pl) (pl_drain Pl) held invar"
    and "region_wf (cc_data (ac_channel ac))" "length buf \<le> unat (dr_len (cc_data (ac_channel ac)))"
    and "unat off + length buf < 2 ^ 64"
  shows "\<exists>ac'. ffi_write p [] [service_move p E Pl k seg set_seg] fd buf off ac = Inr (- EBADF, ac', []) \<and>
    unknown_fd k Pl invar fd ac'"
proof -
  let ?mv = "service_move p E Pl k seg set_seg"
  have noone: "\<forall>x \<in> set []. unat (x :: u32) \<le> unat (dr_len (cc_data (ac_channel ac)))" by simp
  obtain start d where w: "client_write p [] [?mv] fd buf off ac =
       and_then (on_channel [?mv] (data_request Write (ac_next_id ac) fd off (length buf) start) (with_data d ac))
         (\<lambda>res. case res of (resp, ac2, ms) \<Rightarrow>
           Inr (if rs_status resp \<noteq> 0 then Inl (rs_status resp) else Inr (as_u64 (rs_data_len resp)), ac2, ms))"
    by (rule client_write_sends [OF assms(4,5) noone])
  obtain ac1 where c: "on_channel [?mv] (data_request Write (ac_next_id ac) fd off (length buf) start) (with_data d ac) =
      Inr (IoResponse_err (ac_next_id ac) (- EBADF), ac1, [])" "unknown_fd k Pl invar fd ac1"
    by (rule refused_data_call [OF assms(1-3) _ assms(4-6), of Write]) simp
  then show ?thesis using w by (intro exI [of _ ac1]) (simp add: ffi_write_def)
qed

text \<open>The calls without data: a sync and a close.\<close>

lemma refused_plain_call:
  assumes "unknown_fd k Pl invar fd ac" "batch_executor (ex_batch E)"
    and "lone_stage (pl_add Pl) (pl_is_empty Pl) (pl_drain Pl) held invar" "op \<noteq> Open"
  obtains ac' where
    "on_channel [service_move p E Pl k seg set_seg] ((IoRequest_new (ac_next_id ac) op pr)\<lparr>rq_fd := fd\<rparr>)
       (ac\<lparr>ac_next_id := ac_next_id ac + 1\<rparr>) = Inr (IoResponse_err (ac_next_id ac) (- EBADF), ac', [])"
    "unknown_fd k Pl invar fd ac'"
proof -
  let ?r = "(IoRequest_new (ac_next_id ac) op pr)\<lparr>rq_fd := fd\<rparr>"
  have fits: "range_fits p ?r" by (simp add: range_fits_def)
  have op: "io_op ?r = Some op" by (simp add: io_op_def)
  have "unknown_fd k Pl invar fd (ac\<lparr>ac_next_id := ac_next_id ac + 1\<rparr>)" using assms(1) by (simp add: unknown_fd_def)
  from refused_call [OF this assms(2,3) fits op assms(4), of seg set_seg] that show thesis by auto
qed

text \<open>C34. An operation on a descriptor that is not open comes back through the C interface as \<open>-EBADF\<close>: a
  read, a write, a sync and a close each return \<open>-9\<close>, the caller's buffer is untouched, and the system
  is idle again with the descriptor still unknown.\<close>

theorem ffi_unknown_descriptor:
  assumes "unknown_fd k Pl invar fd ac" "batch_executor (ex_batch E)"
    and "lone_stage (pl_add Pl) (pl_is_empty Pl) (pl_drain Pl) held invar"
    and "region_wf (cc_data (ac_channel ac))" "length buf \<le> unat (dr_len (cc_data (ac_channel ac)))"
    and "unat off + length buf < 2 ^ 64"
  shows "\<exists>ac1 ac2 ac3 ac4.
    ffi_read p [] [service_move p E Pl k seg set_seg] fd buf off ac = Inr (- 9, buf, ac1, []) \<and>
    ffi_write p [] [service_move p E Pl k seg set_seg] fd buf off ac = Inr (- 9, ac2, []) \<and>
    ffi_sync [service_move p E Pl k seg set_seg] fd ac = Inr (- 9, ac3, []) \<and>
    ffi_close [service_move p E Pl k seg set_seg] fd ac = Inr (- 9, ac4, []) \<and>
    unknown_fd k Pl invar fd ac1 \<and> unknown_fd k Pl invar fd ac2 \<and>
    unknown_fd k Pl invar fd ac3 \<and> unknown_fd k Pl invar fd ac4"
proof -
  have minus9: "- 9 = - (EBADF :: i32)" by (simp add: EBADF_def)
  have sync: "\<exists>ac'. ffi_sync [service_move p E Pl k seg set_seg] fd ac = Inr (- EBADF, ac', []) \<and>
      unknown_fd k Pl invar fd ac'"
    by (rule refused_plain_call [OF assms(1-3), of Sync p seg set_seg Critical])
      (simp_all add: ffi_sync_def client_sync_def next_id_def Let_def)
  have close: "\<exists>ac'. ffi_close [service_move p E Pl k seg set_seg] fd ac = Inr (- EBADF, ac', []) \<and>
      unknown_fd k Pl invar fd ac'"
    by (rule refused_plain_call [OF assms(1-3), of Close p seg set_seg Low])
      (simp_all add: ffi_close_def client_close_def next_id_def Let_def)
  from sync close ffi_read_refused [OF assms, of p seg set_seg] ffi_write_refused [OF assms, of p seg set_seg]
  show ?thesis unfolding minus9 by blast
qed

theorem ffi_unknown_descriptor_witness:
  "\<exists>ac1 ac2. ffi_read Debug [] [service_move Debug (PosixExecutor disk_libc) pass_through 0 disk_seg disk_set_seg]
      77 [1, 2] 0 small_client = Inr (- 9, [1, 2], ac1, []) \<and>
    ffi_close [service_move Debug (PosixExecutor disk_libc) pass_through 0 disk_seg disk_set_seg] 77 small_client =
      Inr (- 9, ac2, [])"
proof -
  have "unknown_fd 0 pass_through (\<lambda>_. True) 77 small_client"
    using small_idle by (simp add: unknown_fd_def small_client_def small_channel_def small_service_def)
  moreover have "region_wf (cc_data (ac_channel small_client))"
    "length [1, 2 :: u8] \<le> unat (dr_len (cc_data (ac_channel small_client)))"
    "unat (0 :: u64) + length [1, 2 :: u8] < 2 ^ 64"
    by (simp_all add: small_client_def small_channel_def small_region_def region_wf_def)
  ultimately show ?thesis
    using ffi_unknown_descriptor [OF _ posix_batch_executor lone_pass_through, of 0 77 small_client
        "[1, 2]" 0 Debug disk_libc disk_seg disk_set_seg] by blast
qed

end
