(* ===== verification/Data_Transfers.thy ===== *)
theory Data_Transfers
  imports System_Properties
begin

text \<open>
  What happens to the bytes when the service merges requests, and when a write is cut short: what each
  request behind a merged read finds in the data region, which bytes a merged write puts in the file,
  and what a client is told of a short write.
\<close>

section \<open>A round of one merged transfer\<close>

text \<open>The round makes one system call and hands its count to the responses.\<close>

lemma posix_read_round:
  assumes "io_op (mo_req m) = Some Read" "fd_table svc (rq_fd (mo_req m)) = Some fd"
    and "mo_channel m < length (channels svc)"
    and "c_pread L (executor svc) fd (mo_channel m, unat (rq_data_offset (mo_req m)))
      (as_u64 (rq_len (mo_req m))) (rq_offset (mo_req m)) = (n, w)" "\<not> negative n"
  shows "execute_round p (PosixExecutor L) [m] svc = send_read_responses p m n (svc\<lparr>executor := w\<rparr>)"
  using assms
  by (cases "send_read_responses p m n (svc\<lparr>executor := w\<rparr>)")
    (simp_all add: execute_round_def round_step_def prepare_read_def data_buf_def keep_def io_op_def
      PosixExecutor_def posix_batch_def run_kind_def BatchOp_new_def posix_pread_def finish_step_def)

lemma posix_write_round:
  assumes "io_op (mo_req m) = Some Write" "fd_table svc (rq_fd (mo_req m)) = Some fd"
    and "mo_channel m < length (channels svc)"
    and "c_pwrite L (executor svc) fd (mo_channel m, unat (rq_data_offset (mo_req m)))
      (as_u64 (rq_len (mo_req m))) (rq_offset (mo_req m)) = (n, w)" "\<not> negative n"
  shows "execute_round p (PosixExecutor L) [m] svc = send_write_responses m n (svc\<lparr>executor := w\<rparr>)"
  using assms
  by (cases "send_write_responses m n (svc\<lparr>executor := w\<rparr>)")
    (simp_all add: execute_round_def round_step_def prepare_write_def data_buf_def keep_def io_op_def
      PosixExecutor_def posix_batch_def run_kind_def BatchOp_new_def posix_pwrite_def finish_step_def)

lemma sent_pairs [simp]: "sent (map (Pair k) rs) k = rs"
  by (induction rs) (simp_all add: sent_def)

lemma send_list_log:
  assumes "chans_wf (channels svc)" "send_list (map (Pair k) rs) (svc\<lparr>executor := w\<rparr>) = Inr svc'"
  shows "chan_log (channels svc') k = chan_log (channels svc) k @ rs \<and> executor svc' = w"
  using send_list_emits [OF _ assms(2)] assms(1) by (simp add: emits_def same_core_def)

section \<open>Merged reads\<close>

text \<open>What a read of its own would have got.\<close>

definition own_bytes :: "u8 list \<Rightarrow> TaggedRequest \<Rightarrow> u8 list" where
  "own_bytes bs t = file_range bs (t_offset t) (as_u64 (t_len t))"

lemma slice_of_overwrite:
  assumes "d + l \<le> length data"
  shows "take l (drop (b + d) (overwrite mem b data)) = take l (drop d data)"
proof -
  have "min (length mem) b + (b - length mem) = b" by simp
  with assms show ?thesis by (simp add: overwrite_def)
qed

text \<open>A range inside a longer range of the file.\<close>

lemma own_in_merged:
  assumes "q + d = a" "d + l \<le> n"
  shows "min l (length (take n (drop q bs)) - d) = length (take l (drop a bs))"
    and "take (length (take l (drop a bs))) (drop d (take n (drop q bs))) = take l (drop a bs)"
proof -
  show "min l (length (take n (drop q bs)) - d) = length (take l (drop a bs))" using assms by auto
  have "drop d (take n (drop q bs)) = take (n - d) (drop a bs)"
    using assms(1) by (simp add: drop_take add.commute)
  then show "take (length (take l (drop a bs))) (drop d (take n (drop q bs))) = take l (drop a bs)"
    using assms(2) by (simp add: min_def)
qed

lemma span_bound:
  assumes "op_kind_ok m g span"
    and "\<forall>t \<in> set g. unat (t_offset t) + unat (t_len t) < unat (rq_offset (mo_req m)) + B"
  shows "span < B"
proof (cases "span = 0")
  case True
  have "g \<noteq> []" "\<forall>t \<in> set g. rq_offset (mo_req m) \<le> t_offset t" using assms(1) unfolding op_kind_ok_def by blast+
  then have "unat (rq_offset (mo_req m)) \<le> unat (t_offset (hd g))" by (simp add: word_le_nat_alt)
  moreover have "unat (t_offset (hd g)) + unat (t_len (hd g)) < unat (rq_offset (mo_req m)) + B"
    using assms(2) \<open>g \<noteq> []\<close> by simp
  ultimately show ?thesis using True by linarith
next
  case False
  then have "unat (rq_offset (mo_req m)) + span - 1 \<in> (\<Union>t \<in> set g. span_set t)"
    using assms(1) by (simp add: op_kind_ok_def)
  then obtain t where "t \<in> set g" "unat (rq_offset (mo_req m)) + span - 1 < unat (t_offset t) + unat (t_len t)"
    by (auto simp: span_set_def)
  with assms(2) False show ?thesis by (auto dest!: bspec)
qed

text \<open>One response of a merged read that was answered with the bytes \<open>data\<close> of its range.\<close>

definition gets_own :: "u8 list \<Rightarrow> u8 list \<Rightarrow> TaggedRequest \<Rightarrow> IoResponse \<Rightarrow> bool" where
  "gets_own bs region t r \<longleftrightarrow> rs_id r = t_id t \<and> rs_status r = 0 \<and>
     unat (rs_data_len r) = length (own_bytes bs t) \<and>
     take (unat (rs_data_len r)) (drop (unat (rs_data_offset r)) region) = own_bytes bs t"

lemma gets_ownD:
  "gets_own bs region t r \<Longrightarrow> rs_id r = t_id t \<and>
     take (unat (rs_data_len r)) (drop (unat (rs_data_offset r)) region) = own_bytes bs t"
  unfolding gets_own_def by (elim conjE) (intro conjI)

lemma read_response_own:
  assumes ok: "op_kind_ok m g span" "span < 2 ^ 32" "t \<in> set g"
    and room: "unat (rq_data_offset (mo_req m)) + span < 2 ^ 32"
    and data: "data = file_range bs (rq_offset (mo_req m)) (as_u64 (rq_len (mo_req m)))"
  shows "\<exists>r. read_response p (mo_req m) (of_nat (length data)) (source_of (mo_req m) t) = Inr r \<and>
    gets_own bs (overwrite mem (unat (rq_data_offset (mo_req m))) data) t r"
proof -
  let ?b = "unat (rq_data_offset (mo_req m))" and ?w = "as_u32 (t_offset t - rq_offset (mo_req m))"
  have len: "unat (as_u64 (rq_len (mo_req m))) = span"
    using op_kind_ok_len [OF ok(1,2)] by simp
  have w: "unat (rq_offset (mo_req m)) + unat ?w = unat (t_offset t)" "unat ?w + unat (t_len t) \<le> span"
    using op_within [OF ok] by simp_all
  have small: "length data \<le> span" unfolding data using length_file_range [of bs] len by metis
  from read_response_exact [OF room w(2) small, of p "t_id t"] obtain r where
    r: "read_response p (mo_req m) (of_nat (length data)) (source_of (mo_req m) t) = Inr r"
      "rs_id r = t_id t" "rs_status r = 0" "unat (rs_data_offset r) = ?b + unat ?w"
      "unat (rs_data_len r) = min (unat (t_len t)) (length data - unat ?w)"
    by (auto simp: source_of_def)
  have l64: "unat (as_u64 (t_len t)) = unat (t_len t)" by simp
  have data': "data = take span (drop (unat (rq_offset (mo_req m))) bs)"
    by (simp only: data file_range_def len)
  have own: "min (unat (t_len t)) (length data - unat ?w) = length (own_bytes bs t)"
    "take (length (own_bytes bs t)) (drop (unat ?w) data) = own_bytes bs t"
    using own_in_merged [OF w, of bs] by (simp_all only: data' own_bytes_def file_range_def l64)
  have "length (own_bytes bs t) = 0 \<or> unat ?w + length (own_bytes bs t) \<le> length data"
    using own(1) by linarith
  then have "take (length (own_bytes bs t)) (drop (?b + unat ?w) (overwrite mem ?b data)) = own_bytes bs t"
    using own(2) slice_of_overwrite [of "unat ?w" "length (own_bytes bs t)" data ?b mem] by fastforce
  with r own(1) show ?thesis by (simp add: gets_own_def)
qed

text \<open>C18. Merging does not show in the answers to reads, nor in the bytes. Let a merged read that
  the engine has drained be executed as a round, on a regular file of the bytes \<open>bs\<close> and into a region with
  room for it. Its channel is sent one response for each request behind it, in their order and with their
  ids, and the file is as before. If the requests end less than 4 GiB after its start, each response has
  status 0; its count is the number of bytes the request's own \<open>pread\<close> would have returned, cut at the end of
  the file; and the place in the region that it names holds exactly these bytes. (This place is within the
  merged buffer; it need not be the one the request asked for.)\<close>

theorem merged_read_as_if_alone:
  assumes "drain_merged q b = Inr (ops, b')" "m \<in> set ops" "\<forall>t \<in> set (pending b). fits t"
    and "regular_files L seg set_seg file"
    and "io_op (mo_req m) = Some Read" "fd_table svc (rq_fd (mo_req m)) = Some fd"
    and "file (executor svc) fd = Some bs"
    and "unat (rq_data_offset (mo_req m)) + unat (rq_len (mo_req m)) \<le> length (seg (executor svc) (mo_channel m))"
    and "length (seg (executor svc) (mo_channel m)) < 2 ^ 32"
    and "unat (rq_len (mo_req m)) < 2 ^ 31" "unat (rq_offset (mo_req m)) < 2 ^ 63"
    and "chans_wf (channels svc)" "mo_channel m < length (channels svc)"
    and "execute_round p (PosixExecutor L) [m] svc = Inr svc'"
  shows "\<exists>g rs. g \<noteq> [] \<and> set g \<subseteq> set (pending b) \<and> mo_sources m = map (source_of (mo_req m)) g \<and>
    chan_log (channels svc') (mo_channel m) = chan_log (channels svc) (mo_channel m) @ rs \<and>
    map rs_id rs = map t_id g \<and> file (executor svc') fd = Some bs \<and>
    ((\<forall>t \<in> set g. unat (t_offset t) + unat (t_len t) < unat (rq_offset (mo_req m)) + 2 ^ 32) \<longrightarrow>
      list_all2 (gets_own bs (seg (executor svc') (mo_channel m))) g rs)"
proof -
  let ?k = "mo_channel m" and ?q = "mo_req m"
  let ?data = "file_range bs (rq_offset ?q) (as_u64 (rq_len ?q))"
  have fits: "fits t" if "t \<in> set (pending b)" for t using assms(3) that by blast
  from drain_merged_cover [OF assms(1) fits assms(2)] obtain g span where
    g: "set g \<subseteq> set (pending b)" and ok: "op_kind_ok m g span" by blast
  have bound: "unat (rq_data_offset ?q) + unat (as_u64 (rq_len ?q)) \<le> length (seg (executor svc) ?k)"
    "unat (as_u64 (rq_len ?q)) < 2 ^ 31" using assms(8,10) by simp_all
  from regular_pread [OF assms(4,7) bound assms(11)] obtain w where
    w: "c_pread L (executor svc) fd (?k, unat (rq_data_offset ?q)) (as_u64 (rq_len ?q)) (rq_offset ?q) =
        (of_nat (length ?data), w)" "file w fd = Some bs"
      "seg w ?k = overwrite (seg (executor svc) ?k) (unat (rq_data_offset ?q)) ?data" .
  have "length ?data < 2 ^ 31"
    using length_file_range [of bs "rq_offset ?q" "as_u64 (rq_len ?q)"] bound(2) by linarith
  then have count: "\<not> negative (of_nat (length ?data) :: i64)"
    by (intro not_negative_small) (simp add: unat_of_nat)
  have "send_read_responses p m (of_nat (length ?data)) (svc\<lparr>executor := w\<rparr>) = Inr svc'"
    using posix_read_round [OF assms(5,6,13) w(1) count, of p] assms(14) by simp
  with count send_read_list obtain rs where
    rs: "list_all2 (\<lambda>src r. read_response p ?q (of_nat (length ?data)) src = Inr r) (mo_sources m) rs"
      "send_list (map (Pair ?k) rs) (svc\<lparr>executor := w\<rparr>) = Inr svc'"
    by (fastforce simp: send_read_responses_def)
  note log = send_list_log [OF assms(12) rs(2)]
  have src: "mo_sources m = map (source_of ?q) g" "g \<noteq> []" using ok by (simp_all add: op_kind_ok_def)
  have each: "list_all2 (\<lambda>t r. read_response p ?q (of_nat (length ?data)) (source_of ?q t) = Inr r) g rs"
    using rs(1) by (simp add: src list_all2_map1)
  then have "list_all2 (\<lambda>t r. rs_id r = t_id t) g rs"
    by (rule list_all2_mono) (auto dest!: read_response_id simp: source_of_def)
  then have ids: "map rs_id rs = map t_id g" by (induction rule: list_all2_induct) simp_all
  have own: "list_all2 (gets_own bs (seg w ?k)) g rs"
    if near: "\<forall>t \<in> set g. unat (t_offset t) + unat (t_len t) < unat (rq_offset ?q) + 2 ^ 32"
  proof -
    have span: "span < 2 ^ 32" using ok near by (rule span_bound)
    have room: "unat (rq_data_offset ?q) + span < 2 ^ 32"
      using op_kind_ok_len [OF ok span] assms(8,9) by linarith
    have "gets_own bs (seg w ?k) t r"
      if "t \<in> set g" "read_response p ?q (of_nat (length ?data)) (source_of ?q t) = Inr r" for t r
      using read_response_own [OF ok span that(1) room refl, of p bs "seg (executor svc) ?k"] that(2) w(3) by auto
    with each show ?thesis by (auto simp: list_all2_conv_all_nth)
  qed
  show ?thesis using src g ids own log w(2) by (intro exI [of _ g] exI [of _ rs]) simp
qed

text \<open>Two adjacent reads of a file of six bytes, with buffers that are not adjacent: the second read gets
  the two bytes up to the end of the file, inside the merged buffer.\<close>

definition read_pair :: BatchEngine where
  "read_pair = mk_batch [(mk_req 1 Read 10 0 4 0, 0), (mk_req 2 Read 10 4 4 16, 0)]"

definition merged_pair :: MergedOp where
  "merged_pair = \<lparr>mo_req = mk_req 1 Read 10 0 8 0, mo_channel = 0, mo_sources = [(1, 0, 4), (2, 4, 4)]\<rparr>"

definition six_bytes :: "(disk, PassThrough) AtlasService" where
  "six_bytes = (fresh_service (AtlasService_new (\<lambda>_. replicate 32 0, [1, 2, 3, 4, 5, 6])) 1)\<lparr>fd_table := [10 \<mapsto> 3]\<rparr>"

lemma drain_read_pair: "drain_merged Release read_pair = Inr ([merged_pair], BatchEngine_new)"
  by (simp add: read_pair_def drain_eval) (simp add: mk_req_def merged_pair_def mk_batch_def
      BatchEngine_new_def batch_add_def)

lemma six_bytes_simps [simp]:
  "channels six_bytes = [fresh_channel 0]" "executor six_bytes = (\<lambda>_. replicate 32 0, [1, 2, 3, 4, 5, 6])"
  "fd_table six_bytes = [10 \<mapsto> 3]"
  by (simp_all add: six_bytes_def fresh_service_def AtlasService_new_def with_pipeline_def)

lemma one_round_returns:
  assumes "sources_ok m" "mo_channel m = 0" "length (mo_sources m) \<le> 4096"
  shows "\<exists>svc'. execute_round Release (PosixExecutor L) [m] ((fresh_service svc 1)\<lparr>fd_table := f\<rparr>) = Inr svc'"
proof (rule execute_round_total)
  let ?svc = "(fresh_service svc 1)\<lparr>fd_table := f\<rparr>"
  have "need k (op_keys m) \<le> chan_credit (channels ?svc) k" for k
    using assms(2,3)
    by (cases "k = 0") (auto simp: need_def op_keys_def intro: order_trans [OF length_filter_le])
  then show "affordable (concat (map op_keys [m])) ?svc" by (simp add: affordable_def)
  show "batch_executor (ex_batch (PosixExecutor L))" by (rule posix_batch_executor)
  show "\<exists>r. ex_batch (PosixExecutor L) w b = Inr r" for w b by (rule posix_batch_total)
qed (use assms in auto)

theorem merged_read_as_if_alone_witness:
  "\<exists>svc' r1 r2. execute_round Release (PosixExecutor disk_libc) [merged_pair] six_bytes = Inr svc' \<and>
    chan_log (channels svc') 0 = [r1, r2] \<and> rs_id r1 = 1 \<and> rs_id r2 = 2 \<and>
    take (unat (rs_data_len r1)) (drop (unat (rs_data_offset r1)) (disk_seg (executor svc') 0)) = [1, 2, 3, 4] \<and>
    take (unat (rs_data_len r2)) (drop (unat (rs_data_offset r2)) (disk_seg (executor svc') 0)) = [5, 6]"
proof -
  let ?t1 = "\<lparr>tr_req = mk_req 1 Read 10 0 4 0, tr_channel = 0\<rparr>"
    and ?t2 = "\<lparr>tr_req = mk_req 2 Read 10 4 4 16, tr_channel = 0\<rparr>"
  have pending: "pending read_pair = [?t1, ?t2]" by (simp add: read_pair_def)
  obtain svc' where run: "execute_round Release (PosixExecutor disk_libc) [merged_pair] six_bytes = Inr svc'"
    unfolding six_bytes_def using one_round_returns [of merged_pair disk_libc] by (auto simp: merged_pair_def sources_ok_def op_from_u8_def)
  have simps: "mo_req merged_pair = mk_req 1 Read 10 0 8 0" "mo_channel merged_pair = 0"
    by (simp_all add: merged_pair_def)
  have "\<exists>g rs. g \<noteq> [] \<and> set g \<subseteq> set (pending read_pair) \<and>
    mo_sources merged_pair = map (source_of (mo_req merged_pair)) g \<and>
    chan_log (channels svc') (mo_channel merged_pair) = chan_log (channels six_bytes) (mo_channel merged_pair) @ rs \<and>
    map rs_id rs = map t_id g \<and> disk_file (executor svc') 3 = Some [1, 2, 3, 4, 5, 6] \<and>
    ((\<forall>t \<in> set g. unat (t_offset t) + unat (t_len t) < unat (rq_offset (mo_req merged_pair)) + 2 ^ 32) \<longrightarrow>
      list_all2 (gets_own [1, 2, 3, 4, 5, 6] (disk_seg (executor svc') (mo_channel merged_pair))) g rs)"
    by (rule merged_read_as_if_alone [OF drain_read_pair _ _ disk_regular _ _ _ _ _ _ _ _ _ run])
      (simp_all add: simps pending fits_def io_op_def op_from_u8_def disk_file_def disk_seg_def chans_wf_def)
  then obtain g rs where g: "set g \<subseteq> set (pending read_pair)"
      "mo_sources merged_pair = map (source_of (mo_req merged_pair)) g"
    and log: "chan_log (channels svc') (mo_channel merged_pair) =
      chan_log (channels six_bytes) (mo_channel merged_pair) @ rs"
    and own: "(\<forall>t \<in> set g. unat (t_offset t) + unat (t_len t) < unat (rq_offset (mo_req merged_pair)) + 2 ^ 32) \<longrightarrow>
      list_all2 (gets_own [1, 2, 3, 4, 5, 6] (disk_seg (executor svc') (mo_channel merged_pair))) g rs"
    by (elim exE conjE) (rule that)
  have rs: "chan_log (channels svc') 0 = rs" using log by (simp add: simps chan_log_def)
  have "map t_id g = [1, 2]" using arg_cong [OF g(2), of "map fst"] by (simp add: merged_pair_def source_of_def comp_def)
  moreover have "x = ?t1 \<or> x = ?t2" if "x \<in> set g" for x using g(1) that by (auto simp: pending)
  ultimately have g12: "g = [?t1, ?t2]" by (fastforce simp: Cons_eq_map_conv map_eq_Cons_conv)
  have "list_all2 (gets_own [1, 2, 3, 4, 5, 6] (disk_seg (executor svc') 0)) [?t1, ?t2] rs"
    using own by (simp add: simps g12)
  then obtain r1 r2 where r12: "rs = [r1, r2]" "gets_own [1, 2, 3, 4, 5, 6] (disk_seg (executor svc') 0) ?t1 r1"
    "gets_own [1, 2, 3, 4, 5, 6] (disk_seg (executor svc') 0) ?t2 r2"
    by (auto simp: list_all2_Cons1)
  have "own_bytes [1, 2, 3, 4, 5, 6] ?t1 = [1, 2, 3, 4]" "own_bytes [1, 2, 3, 4, 5, 6] ?t2 = [5, 6]"
    "t_id ?t1 = 1" "t_id ?t2 = 2"
    by (simp_all add: own_bytes_def file_range_def)
  then show ?thesis
    using run rs gets_ownD [OF r12(2)] gets_ownD [OF r12(3)] r12(1)
    by - (rule exI [of _ svc'], rule exI [of _ r1], rule exI [of _ r2], simp only: simp_thms)
qed

section \<open>Merged writes\<close>

text \<open>Two writes of one client that are adjacent in the file leave the engine as one.\<close>

definition joined_writes :: "nat \<Rightarrow> IoRequest \<Rightarrow> IoRequest \<Rightarrow> MergedOp" where
  "joined_writes k r1 r2 =
     \<lparr>mo_req = r1\<lparr>rq_len := rq_len r1 + rq_len r2\<rparr>, mo_channel = k,
      mo_sources = [(rq_id r1, 0, rq_len r1), (rq_id r2, rq_len r1, rq_len r2)]\<rparr>"

lemma drain_two_writes:
  assumes "io_op r1 = Some Write" "io_op r2 = Some Write" "rq_fd r2 = rq_fd r1"
    and "rq_offset r2 = rq_offset r1 + as_u64 (rq_len r1)"
    and "unat (rq_offset r1) + unat (rq_len r1) + unat (rq_len r2) < 2 ^ 63"
    and "unat (rq_len r1) + unat (rq_len r2) < 2 ^ 31"
  shows "drain_merged p (mk_batch [(r1, k), (r2, k)]) = Inr ([joined_writes k r1 r2], BatchEngine_new)"
proof -
  let ?o = "rq_offset r1" and ?l1 = "as_u64 (rq_len r1)" and ?l2 = "as_u64 (rq_len r2)"
  let ?t1 = "\<lparr>tr_req = r1, tr_channel = k\<rparr>" and ?t2 = "\<lparr>tr_req = r2, tr_channel = k\<rparr>"
  have add: "uadd p ?o ?l1 = Inr (?o + ?l1)" "uadd p (?o + ?l1) ?l2 = Inr (?o + ?l1 + ?l2)"
    and u: "unat (?o + ?l1) = unat ?o + unat (rq_len r1)"
      "unat (?o + ?l1 + ?l2) = unat ?o + unat (rq_len r1) + unat (rq_len r2)"
  proof -
    show u1: "unat (?o + ?l1) = unat ?o + unat (rq_len r1)"
      using assms(5) unat_add_no_overflow [of ?o ?l1] by simp
    show "unat (?o + ?l1 + ?l2) = unat ?o + unat (rq_len r1) + unat (rq_len r2)"
      using assms(5) u1 unat_add_no_overflow [of "?o + ?l1" ?l2] by simp
    show "uadd p ?o ?l1 = Inr (?o + ?l1)" using assms(5) by (intro uadd_no_overflow) simp
    show "uadd p (?o + ?l1) ?l2 = Inr (?o + ?l1 + ?l2)" using assms(5) u1 by (intro uadd_no_overflow) simp
  qed
  have le: "?o \<le> ?o + ?l1" "?o \<le> ?o + ?l1 + ?l2" using u by (simp_all add: word_le_nat_alt)
  then have sub: "usub p (?o + ?l1) ?o = Inr ?l1" "usub p (?o + ?l1 + ?l2) ?o = Inr (?l1 + ?l2)"
    by simp_all
  have cast: "as_u32 (?l1 + ?l2) = rq_len r1 + rq_len r2" "as_u32 ?l1 = rq_len r1"
    using assms(6) by (simp_all add: word_unat_eq_iff unat_as_u32_u64 unat_word_ariths)
  have last: "(if ?o + ?l1 + ?l2 > ?o + ?l1 then ?o + ?l1 + ?l2 else ?o + ?l1) = ?o + ?l1 + ?l2"
    using u by (auto simp: word_less_nat_alt word_unat_eq_iff)
  have key: "sort_position ?t1 \<le> sort_position ?t2" using assms(3,4) le by (simp add: sort_position_def)
  have split: "split_pending [?t1, ?t2] = ([], [?t1, ?t2], [])"
    using assms(1,2) by (simp add: io_op_def)
  have sort: "sort_key sort_position [?t1, ?t2] = [?t1, ?t2]" using key by simp
  have "merge_runs p [?t1, ?t2] [] = Inr [joined_writes k r1 r2]"
    using assms(3,4) add sub cast last by (simp add: joins_def joined_writes_def)
  then show ?thesis
    by (simp add: drain_merged_def split merge_adjacent_def sort BatchEngine_new_def mk_batch_def batch_add_def
        del: split_pending.simps sort_key_simps)
qed

text \<open>C31. Merging writes assumes that bytes that are adjacent in the file are adjacent in the data region. Let
  a client's two writes to one descriptor be adjacent in the file and be drained together, wherever their
  data lie in the region. They are merged, and the round puts into the file, over the range of both, the
  bytes of the region from the first one's place on: the second write's own data offset plays no part.
  Both are answered as written in full.\<close>

theorem merged_write_loses_data:
  assumes "regular_files L seg set_seg file"
    and "io_op r1 = Some Write" "io_op r2 = Some Write" "rq_fd r2 = rq_fd r1"
    and "rq_offset r2 = rq_offset r1 + as_u64 (rq_len r1)"
    and "unat (rq_offset r1) + unat (rq_len r1) + unat (rq_len r2) < 2 ^ 63"
    and "unat (rq_len r1) + unat (rq_len r2) < 2 ^ 31"
    and "unat (rq_data_offset r1) + unat (rq_len r1) + unat (rq_len r2) \<le> length (seg (executor svc) k)"
    and "fd_table svc (rq_fd r1) = Some fd" "file (executor svc) fd = Some bs"
    and "chans_wf (channels svc)" "k < length (channels svc)"
    and "drain_merged p (mk_batch [(r1, k), (r2, k)]) = Inr (ops, b)"
    and "execute_round p (PosixExecutor L) ops svc = Inr svc'"
  shows "file (executor svc') fd = Some (overwrite bs (unat (rq_offset r1))
      (take (unat (rq_len r1) + unat (rq_len r2)) (drop (unat (rq_data_offset r1)) (seg (executor svc) k)))) \<and>
    chan_log (channels svc') k = chan_log (channels svc) k @
      [(IoResponse_ok (rq_id r1))\<lparr>rs_data_len := rq_len r1\<rparr>, (IoResponse_ok (rq_id r2))\<lparr>rs_data_len := rq_len r2\<rparr>]"
proof -
  let ?m = "joined_writes k r1 r2"
  have ops: "ops = [?m]" using drain_two_writes [OF assms(2-7), of p k] assms(13) by simp
  have m: "mo_channel ?m = k" "io_op (mo_req ?m) = Some Write" "rq_fd (mo_req ?m) = rq_fd r1"
    "rq_data_offset (mo_req ?m) = rq_data_offset r1" "rq_offset (mo_req ?m) = rq_offset r1"
    using assms(2) by (simp_all add: joined_writes_def io_op_def)
  have len: "unat (as_u64 (rq_len (mo_req ?m))) = unat (rq_len r1) + unat (rq_len r2)"
    using unat_add_no_overflow [of "rq_len r1" "rq_len r2"] assms(7) by (simp add: joined_writes_def)
  have bounds: "unat (rq_data_offset r1) + unat (as_u64 (rq_len (mo_req ?m))) \<le> length (seg (executor svc) k)"
    "unat (as_u64 (rq_len (mo_req ?m))) < 2 ^ 31" "unat (rq_offset r1) < 2 ^ 63"
    unfolding len using assms(6-8) by simp_all
  from regular_pwrite [OF assms(1,10) bounds] obtain w where
    w: "c_pwrite L (executor svc) fd (k, unat (rq_data_offset r1)) (as_u64 (rq_len (mo_req ?m))) (rq_offset r1) =
        (as_u64 (rq_len (mo_req ?m)), w)"
      "file w fd = Some (overwrite bs (unat (rq_offset r1))
        (buf_bytes seg (executor svc) k (unat (rq_data_offset r1)) (unat (as_u64 (rq_len (mo_req ?m))))))" .
  have count: "\<not> negative (as_u64 (rq_len (mo_req ?m)))" using bounds(2) by (rule not_negative_small)
  have "execute_round p (PosixExecutor L) [?m] svc =
      send_write_responses ?m (as_u64 (rq_len (mo_req ?m))) (svc\<lparr>executor := w\<rparr>)"
    by (rule posix_write_round [OF m(2) _ _ _ count]) (use m assms(9,12) w(1) in simp_all)
  then have "send_list (map (Pair k) (map write_response (mo_sources ?m))) (svc\<lparr>executor := w\<rparr>) = Inr svc'"
    using assms(14) count by (simp add: ops send_write_list m(1) comp_def)
  from send_list_log [OF assms(11) this] w(2) show ?thesis
    unfolding len buf_bytes_def by (simp add: joined_writes_def write_response_def)
qed

text \<open>Two writes of four bytes each, the data of the second one at offset 16 of the region: the file gets
  the zeros behind the data of the first.\<close>

definition write_pair :: "(IoRequest \<times> nat) list" where
  "write_pair = [(mk_req 1 Write 10 0 4 0, 0), (mk_req 2 Write 10 4 4 16, 0)]"

definition two_buffers :: "(disk, PassThrough) AtlasService" where
  "two_buffers = (fresh_service (AtlasService_new
     (\<lambda>_. [1, 2, 3, 4] @ replicate 12 0 @ [5, 6, 7, 8], [])) 1)\<lparr>fd_table := [10 \<mapsto> 3]\<rparr>"

theorem merged_write_loses_data_witness:
  "\<exists>ops b svc'. drain_merged Release (mk_batch write_pair) = Inr (ops, b) \<and>
    execute_round Release (PosixExecutor disk_libc) ops two_buffers = Inr svc' \<and>
    snd (executor svc') = [1, 2, 3, 4, 0, 0, 0, 0] \<and>
    map (\<lambda>r. (rs_id r, rs_status r, rs_data_len r)) (chan_log (channels svc') 0) = [(1, 0, 4), (2, 0, 4)]"
proof -
  let ?r1 = "mk_req 1 Write 10 0 4 0" and ?r2 = "mk_req 2 Write 10 4 4 16"
  have op: "io_op (mk_req i Write fd off l d) = Some Write" for i fd off l d
    by (simp add: io_op_def op_from_u8_def)
  have d: "drain_merged Release (mk_batch write_pair) = Inr ([joined_writes 0 ?r1 ?r2], BatchEngine_new)"
    unfolding write_pair_def by (intro drain_two_writes) (simp_all add: op)
  obtain svc' where run: "execute_round Release (PosixExecutor disk_libc) [joined_writes 0 ?r1 ?r2] two_buffers = Inr svc'"
    unfolding two_buffers_def using one_round_returns [of "joined_writes 0 ?r1 ?r2" disk_libc]
    by (auto simp: joined_writes_def sources_ok_def op_from_u8_def)
  have facts: "channels two_buffers = [fresh_channel 0]" "fd_table two_buffers = [10 \<mapsto> 3]"
    "executor two_buffers = (\<lambda>_. [1, 2, 3, 4] @ replicate 12 0 @ [5, 6, 7, 8], [])"
    by (simp_all add: two_buffers_def fresh_service_def AtlasService_new_def with_pipeline_def)
  have zeros: "replicate 4 0 = [0, 0, 0, 0 :: u8]" by code_simp
  have "disk_file (executor svc') 3 = Some (overwrite [] (unat (rq_offset ?r1))
      (take (unat (rq_len ?r1) + unat (rq_len ?r2))
        (drop (unat (rq_data_offset ?r1)) (disk_seg (executor two_buffers) 0)))) \<and>
    chan_log (channels svc') 0 = chan_log (channels two_buffers) 0 @
      [(IoResponse_ok (rq_id ?r1))\<lparr>rs_data_len := rq_len ?r1\<rparr>, (IoResponse_ok (rq_id ?r2))\<lparr>rs_data_len := rq_len ?r2\<rparr>]"
    by (rule merged_write_loses_data [OF disk_regular _ _ _ _ _ _ _ _ _ _ _ d [unfolded write_pair_def] run])
      (simp_all add: op facts disk_file_def disk_seg_def chans_wf_def)
  then have "snd (executor svc') = [1, 2, 3, 4, 0, 0, 0, 0]"
    "map (\<lambda>r. (rs_id r, rs_status r, rs_data_len r)) (chan_log (channels svc') 0) = [(1, 0, 4), (2, 0, 4)]"
    by (simp_all add: facts disk_file_def disk_seg_def overwrite_def chan_log_def zeros)
  with d run show ?thesis by (intro exI conjI)
qed

section \<open>Short writes\<close>

text \<open>A disk that is full: of any write only the first \<open>left\<close> bytes get into the file, and \<open>pwrite\<close> returns
  how many they are (POSIX.1-2017, \<open>pwrite\<close>: a count less than \<open>nbyte\<close> when there is no room for more).\<close>

definition full_disk ::
  "nat \<Rightarrow> 'w LibC \<Rightarrow> ('w \<Rightarrow> nat \<Rightarrow> u8 list) \<Rightarrow> (nat \<Rightarrow> u8 list \<Rightarrow> 'w \<Rightarrow> 'w) \<Rightarrow> ('w \<Rightarrow> i32 \<Rightarrow> u8 list option) \<Rightarrow> bool" where
  "full_disk left L seg set_seg file \<longleftrightarrow>
     (\<forall>k m w. seg (set_seg k m w) k = m \<and> file (set_seg k m w) = file w) \<and>
     (\<forall>w fd bs k b n off. file w fd = Some bs \<longrightarrow> b + unat n \<le> length (seg w k) \<longrightarrow>
        unat n < 2 ^ 31 \<longrightarrow> unat off < 2 ^ 63 \<longrightarrow>
        (\<exists>w'. c_pwrite L w fd (k, b) n off = (of_nat (min left (unat n)), w') \<and> seg w' k = seg w k \<and>
           file w' fd = Some (overwrite bs (unat off) (buf_bytes seg w k b (min left (unat n))))))"

lemma full_disk_pwrite:
  assumes "full_disk left L seg set_seg file" "file w fd = Some bs" "b + unat n \<le> length (seg w k)"
    "unat n < 2 ^ 31" "unat off < 2 ^ 63"
  obtains w' where "c_pwrite L w fd (k, b) n off = (of_nat (min left (unat n)), w')" "seg w' k = seg w k"
    "file w' fd = Some (overwrite bs (unat off) (buf_bytes seg w k b (min left (unat n))))"
  using assms(1) [unfolded full_disk_def, THEN conjunct2, rule_format, OF assms(2-5)] by blast

text \<open>C30. A client is not told of a short write. On a disk that has room for only \<open>left\<close> more bytes of a write,
  a write through the whole system puts just these into the file, and yet the call returns the full
  length of the buffer, as if all of it had been written: the service does not look at the count that
  \<open>pwrite\<close> returns.\<close>

theorem short_writes_reported_full:
  assumes "full_disk left L seg set_seg file"
    and "lone_stage (pl_add Pl) (pl_is_empty Pl) (pl_drain Pl) held invar"
    and "file_open k Pl invar file fd bs ac"
    and "length buf \<le> unat (dr_len (cc_data (ac_channel ac)))" "unat off + length buf < 2 ^ 63"
  shows "\<exists>ac'. client_write p [] [service_move p (PosixExecutor L) Pl k seg set_seg] fd buf off ac =
      Inr (Inr (of_nat (length buf)), ac', []) \<and>
    file_open k Pl invar file fd (overwrite bs (unat off) (take left buf)) ac'"
proof -
  let ?c = "ac_channel ac" and ?n = "of_nat (length buf) :: usize"
  obtain rfd where idle: "system_idle k Pl invar ?c" and wf: "region_wf (cc_data ?c)"
    and rfd: "fd_table (cc_peer ?c) fd = Some rfd" "file (executor (cc_peer ?c)) rfd = Some bs"
    using assms(3) by (auto simp: file_open_def)
  note n = small_len [OF wf assms(4)]
  have seg: "seg (set_seg k m w) k = m" "file (set_seg k m w) = file w" for m w
    using assms(1) by (simp_all add: full_disk_def)
  have "\<exists>rc w'. c_pwrite L (set_seg k m (executor (cc_peer ?c))) rfd (k, start) ?n off = (rc, w') \<and>
      \<not> negative rc \<and> seg w' k = m \<and> file w' rfd = Some (overwrite bs (unat off) (take left buf))"
    if m: "length m = unat (dr_len (cc_data ?c))" "start + length buf \<le> length m"
      "take (length buf) (drop start m) = buf" for start m
  proof -
    let ?w = "set_seg k m (executor (cc_peer ?c))"
    have fits: "start + unat ?n \<le> length (seg ?w k)" "unat ?n < 2 ^ 31" "unat off < 2 ^ 63"
      using m(2) n assms(5) seg by simp_all
    have "file ?w rfd = Some bs" using seg rfd(2) by simp
    from full_disk_pwrite [OF assms(1) this fits] obtain w' where
      w': "c_pwrite L ?w rfd (k, start) ?n off = (of_nat (min left (unat ?n)), w')" "seg w' k = seg ?w k"
      "file w' rfd = Some (overwrite bs (unat off) (buf_bytes seg ?w k start (min left (unat ?n))))" .
    have "take left (take (length buf) (drop start m)) = take left buf" using m(3) by simp
    then have "buf_bytes seg ?w k start (min left (unat ?n)) = take left buf"
      by (simp add: buf_bytes_def seg n)
    moreover have "\<not> negative (of_nat (min left (unat ?n)) :: i64)"
      using fits(2) by (intro not_negative_small) (simp add: unat_of_nat)
    ultimately show ?thesis using w' seg by auto
  qed
  then show ?thesis
    using client_write_counted [OF assms(2) idle wf rfd(1) assms(4,5), where L = L and set_seg = set_seg
        and seg = seg and Q = "\<lambda>w'. file w' rfd = Some (overwrite bs (unat off) (take left buf))" and p = p] rfd(1)
    by (simp add: file_open_def) metis
qed

text \<open>Room for one byte: of three bytes one is written, and the client is told three.\<close>

definition one_byte_libc :: "disk LibC" where
  "one_byte_libc = disk_libc\<lparr>c_pwrite := \<lambda>w fd b n off. case (w, b) of ((segs, f), (k, at)) \<Rightarrow>
     (of_nat (min 1 (unat n)), segs, overwrite f (unat off) (take (min 1 (unat n)) (drop at (segs k))))\<rparr>"

lemma one_byte_full: "full_disk 1 one_byte_libc disk_seg disk_set_seg disk_file"
  unfolding full_disk_def
  by (auto simp: one_byte_libc_def disk_seg_def disk_set_seg_def disk_file_def buf_bytes_def split: if_splits)

theorem short_writes_reported_full_witness:
  "\<exists>ac'. client_write Debug [] [service_move Debug (PosixExecutor one_byte_libc) pass_through 0 disk_seg disk_set_seg]
      5 [7, 8, 9] 0 small_client = Inr (Inr 3, ac', []) \<and>
    snd (executor (cc_peer (ac_channel ac'))) = [7]"
proof -
  have bound: "length [7, 8, 9 :: u8] \<le> unat (dr_len (cc_data (ac_channel small_client)))"
    "unat (0 :: u64) + length [7, 8, 9 :: u8] < 2 ^ 63"
    by (simp_all add: small_client_def small_channel_def small_region_def)
  from short_writes_reported_full [OF one_byte_full lone_pass_through small_file bound, of Debug] show ?thesis
    by (auto simp: file_open_def disk_file_def overwrite_def split: if_splits)
qed

end
