(* ===== verification/Client_Session.thy ===== *)
theory Client_Session
  imports Client
begin

text \<open>
  A client process as the sequence of the library calls it makes (\<open>atlas-client/src/lib.rs\<close>), through any
  number of clients that share the counter of request numbers: what the service gets to see of it.
\<close>

section \<open>Sessions\<close>

text \<open>The calls with their arguments.\<close>

datatype client_op =
  Open_File "u8 list" u32
| Read_At u64 "u8 list" u64
| Write_At u64 "u8 list" u64
| Sync_File u64
| Close_File u64

text \<open>One call, its result forgotten; \<open>others\<close> is what other threads do to the allocator meanwhile.\<close>

definition client_call ::
  "profile \<Rightarrow> client_op \<times> u32 list \<Rightarrow> 'p peer_move list \<Rightarrow> 'p AtlasClient \<Rightarrow> ('p AtlasClient \<times> 'p peer_move list) exec" where
  "client_call p call moves ac =
     (case call of (op, others) \<Rightarrow>
        (case op of
           Open_File path flags \<Rightarrow> and_then (client_open moves path flags ac) (\<lambda>res. Inr (snd res))
         | Read_At fd buf offset \<Rightarrow> and_then (client_read p others moves fd buf offset ac) (\<lambda>res. Inr (snd res))
         | Write_At fd buf offset \<Rightarrow> and_then (client_write p others moves fd buf offset ac) (\<lambda>res. Inr (snd res))
         | Sync_File fd \<Rightarrow> and_then (client_sync moves fd ac) (\<lambda>res. Inr (snd res))
         | Close_File fd \<Rightarrow> and_then (client_close moves fd ac) (\<lambda>res. Inr (snd res))))"

text \<open>\<open>NEXT_REQ_ID\<close> is a static of the process: all its clients draw from one counter. A call takes its
  number in one atomic step (\<open>fetch_add\<close>), and works on the channel of its own client otherwise; a client
  makes one call at a time (\<open>&mut self\<close>). Calls of different clients may overlap; the list has them in the
  order in which they take their numbers, and \<open>moves\<close> is whatever happens to a call's channel while it
  waits.\<close>

record 'p Process =
  pr_next_id :: u64
  pr_clients :: "'p AtlasClient list"

type_synonym 'p process_call = "nat \<times> client_op \<times> u32 list \<times> 'p peer_move list"

definition process_call :: "profile \<Rightarrow> 'p Process \<Rightarrow> 'p process_call \<Rightarrow> 'p Process exec" where
  "process_call p pr call =
     (case call of (i, op, others, moves) \<Rightarrow>
        if i < length (pr_clients pr) then
          and_then (client_call p (op, others) moves ((pr_clients pr ! i)\<lparr>ac_next_id := pr_next_id pr\<rparr>)) (\<lambda>res.
            Inr \<lparr>pr_next_id = ac_next_id (fst res), pr_clients = (pr_clients pr)[i := fst res]\<rparr>)
        else Inl Index_Range)"

definition process_run :: "profile \<Rightarrow> 'p process_call list \<Rightarrow> 'p Process \<Rightarrow> 'p Process exec" where
  "process_run p calls pr = fold_exec (process_call p) pr calls"

section \<open>The requests of a process\<close>

text \<open>A request with the shape of its type whose operation and priority bytes are codes.\<close>

definition request_typed :: "IoRequest \<Rightarrow> bool" where
  "request_typed r \<longleftrightarrow> request_shape r \<and> io_op r \<noteq> None \<and> io_priority r \<noteq> None"

lemma request_typed_new [simp]: "request_typed (IoRequest_new i op pr)"
  by (simp add: request_typed_def io_op_def io_priority_def)

lemma request_typed_fields [simp]:
  "request_typed (r\<lparr>rq_len := n\<rparr>) = request_typed r" "request_typed (r\<lparr>rq_fd := f\<rparr>) = request_typed r"
  "request_typed (r\<lparr>rq_offset := off\<rparr>) = request_typed r" "request_typed (r\<lparr>rq_data_offset := d\<rparr>) = request_typed r"
  by (simp_all add: request_typed_def request_shape_def io_op_def io_priority_def)

lemma request_typed_set_path [simp]: "request_typed r \<Longrightarrow> request_typed (set_path r path)"
  using request_shape_set_path [of r path]
  by (simp add: request_typed_def io_op_def io_priority_def set_path_def Let_def)

lemma io_op_fields [simp]:
  "io_op (r\<lparr>rq_len := n\<rparr>) = io_op r" "io_op (r\<lparr>rq_fd := f\<rparr>) = io_op r" "io_op (set_path r path) = io_op r"
  "io_op (r\<lparr>rq_offset := off\<rparr>) = io_op r" "io_op (r\<lparr>rq_data_offset := d\<rparr>) = io_op r"
  "io_op (IoRequest_new i op pr) = Some op"
  by (simp_all add: io_op_def set_path_def Let_def)

text \<open>The operation a call asks for.\<close>

fun call_op :: "client_op \<Rightarrow> IoOp" where
  "call_op (Open_File _ _) = Open"
| "call_op (Read_At _ _ _) = Read"
| "call_op (Write_At _ _ _) = Write"
| "call_op (Sync_File _) = Sync"
| "call_op (Close_File _) = Close"

text \<open>What one call contributes: a typed request for its operation with the counter's number, and the next
  number.\<close>

definition sends_one :: "IoOp \<Rightarrow> 'p AtlasClient \<Rightarrow> 'p AtlasClient \<Rightarrow> bool" where
  "sends_one op ac ac' \<longleftrightarrow> cc_wf (ac_channel ac') \<and> ac_next_id ac' = ac_next_id ac + 1 \<and>
     (\<exists>r. req_log (ac_channel ac') = req_log (ac_channel ac) @ [r] \<and> rq_id r = ac_next_id ac \<and>
        request_typed r \<and> io_op r = Some op)"

lemma on_channel_rest:
  "on_channel moves req ac = Inr (resp, ac', ms) \<Longrightarrow> cc_wf (ac_channel ac) \<Longrightarrow> \<forall>m \<in> set moves. peer_ok m \<Longrightarrow>
    set ms \<subseteq> set moves"
  using send_request_spec by (fastforce simp: on_channel_def elim!: and_then_InrE)

lemma call_sends_one:
  assumes "on_channel moves req (ac\<lparr>ac_next_id := ac_next_id ac + 1\<rparr>) = Inr (resp, ac', ms)"
    and "cc_wf (ac_channel ac)" "\<forall>m \<in> set moves. peer_ok m"
    and "rq_id req = ac_next_id ac" "request_typed req" "io_op req = Some op"
  shows "sends_one op ac ac' \<and> set ms \<subseteq> set moves"
  using on_channel_spec [OF assms(1)] on_channel_rest [OF assms(1)] assms(2-)
  by (simp add: sends_one_def client_frame_def)

lemma data_call_sends_one:
  assumes "on_channel moves req (with_data d ac) = Inr (resp, ac', ms)"
    and "cc_wf (ac_channel ac)" "\<forall>m \<in> set moves. peer_ok m"
    and "rq_id req = ac_next_id ac" "request_typed req" "io_op req = Some op"
  shows "sends_one op ac ac' \<and> set ms \<subseteq> set moves"
  using on_channel_spec [OF assms(1)] on_channel_rest [OF assms(1)] assms(2-)
  by (simp add: sends_one_def client_frame_def cc_wf_data)

lemma client_call_sends_one:
  assumes "client_call p call moves ac = Inr (ac', ms)"
    and "cc_wf (ac_channel ac)" "\<forall>m \<in> set moves. peer_ok m"
  shows "sends_one (call_op (fst call)) ac ac' \<and> set ms \<subseteq> set moves"
proof -
  obtain op others where call: "call = (op, others)" by force
  note by_id = call_sends_one [OF _ assms(2,3)] and by_data = data_call_sends_one [OF _ assms(2,3)]
  note un = client_call_def next_id_def Let_def
  show ?thesis
  proof (cases op)
    case (Open_File path flags)
    with assms(1) call show ?thesis
      by (auto simp: un client_open_def elim!: and_then_InrE dest!: by_id)
  next
    case (Read_At fd buf offset)
    with assms(1) call show ?thesis
      by (auto simp: un client_read_def read_with_def elim!: and_then_InrE dest!: by_data split: if_splits)
  next
    case (Write_At fd buf offset)
    with assms(1) call show ?thesis
      by (auto simp: un client_write_def write_with_def elim!: and_then_InrE dest!: by_data)
  next
    case (Sync_File fd)
    with assms(1) call show ?thesis
      by (auto simp: un client_sync_def elim!: and_then_InrE dest!: by_id)
  next
    case (Close_File fd)
    with assms(1) call show ?thesis
      by (auto simp: un client_close_def elim!: and_then_InrE dest!: by_id)
  qed
qed

text \<open>A call of the process: one request on its own client's ring, and the other clients as they were.\<close>

definition clients_wf :: "'p AtlasClient list \<Rightarrow> bool" where
  "clients_wf acs \<longleftrightarrow> (\<forall>ac \<in> set acs. cc_wf (ac_channel ac))"

definition client_log :: "'p Process \<Rightarrow> nat \<Rightarrow> IoRequest list" where
  "client_log pr i = req_log (ac_channel (pr_clients pr ! i))"

lemma process_call_sends:
  assumes "process_call p pr (i, op, others, moves) = Inr pr1"
    and "clients_wf (pr_clients pr)" "\<forall>m \<in> set moves. peer_ok m"
  obtains r where "i < length (pr_clients pr)" "length (pr_clients pr1) = length (pr_clients pr)"
    "clients_wf (pr_clients pr1)" "pr_next_id pr1 = pr_next_id pr + 1"
    "rq_id r = pr_next_id pr" "request_typed r" "io_op r = Some (call_op op)"
    "\<And>j. j < length (pr_clients pr) \<Longrightarrow> client_log pr1 j = client_log pr j @ (if j = i then [r] else [])"
proof -
  let ?ac = "(pr_clients pr ! i)\<lparr>ac_next_id := pr_next_id pr\<rparr>"
  obtain ac1 ms where i: "i < length (pr_clients pr)"
    and c: "client_call p (op, others) moves ?ac = Inr (ac1, ms)"
    and pr1: "pr1 = \<lparr>pr_next_id = ac_next_id ac1, pr_clients = (pr_clients pr)[i := ac1]\<rparr>"
    using assms(1) by (auto simp: process_call_def split: if_splits elim!: and_then_InrE)
  have "cc_wf (ac_channel ?ac)" using assms(2) i by (simp add: clients_wf_def)
  from client_call_sends_one [OF c this assms(3)] obtain r where
    r: "cc_wf (ac_channel ac1)" "ac_next_id ac1 = pr_next_id pr + 1"
      "req_log (ac_channel ac1) = client_log pr i @ [r]" "rq_id r = pr_next_id pr" "request_typed r"
      "io_op r = Some (call_op op)"
    by (auto simp: sends_one_def client_log_def)
  have "clients_wf ((pr_clients pr)[i := ac1])"
    using assms(2) r(1) set_update_subset_insert [of "pr_clients pr" i ac1] by (auto simp: clients_wf_def)
  with i r that [of r] show thesis by (simp add: pr1 client_log_def nth_list_update)
qed

text \<open>The requests of a run, in the order of their numbers, and where they go.\<close>

lemma process_run_sends:
  assumes "process_run p calls pr = Inr pr'"
    and "clients_wf (pr_clients pr)" "\<forall>(_, _, _, moves) \<in> set calls. \<forall>m \<in> set moves. peer_ok m"
  shows "\<exists>rs. map rq_id rs = map (\<lambda>k. pr_next_id pr + of_nat k) [0..<length calls] \<and>
    list_all2 (\<lambda>call r. request_typed r \<and> io_op r = Some (call_op (fst (snd call)))) calls rs \<and>
    (\<forall>j < length (pr_clients pr). client_log pr' j =
       client_log pr j @ map snd (filter (\<lambda>x. fst (fst x) = j) (zip calls rs)))"
  using assms
proof (induction calls arbitrary: pr)
  case Nil
  then show ?case by (intro exI [of _ "[]"]) (simp add: process_run_def)
next
  case (Cons call calls)
  obtain i op others moves where call: "call = (i, op, others, moves)" by (cases call)
  obtain pr1 where c: "process_call p pr (i, op, others, moves) = Inr pr1"
    and rest: "process_run p calls pr1 = Inr pr'"
    using Cons.prems(1) by (auto simp: process_run_def call elim!: and_then_InrE)
  have ok: "\<forall>m \<in> set moves. peer_ok m" "\<forall>(_, _, _, moves) \<in> set calls. \<forall>m \<in> set moves. peer_ok m"
    using Cons.prems(3) by (auto simp: call)
  obtain r where r: "length (pr_clients pr1) = length (pr_clients pr)" "clients_wf (pr_clients pr1)"
    "pr_next_id pr1 = pr_next_id pr + 1" "rq_id r = pr_next_id pr" "request_typed r" "io_op r = Some (call_op op)"
    and log: "\<And>j. j < length (pr_clients pr) \<Longrightarrow> client_log pr1 j = client_log pr j @ (if j = i then [r] else [])"
    by (rule process_call_sends [OF c Cons.prems(2) ok(1)]) blast
  from Cons.IH [OF rest r(2) ok(2)] obtain rs where
    rs: "map rq_id rs = map (\<lambda>k. pr_next_id pr1 + of_nat k) [0..<length calls]"
      "list_all2 (\<lambda>call r. request_typed r \<and> io_op r = Some (call_op (fst (snd call)))) calls rs"
    and logs: "\<forall>j < length (pr_clients pr1). client_log pr' j =
       client_log pr1 j @ map snd (filter (\<lambda>x. fst (fst x) = j) (zip calls rs))" by blast
  have "map rq_id (r # rs) = map (\<lambda>k. pr_next_id pr + of_nat k) [0..<length (call # calls)]"
    using rs(1) r(3,4) by (simp add: map_upt_Suc algebra_simps del: upt_Suc)
  then show ?case
    using rs(2) r log logs by (intro exI [of _ "r # rs"]) (simp add: call)
qed

lemma consecutive_ids_distinct:
  "n \<le> 2 ^ 64 \<Longrightarrow> distinct (map (\<lambda>k. (i::u64) + of_nat k) [0..<n])"
  by (auto simp: distinct_map inj_on_def of_nat_inverse unsigned_of_nat take_bit_nat_eq_self
      dest!: arg_cong [where f = unat])

section \<open>The property\<close>

text \<open>C11. Whatever calls the clients of a process make and whatever a well-behaved service does meanwhile,
  each call puts exactly one request on the ring of its own client and none on another; the arrays of each
  have the lengths of the struct's type, its operation byte is the code of the call's operation and its
  priority byte decodes. Over all clients the numbers count up from the process's counter in the order in
  which the calls take them, so that no two of \<open>2^64\<close> successive calls share one, whichever clients make
  them; each client sees an increasing part of the numbers.\<close>

theorem session_requests_typed:
  assumes "process_run p calls pr = Inr pr'"
    and "clients_wf (pr_clients pr)" "\<forall>(_, _, _, moves) \<in> set calls. \<forall>m \<in> set moves. peer_ok m"
    and "length calls \<le> 2 ^ 64"
  shows "\<exists>rs. length rs = length calls \<and>
    (\<forall>j < length (pr_clients pr). client_log pr' j =
       client_log pr j @ map snd (filter (\<lambda>x. fst (fst x) = j) (zip calls rs))) \<and>
    list_all2 (\<lambda>call r. request_shape r \<and> io_op r = Some (call_op (fst (snd call))) \<and> io_priority r \<noteq> None) calls rs \<and>
    map rq_id rs = map (\<lambda>k. pr_next_id pr + of_nat k) [0..<length calls] \<and> distinct (map rq_id rs)"
proof -
  from process_run_sends [OF assms(1-3)] obtain rs where
    ids: "map rq_id rs = map (\<lambda>k. pr_next_id pr + of_nat k) [0..<length calls]"
    and typed: "list_all2 (\<lambda>call r. request_typed r \<and> io_op r = Some (call_op (fst (snd call)))) calls rs"
    and logs: "\<forall>j < length (pr_clients pr). client_log pr' j =
       client_log pr j @ map snd (filter (\<lambda>x. fst (fst x) = j) (zip calls rs))" by blast
  have "list_all2 (\<lambda>call r. request_shape r \<and> io_op r = Some (call_op (fst (snd call))) \<and> io_priority r \<noteq> None) calls rs"
    using typed by (rule list_all2_mono) (simp add: request_typed_def)
  with ids logs consecutive_ids_distinct [OF assms(4)] list_all2_lengthD [OF typed] show ?thesis
    by (intro exI [of _ rs]) simp
qed

text \<open>Two clients of one process, with a service that answers: a sync of the first takes the number 1, and
  the close of the second, although it is that client's first call, the number 2.\<close>

theorem session_requests_typed_witness:
  "\<exists>pr' r1 r2. process_run Debug [(0, Sync_File 5, [], [answer_one]), (1, Close_File 6, [], [answer_one])]
       \<lparr>pr_next_id = 1, pr_clients = [idle_client, idle_client]\<rparr> = Inr pr' \<and>
     client_log pr' 0 = [r1] \<and> client_log pr' 1 = [r2] \<and> rq_id r1 = 1 \<and> rq_id r2 = 2 \<and>
     io_op r1 = Some Sync \<and> io_op r2 = Some Close"
proof -
  let ?calls = "[(0, Sync_File 5, [], [answer_one]), (1, Close_File 6, [], [answer_one])] :: unit process_call list"
    and ?pr = "\<lparr>pr_next_id = 1, pr_clients = [idle_client, idle_client]\<rparr>"
    and ?req1 = "(IoRequest_new 1 Sync Critical)\<lparr>rq_fd := 5\<rparr>" and ?ac1 = "idle_client\<lparr>ac_next_id := 2\<rparr>"
    and ?req2 = "(IoRequest_new 2 Close Low)\<lparr>rq_fd := 6\<rparr>" and ?ac2 = "idle_client\<lparr>ac_next_id := 3\<rparr>"
  obtain ac1 where c1: "on_channel [answer_one] ?req1 ?ac1 = Inr (IoResponse_ok 1, ac1, [])"
    using on_channel_answered [of ?ac1 ?req1] by (auto simp: idle_client_def)
  obtain ac2 where c2: "on_channel [answer_one] ?req2 ?ac2 = Inr (IoResponse_ok 2, ac2, [])"
    using on_channel_answered [of ?ac2 ?req2] by (auto simp: idle_client_def)
  have ok: "peer_ok (answer_one :: unit peer_move)" by (rule peer_ok_answer_one)
  have wf: "cc_wf (ac_channel ?ac1)" "\<forall>m \<in> set [answer_one :: unit peer_move]. peer_ok m"
    using idle_client_facts(1) ok by simp_all
  have next1: "ac_next_id ac1 = 2" using on_channel_spec [OF c1 wf] by simp
  have run: "process_run Debug ?calls ?pr = Inr \<lparr>pr_next_id = ac_next_id ac2, pr_clients = [ac1, ac2]\<rparr>"
    using c1 c2 next1
    by (simp add: process_run_def process_call_def client_call_def client_sync_def client_close_def next_id_def Let_def)
  have "clients_wf (pr_clients ?pr)" "\<forall>(_, _, _, moves) \<in> set ?calls. \<forall>m \<in> set moves. peer_ok m"
    using idle_client_facts(1) wf(2) by (simp_all add: clients_wf_def)
  moreover have "length ?calls \<le> 2 ^ 64" by simp
  ultimately have "\<exists>rs. length rs = length ?calls \<and>
    (\<forall>j < length (pr_clients ?pr). client_log \<lparr>pr_next_id = ac_next_id ac2, pr_clients = [ac1, ac2]\<rparr> j =
       client_log ?pr j @ map snd (filter (\<lambda>x. fst (fst x) = j) (zip ?calls rs))) \<and>
    list_all2 (\<lambda>call r. request_shape r \<and> io_op r = Some (call_op (fst (snd call))) \<and> io_priority r \<noteq> None) ?calls rs \<and>
    map rq_id rs = map (\<lambda>k. pr_next_id ?pr + of_nat k) [0..<length ?calls] \<and> distinct (map rq_id rs)"
    by (rule session_requests_typed [OF run])
  then obtain rs where rs: "length rs = length ?calls"
    "\<forall>j < length (pr_clients ?pr). client_log \<lparr>pr_next_id = ac_next_id ac2, pr_clients = [ac1, ac2]\<rparr> j =
       client_log ?pr j @ map snd (filter (\<lambda>x. fst (fst x) = j) (zip ?calls rs))"
    "list_all2 (\<lambda>call r. request_shape r \<and> io_op r = Some (call_op (fst (snd call))) \<and> io_priority r \<noteq> None) ?calls rs"
    "map rq_id rs = map (\<lambda>k. pr_next_id ?pr + of_nat k) [0..<length ?calls]"
    by (elim exE conjE) (rule that)
  obtain r1 r2 where r: "rs = [r1, r2]" using rs(1) by (auto simp: length_Suc_conv)
  have none: "client_log ?pr 0 = []" "client_log ?pr 1 = []" by (simp_all add: client_log_def idle_client_def)
  have "client_log \<lparr>pr_next_id = ac_next_id ac2, pr_clients = [ac1, ac2]\<rparr> 0 = [r1]"
    "client_log \<lparr>pr_next_id = ac_next_id ac2, pr_clients = [ac1, ac2]\<rparr> 1 = [r2]"
    using rs(2) [rule_format, of 0] rs(2) [rule_format, of 1] none by (simp_all add: r)
  moreover have "rq_id r1 = 1" "rq_id r2 = 2" "io_op r1 = Some Sync" "io_op r2 = Some Close"
    using rs(3,4) by (simp_all add: r)
  ultimately show ?thesis using run by (intro exI conjI)
qed

end
