(* ===== verification/Daemon.thy ===== *)
theory Daemon
  imports Service_Properties
begin

text \<open>
  \<open>main\<close> of \<open>atlas-service/src/main.rs\<close>: the choice of the executor, and, after registration (theory
  Shm_Setup), the main thread that runs the service, a second thread that watches the flag \<open>STOP\<close> which the
  signal handler sets and clears \<open>running\<close>, and clients that act at any time. The threads share nothing but the
  two flags.
\<close>

section \<open>The service that is started\<close>

text \<open>\<open>IoUringExecutor::new\<close>, with \<open>IoUring::new\<close> of the crate as a parameter: the ring and its capacity.\<close>

definition IoUringExecutor_new :: "(u32 \<Rightarrow> 'e + 'r) \<Rightarrow> u32 \<Rightarrow> 'e + 'r \<times> u32" where
  "IoUringExecutor_new ring_new n =
     (case ring_new n of Inl e \<Rightarrow> Inl e | Inr ring \<Rightarrow> Inr (ring, n))"

text \<open>On Linux the variable \<open>ATLAS_USE_URING\<close> chooses the io_uring executor, and \<open>main\<close> panics when its ring
  cannot be made; otherwise the service runs on the POSIX executor. Either way it has no batching stage.\<close>

definition main_service ::
  "bool \<Rightarrow> bool \<Rightarrow> (u32 \<Rightarrow> 'e + 'r) \<Rightarrow> 'o \<Rightarrow>
   (('r, PassThrough) AtlasService \<times> u32 + ('o, PassThrough) AtlasService) exec" where
  "main_service linux use_uring ring_new w =
     (if linux \<and> use_uring then
        and_then (unwrap (IoUringExecutor_new ring_new 256)) (\<lambda>ex. case ex of (ring, cap) \<Rightarrow>
          Inr (Inl (AtlasService_new ring, cap)))
      else Inr (Inr (AtlasService_new w)))"

text \<open>Whichever service is started satisfies the contracts that the properties of the service ask for.\<close>

lemma main_service_ready:
  "main_service linux use_uring ring_new w = Inr (Inl (svc, cap)) \<Longrightarrow>
   cap = 256 \<and> between_rounds pass_through (\<lambda>_. True) svc \<and> channels svc = [] \<and>
   batch_executor (ex_batch (IoUringExecutor U cap))"
  "main_service linux use_uring ring_new w = Inr (Inr svc') \<Longrightarrow>
   between_rounds pass_through (\<lambda>_. True) svc' \<and> channels svc' = [] \<and>
   batch_executor (ex_batch (PosixExecutor L))"
  using uring.batch_executor_axioms posix_batch_executor
  by (auto simp: main_service_def IoUringExecutor_new_def unwrap_def AtlasService_new_def with_pipeline_def
      between_rounds_def chans_wf_def pass_through_def pt_is_empty_def PassThrough_new_def IoUringExecutor_def
      split: sum.splits if_splits elim!: and_then_InrE)

section \<open>The machine\<close>

text \<open>The main thread serves, has returned from \<open>run\<close>, has panicked, or is blocked: it spins in
  \<open>send_response\<close> on a response ring that its client has stopped emptying.\<close>

datatype main_thread = Serving | Returned | Panicked fault | Blocked

datatype watcher = Watching | Clearing | Exited

text \<open>\<open>dm_accepted k\<close> records the requests that the ring of channel \<open>k\<close> has accepted; the code does not
  read it.\<close>

record ('w, 's) Daemon =
  dm_stop :: bool
  dm_running :: bool
  dm_watcher :: watcher
  dm_main :: main_thread
  dm_service :: "('w, 's) AtlasService"
  dm_accepted :: "nat \<Rightarrow> IoRequest list"

definition daemon_start :: "('w, 's) AtlasService \<Rightarrow> ('w, 's) Daemon" where
  "daemon_start svc =
     \<lparr>dm_stop = False, dm_running = True, dm_watcher = Watching, dm_main = Serving, dm_service = svc,
      dm_accepted = (\<lambda>_. [])\<rparr>"

text \<open>The handler of \<open>SIGINT\<close> and \<open>SIGTERM\<close>.\<close>

definition sig_handler :: "('w, 's) Daemon \<Rightarrow> ('w, 's) Daemon" where
  "sig_handler d = d\<lparr>dm_stop := True\<rparr>"

text \<open>The steps. The flag \<open>running\<close> is read between two iterations of the loop, and nowhere else: an
  iteration that does not come back (the fault \<open>Spin\<close>) never sees it cleared.\<close>

inductive daemon_step ::
  "profile \<Rightarrow> 'w IoExecutor \<Rightarrow> 's Pipeline \<Rightarrow> ('w, 's) Daemon \<Rightarrow> ('w, 's) Daemon \<Rightarrow> bool"
  for p E Pl where
  signalled: "daemon_step p E Pl d (sig_handler d)"
| watch_again: "dm_watcher d = Watching \<Longrightarrow> \<not> dm_stop d \<Longrightarrow> daemon_step p E Pl d d"
| watch_stop: "dm_watcher d = Watching \<Longrightarrow> dm_stop d \<Longrightarrow> daemon_step p E Pl d (d\<lparr>dm_watcher := Clearing\<rparr>)"
| watch_clear: "dm_watcher d = Clearing \<Longrightarrow> daemon_step p E Pl d (d\<lparr>dm_running := False, dm_watcher := Exited\<rparr>)"
| client: "daemon_step p E Pl d
    (d\<lparr>dm_service := (dm_service d)\<lparr>channels := client_move m (channels (dm_service d))\<rparr>,
       dm_accepted := (\<lambda>k. dm_accepted d k @ move_accepted m (channels (dm_service d)) k)\<rparr>)"
| iterate: "dm_main d = Serving \<Longrightarrow> dm_running d \<Longrightarrow>
    serve_round p E Pl (dm_service d) = Inr (svc, did_work) \<Longrightarrow> daemon_step p E Pl d (d\<lparr>dm_service := svc\<rparr>)"
| panic: "dm_main d = Serving \<Longrightarrow> dm_running d \<Longrightarrow>
    serve_round p E Pl (dm_service d) = Inl e \<Longrightarrow> e \<noteq> Spin \<Longrightarrow>
    daemon_step p E Pl d (d\<lparr>dm_main := Panicked e\<rparr>)"
| blocks: "dm_main d = Serving \<Longrightarrow> dm_running d \<Longrightarrow>
    serve_round p E Pl (dm_service d) = Inl Spin \<Longrightarrow> daemon_step p E Pl d (d\<lparr>dm_main := Blocked\<rparr>)"
| run_returns: "dm_main d = Serving \<Longrightarrow> \<not> dm_running d \<Longrightarrow> daemon_step p E Pl d (d\<lparr>dm_main := Returned\<rparr>)"

inductive_cases daemon_stepE: "daemon_step p E Pl d d'"

text \<open>Clients that leave room for the answers: on no channel more requests wait than its response ring can
  take the responses of, now or by the client's next takes. A client that waits for each answer before it
  sends again, as \<open>send_request\<close> does, has at most one request waiting and an empty response ring.\<close>

definition leaves_room :: "('w, 's) Daemon \<Rightarrow> bool" where
  "leaves_room d \<longleftrightarrow> (\<forall>k < length (channels (dm_service d)).
     length (requests (channels (dm_service d) ! k)) \<le> chan_credit (channels (dm_service d)) k)"

lemma leaves_room_flags [simp]:
  "leaves_room (d\<lparr>dm_stop := b\<rparr>) = leaves_room d" "leaves_room (d\<lparr>dm_running := b\<rparr>) = leaves_room d"
  "leaves_room (d\<lparr>dm_watcher := w\<rparr>) = leaves_room d" "leaves_room (d\<lparr>dm_main := m\<rparr>) = leaves_room d"
  by (simp_all add: leaves_room_def)

definition polite_step ::
  "profile \<Rightarrow> 'w IoExecutor \<Rightarrow> 's Pipeline \<Rightarrow> ('w, 's) Daemon \<Rightarrow> ('w, 's) Daemon \<Rightarrow> bool" where
  "polite_step p E Pl d d' \<longleftrightarrow> daemon_step p E Pl d d' \<and> leaves_room d'"

section \<open>Invariants\<close>

text \<open>The flags only move forward, in order.\<close>

definition flags_ok :: "('w, 's) Daemon \<Rightarrow> bool" where
  "flags_ok d \<longleftrightarrow> (dm_running d \<longleftrightarrow> dm_watcher d \<noteq> Exited) \<and> (dm_watcher d \<noteq> Watching \<longrightarrow> dm_stop d) \<and>
     (dm_main d = Returned \<longrightarrow> \<not> dm_running d)"

lemma flags_ok_step: "daemon_step p E Pl d d' \<Longrightarrow> flags_ok d \<Longrightarrow> flags_ok d'"
  by (erule daemon_stepE) (auto simp: flags_ok_def sig_handler_def)

text \<open>Each accepted request has been answered once or is still in its ring.\<close>

definition accounted :: "(nat \<Rightarrow> IoResponse list) \<Rightarrow> ('w, 's) Daemon \<Rightarrow> nat \<Rightarrow> bool" where
  "accounted log0 d k \<longleftrightarrow>
     (\<exists>new. chan_log (channels (dm_service d)) k = log0 k @ new \<and>
        mset (map rs_id new) + mset (map rq_id (requests (channels (dm_service d) ! k))) =
          mset (map rq_id (dm_accepted d k)))"

definition service_ok ::
  "'s Pipeline \<Rightarrow> ('s \<Rightarrow> bool) \<Rightarrow> nat \<Rightarrow> (nat \<Rightarrow> IoResponse list) \<Rightarrow> ('w, 's) Daemon \<Rightarrow> bool" where
  "service_ok Pl invar n log0 d \<longleftrightarrow> between_rounds Pl invar (dm_service d) \<and>
     length (channels (dm_service d)) = n \<and> (\<forall>k < n. accounted log0 d k)"

lemma accounted_client:
  assumes "accounted log0 d k" "chans_wf (channels (dm_service d))" "k < length (channels (dm_service d))"
  shows "accounted log0
    (d\<lparr>dm_service := (dm_service d)\<lparr>channels := client_move m (channels (dm_service d))\<rparr>,
       dm_accepted := (\<lambda>k. dm_accepted d k @ move_accepted m (channels (dm_service d)) k)\<rparr>) k"
proof -
  have "mset xs + mset ys = mset zs \<Longrightarrow> mset xs + (mset ys + mset us) = mset zs + mset us" for xs ys zs us :: "u64 list"
    by (metis add.assoc)
  then show ?thesis using assms client_move_spec [OF assms(2), of m] by (auto simp: accounted_def)
qed

lemma service_ok_step:
  assumes E: "batch_executor (ex_batch E)"
    and Pl: "request_pipeline (pl_add Pl) (pl_is_empty Pl) (pl_drain Pl) held invar"
    and "daemon_step p E Pl d d'" "service_ok Pl invar n log0 d"
  shows "service_ok Pl invar n log0 d'"
  using assms(3)
proof (cases rule: daemon_step.cases)
  case (client m)
  have wf: "chans_wf (channels (dm_service d))" using assms(4) by (simp add: service_ok_def between_rounds_def)
  have "accounted log0 d' k" if "k < n" for k
    unfolding client using that assms(4) wf by (intro accounted_client) (simp_all add: service_ok_def)
  then show ?thesis
    using assms(4) client_move_spec [OF wf, of m] by (simp add: service_ok_def between_rounds_def client)
next
  case (iterate svc did_work)
  have bt: "between_rounds Pl invar (dm_service d)" and len: "length (channels (dm_service d)) = n"
    using assms(4) by (simp_all add: service_ok_def)
  note sp = serve_round_spec [OF iterate(4) bt E Pl]
  have "accounted log0 d' k" if k: "k < n" for k
  proof -
    obtain new where new: "chan_log (channels (dm_service d)) k = log0 k @ new"
      "mset (map rs_id new) + mset (map rq_id (requests (channels (dm_service d) ! k))) =
        mset (map rq_id (dm_accepted d k))"
      using assms(4) k by (auto simp: service_ok_def accounted_def)
    obtain more where "chan_log (channels svc) k = chan_log (channels (dm_service d)) k @ more"
      "mset (map rs_id more) = mset (map rq_id (requests (channels (dm_service d) ! k)))"
      "requests (channels svc ! k) = []"
      using sp k len by auto
    with new show ?thesis
      unfolding accounted_def by (intro exI [of _ "new @ more"]) (simp add: iterate(1))
  qed
  then show ?thesis using sp len by (simp add: service_ok_def iterate(1))
qed (use assms(4) in \<open>auto simp: service_ok_def accounted_def sig_handler_def\<close>)

text \<open>With room for the answers an iteration of the release build always comes back.\<close>

lemma polite_iteration:
  assumes "service_ok Pl invar n log0 d" "leaves_room d"
    and "batch_executor (ex_batch E)" "\<forall>w b. \<exists>r. ex_batch E w b = Inr r"
    and "request_pipeline (pl_add Pl) (pl_is_empty Pl) (pl_drain Pl) held invar"
  shows "\<exists>r. serve_round Release E Pl (dm_service d) = Inr r"
  using assms by (intro serve_round_total [where invar = invar and held = held])
    (auto simp: service_ok_def leaves_room_def)

lemma polite_main:
  assumes "daemon_step p E Pl d d'" "dm_main d \<in> {Serving, Returned}"
    and "\<exists>r. serve_round p E Pl (dm_service d) = Inr r"
  shows "dm_main d' \<in> {Serving, Returned}"
  using assms by (auto elim!: daemon_stepE simp: sig_handler_def)

lemma daemon_run_invariant:
  assumes "(polite_step Release E Pl)\<^sup>*\<^sup>* (daemon_start svc) d"
    and E: "batch_executor (ex_batch E)" "\<forall>w b. \<exists>r. ex_batch E w b = Inr r"
    and Pl: "request_pipeline (pl_add Pl) (pl_is_empty Pl) (pl_drain Pl) held invar"
    and "between_rounds Pl invar svc" "\<forall>k < length (channels svc). requests (channels svc ! k) = []"
  shows "flags_ok d \<and> service_ok Pl invar (length (channels svc)) (chan_log (channels svc)) d \<and> leaves_room d \<and>
    dm_main d \<in> {Serving, Returned}"
  using assms(1)
proof (induction rule: rtranclp_induct)
  case base
  then show ?case
    using assms(5,6) by (simp add: daemon_start_def flags_ok_def service_ok_def accounted_def leaves_room_def)
next
  case (step d1 d2)
  then have s: "daemon_step Release E Pl d1 d2" "leaves_room d2" by (simp_all add: polite_step_def)
  have "\<exists>r. serve_round Release E Pl (dm_service d1) = Inr r" using step.IH polite_iteration [OF _ _ E Pl] by blast
  with s step.IH show ?case
    using flags_ok_step service_ok_step [OF E(1) Pl] polite_main by blast
qed

section \<open>Stopping\<close>

text \<open>The steps that end a daemon whose main thread serves; they leave the service alone.\<close>

lemma step_then:
  "daemon_step p E Pl d d1 \<Longrightarrow> leaves_room d \<Longrightarrow> dm_service d1 = dm_service d \<Longrightarrow>
   \<exists>d'. (polite_step p E Pl)\<^sup>*\<^sup>* d1 d' \<and> dm_main d' = Returned \<and> dm_service d' = dm_service d \<Longrightarrow>
   \<exists>d'. (polite_step p E Pl)\<^sup>*\<^sup>* d d' \<and> dm_main d' = Returned \<and> dm_service d' = dm_service d"
  by (metis (no_types, lifting) converse_rtranclp_into_rtranclp leaves_room_def polite_step_def)

lemma daemon_can_stop:
  assumes "flags_ok d" "dm_main d = Serving" "leaves_room d"
  shows "\<exists>d'. (polite_step p E Pl)\<^sup>*\<^sup>* d d' \<and> dm_main d' = Returned \<and> dm_service d' = dm_service d"
proof -
  have returns: "\<exists>d'. (polite_step p E Pl)\<^sup>*\<^sup>* d d' \<and> dm_main d' = Returned \<and> dm_service d' = dm_service d"
    if "\<not> dm_running d" "dm_main d = Serving" "leaves_room d" for d :: "('a, 'b) Daemon"
    by (rule step_then [OF daemon_step.run_returns [OF that(2,1)] that(3)])
      (simp, rule exI [of _ "d\<lparr>dm_main := Returned\<rparr>"], simp)
  have clears: "\<exists>d'. (polite_step p E Pl)\<^sup>*\<^sup>* d d' \<and> dm_main d' = Returned \<and> dm_service d' = dm_service d"
    if "dm_watcher d = Clearing" "dm_main d = Serving" "leaves_room d" for d :: "('a, 'b) Daemon"
    using returns [of "d\<lparr>dm_running := False, dm_watcher := Exited\<rparr>"] that(2,3)
    by (intro step_then [OF daemon_step.watch_clear [OF that(1)]]) (simp_all)
  have stops: "\<exists>d'. (polite_step p E Pl)\<^sup>*\<^sup>* d d' \<and> dm_main d' = Returned \<and> dm_service d' = dm_service d"
    if "dm_watcher d = Watching" "dm_stop d" "dm_main d = Serving" "leaves_room d" for d :: "('a, 'b) Daemon"
    using clears [of "d\<lparr>dm_watcher := Clearing\<rparr>"] that(3,4)
    by (intro step_then [OF daemon_step.watch_stop [OF that(1,2)]]) (simp_all)
  show ?thesis
  proof (cases "dm_watcher d")
    case Watching
    then show ?thesis
      using stops [of "sig_handler d"] assms(2,3)
      by (intro step_then [OF daemon_step.signalled]) (simp_all add: sig_handler_def)
  next
    case Clearing
    then show ?thesis using clears assms(2,3) by blast
  next
    case Exited
    then show ?thesis using returns assms by (simp add: flags_ok_def)
  qed
qed

text \<open>A blocked service stays blocked: no signal, no later step of any thread makes it return.\<close>

theorem blocked_for_ever:
  assumes "(daemon_step p E Pl)\<^sup>*\<^sup>* d d'" "dm_main d = Blocked"
  shows "dm_main d' = Blocked"
  using assms by (induction rule: rtranclp_induct) (auto elim!: daemon_stepE simp: sig_handler_def)

section \<open>The property\<close>

text \<open>C12. The daemon, in a release build with an executor whose batches return, stops cleanly as long as its
  clients leave room for the answers. At every moment, in whatever order the signal handler, the watching
  thread, the clients and the service's loop have acted: the main thread has not panicked and is not
  blocked; each request that a ring has accepted has been answered exactly once, on its channel, or is
  still in its ring; the service has returned only if a signal was received; and while it serves, the
  next iteration comes back to the test of the flag, and the daemon can be stopped, at most one signal, the
  two steps of the watching thread and the return away, without touching the service's state. (A client
  that stops taking responses blocks it for good: theorem \<open>blocked_for_ever\<close>.)\<close>

theorem daemon_stops_cleanly:
  assumes "(polite_step Release E Pl)\<^sup>*\<^sup>* (daemon_start svc) d"
    and "batch_executor (ex_batch E)" "\<forall>w b. \<exists>r. ex_batch E w b = Inr r"
    and "request_pipeline (pl_add Pl) (pl_is_empty Pl) (pl_drain Pl) held invar"
    and "between_rounds Pl invar svc" "\<forall>k < length (channels svc). requests (channels svc ! k) = []"
  shows "between_rounds Pl invar (dm_service d) \<and>
    (\<forall>k < length (channels svc). \<exists>new.
       chan_log (channels (dm_service d)) k = chan_log (channels svc) k @ new \<and>
       mset (map rs_id new) + mset (map rq_id (requests (channels (dm_service d) ! k))) =
         mset (map rq_id (dm_accepted d k))) \<and>
    (case dm_main d of
       Returned \<Rightarrow> dm_stop d
     | Serving \<Rightarrow> (\<exists>r. serve_round Release E Pl (dm_service d) = Inr r) \<and>
         (\<exists>d'. (polite_step Release E Pl)\<^sup>*\<^sup>* d d' \<and> dm_main d' = Returned \<and> dm_service d' = dm_service d)
     | Panicked _ \<Rightarrow> False
     | Blocked \<Rightarrow> False)"
proof -
  note inv = daemon_run_invariant [OF assms]
  have serves: "(\<exists>r. serve_round Release E Pl (dm_service d) = Inr r) \<and>
      (\<exists>d'. (polite_step Release E Pl)\<^sup>*\<^sup>* d d' \<and> dm_main d' = Returned \<and> dm_service d' = dm_service d)"
    if "dm_main d = Serving"
    using inv that polite_iteration [OF _ _ assms(2-4)] daemon_can_stop [of d Release E Pl] by blast
  show ?thesis
    using inv serves by (cases "dm_main d") (auto simp: flags_ok_def service_ok_def accounted_def)
qed

theorem daemon_stops_cleanly_witness:
  "let svc = fresh_service (with_pipeline ([] :: call list) Batched_new) 2 in
   \<exists>d new. (polite_step Release (PosixExecutor (demo_libc id)) batched)\<^sup>*\<^sup>* (daemon_start svc) d \<and>
     dm_main d = Returned \<and> dm_stop d \<and>
     chan_log (channels (dm_service d)) 1 = chan_log (channels svc) 1 @ new \<and> mset (map rs_id new) = {#7#}"
proof -
  let ?svc = "fresh_service (with_pipeline ([] :: call list) Batched_new) 2"
    and ?m = "Pushes 1 (mk_req 7 Sync 10 0 0 0)" and ?E = "PosixExecutor (demo_libc id)"
  let ?step = "polite_step Release ?E batched" and ?acc = "\<lambda>k. [] @ move_accepted ?m (channels ?svc) k"
  obtain svc' w where s: "serve_round Release ?E batched example_service = Inr (svc', w)"
    using serve_round_total [OF example_service_facts(1) example_room posix_batch_executor
        posix_batch_total batched_pipeline] by (metis surj_pair)
  note sp = serve_round_spec [OF s example_service_facts(1) posix_batch_executor batched_pipeline]
  let ?d1 = "(daemon_start ?svc)\<lparr>dm_service := example_service, dm_accepted := ?acc\<rparr>"
  let ?d2 = "?d1\<lparr>dm_service := svc'\<rparr>"
  have room: "leaves_room ?d2" using sp by (simp add: leaves_room_def)
  have run: "?step\<^sup>*\<^sup>* (daemon_start ?svc) ?d2"
  proof -
    have "daemon_step Release ?E batched (daemon_start ?svc) ?d1"
      using daemon_step.client [of Release ?E batched "daemon_start ?svc" ?m]
      by (simp add: daemon_start_def example_service_def Let_def)
    then have "?step (daemon_start ?svc) ?d1" using example_room by (simp add: polite_step_def leaves_room_def)
    moreover have "daemon_step Release ?E batched ?d1 ?d2"
      by (rule daemon_step.iterate) (use s in \<open>simp_all add: daemon_start_def\<close>)
    then have "?step ?d1 ?d2" using room by (simp add: polite_step_def)
    ultimately show ?thesis by (rule converse_rtranclp_into_rtranclp [OF _ r_into_rtranclp])
  qed
  have "flags_ok ?d2" "dm_main ?d2 = Serving" by (simp_all add: flags_ok_def daemon_start_def)
  from daemon_can_stop [OF this room, of Release ?E batched] obtain d where
    d: "?step\<^sup>*\<^sup>* ?d2 d" "dm_main d = Returned" "dm_service d = svc'" by auto
  have all: "?step\<^sup>*\<^sup>* (daemon_start ?svc) d" using run d(1) by (rule rtranclp_trans)
  have empty: "\<forall>k < length (channels ?svc). requests (channels ?svc ! k) = []"
    by (simp add: fresh_nth)
  have total: "\<forall>w b. \<exists>r. ex_batch ?E w b = Inr r" by (intro allI posix_batch_total)
  have stop: "dm_stop d"
    using daemon_stops_cleanly [OF all posix_batch_executor total batched_pipeline fresh_between_rounds(1) empty]
    by (simp add: d(2))
  obtain new where "chan_log (channels svc') 1 = chan_log (channels example_service) 1 @ new"
    "mset (map rs_id new) = {#7#}"
    using sp example_service_facts(2,4) by (auto dest!: spec [of _ 1])
  moreover have "chan_log (channels example_service) 1 = chan_log (channels ?svc) 1"
    using client_moves_spec [of "channels ?svc" "[?m]"] by (simp add: example_service_def Let_def)
  ultimately show ?thesis using all d(2,3) stop by (simp add: Let_def) blast
qed

end
