(* ===== verification/Spec2Isabelle.thy ===== *)
theory Spec2Isabelle
  imports Own_Files_Properties End_To_End Region_Memory Data_Transfers Client_Session Daemon
begin

text \<open>
  \<^bold>\<open>Atlas I/O: a model of the client library, the shared-memory transport and the I/O service\<close>

  A process that links \<open>atlas-client\<close> does file I/O through a daemon, \<open>atlas-service\<close>. They share three
  segments per instance: a ring of requests, a ring of responses and a data region
  (\<open>atlas-protocol\<close>). The client allocates room in the region, pushes a request and waits for the
  response with its id. The service polls the request rings of its instances, hands a round of requests
  to a pipeline stage that may merge and reorder them, executes what comes out with one of two
  executors and answers every request on its own ring.

  \<^bold>\<open>Theories and sources\<close> (paths under \<open>src/\<close>; definitions keep the names of the code, with a prefix where
  two types share a method name)

  \<^item> \<open>Atlas_Prelude\<close>: machine integers as words of their width (\<open>usize\<close> is 64 bits; signed numbers are bit
    patterns read with \<open>sint\<close>), the abnormal ends of a Rust computation (\<open>fault\<close>, \<open>'a exec = fault + 'a\<close>,
    \<open>and_then\<close>), checked and wrapping arithmetic of the two build profiles.
  \<^item> \<open>Protocol\<close>: \<open>atlas-protocol/src/lib.rs\<close>, codes, the two structs as records, the path field.
    \<open>Shm_Names\<close>: the names of the segments and, from \<open>atlas-service/src/main.rs\<close>, the parsing of ids.
  \<^item> \<open>Queue_Interface\<close>: the contract of a bounded FIFO queue (locale \<open>bounded_queue\<close>). \<open>Spsc_Ring\<close>:
    \<open>atlas-protocol/src/spsc.rs\<close> with \<open>push\<close>, \<open>pop\<close>, \<open>init_in_place\<close>, \<open>attach\<close> as functions on ring
    memory and the two ends, and the interpretation \<open>spscq\<close> of the contract. \<open>Spsc_Concurrent\<close>: the
    same code cut at its atomic accesses, as a step relation of producer and consumer in which loads of
    the other end's counter may be stale. \<open>Spsc_Progress\<close>: that neither end can be stuck. \<open>Channel_Rings\<close>: the rings at the capacity of the channels.
  \<^item> \<open>Data_Region\<close>, \<open>Client_Channel\<close>: \<open>atlas-client/src/channel.rs\<close>, the allocator, the region's bytes
    and \<open>send_request\<close>. \<open>Client\<close>: \<open>atlas-client/src/lib.rs\<close> and \<open>ffi.rs\<close>. \<open>Client_Session\<close>: the
    calls of all clients of a process, which share the counter of request numbers.
  \<^item> \<open>Batch_Engine\<close>, \<open>Scheduler\<close>, \<open>Pipeline\<close>, \<open>Executor\<close>: the files of the same names in
    \<open>atlas-service/src\<close>. The traits \<open>Pipeline\<close> and \<open>IoExecutor\<close> are records of methods; the locales
    \<open>request_pipeline\<close> and \<open>batch_executor\<close> are what the service needs of them, interpreted for both
    stages and both executors.
  \<^item> \<open>Service_Channel\<close>: \<open>atlas-service/src/channel.rs\<close> with the channels as a sink of responses (locale
    \<open>response_sink\<close>). \<open>Service\<close>: \<open>service.rs\<close>, state, handlers, \<open>execute_round\<close>, one iteration
    (\<open>serve_round\<close>) and the loop (\<open>run_service\<close>). \<open>Service_Answers\<close>, \<open>Service_Completion\<close>,
    \<open>Service_Descriptors\<close>: what is sent, when an iteration returns, the descriptor table.
    \<open>Service_Properties\<close>: the properties. \<open>Daemon\<close>: \<open>main.rs\<close>, the choice of the executor, and after
    registration the signal handler, the thread that watches its flag, the clients and the service's loop as a
    step relation.
  \<^item> \<open>Single_Request\<close>: the specification \<open>answer\<close> of one request, and that an iteration of the service
    implements it through either stage (locale \<open>lone_stage\<close>). \<open>Client_Service\<close>: the client's channel and
    the service as one system, where the service acts while the client yields. \<open>Call_Sequences\<close>: any number
    of calls against the specification. \<open>System_Properties\<close>: the properties of the whole path. \<open>Data_Transfers\<close>: which
    bytes merged and short transfers move, and what the clients are told. \<open>Round_Order\<close>: a
    round and a run of many clients' requests against \<open>answer\<close> one after another, for the stage that
    \<open>main\<close> uses and executors that run a batch entry by entry (locale \<open>sequential_executor\<close>).
  \<^item> \<open>Concurrent_Clients\<close>: many clients in \<open>send_request\<close> at once and the service as a step relation with a
    trace of what happens, and what it means that a trace is explained by \<open>answer\<close>.
    \<open>Concurrent_Invariant\<close>: what every step keeps. \<open>Concurrent_Properties\<close>: linearizability, and that
    calls return.
  \<^item> \<open>File_System\<close>: a directory of regular files as POSIX describes it (\<open>file_directory\<close>; \<open>shared_directory\<close>
    where opens may fail), and each call of the client on it through the whole system. \<open>Disk_World\<close>: a file
    system that keeps these contracts. \<open>End_To_End\<close>: \<open>atlas-client/tests/e2e.rs\<close> and
    \<open>atlas-service/tests/service_stress.rs\<close> run in the model. \<open>Own_Files\<close>, \<open>Own_Files_Properties\<close>: concurrent
    clients with files of their own against lone clients (\<open>solo_answer\<close>), and the test with four threads.
  \<^item> \<open>Shm_Setup\<close>: how both sides create, map and join the segments (both \<open>channel.rs\<close>, \<open>main.rs\<close>) over the
    system calls. \<open>Shm_Handshake\<close>: what the startup protocol establishes. \<open>Startup_System\<close>:
    that it leads to the system of \<open>Client_Service\<close>. \<open>Shm_Restart\<close>: joining again. \<open>Shm_Properties\<close>: the properties.
  \<^item> \<open>Wire_Layout\<close>: the C layout of the two structs and of the ring, and the structs as bytes.
    \<open>Protocol_Tests\<close>, \<open>Service_Tests\<close>, \<open>Channel_Tests\<close>: the unit tests that stand beside the code, run in the model.
    \<open>Region_Memory\<close>: the bytes of a region that is mapped twice, and the test of the client that does it.

  \<^bold>\<open>What is shown\<close>

  \<^item> The ring reports for every sequence of operations what a list of bounded length reports
    (\<open>push_correct\<close>, \<open>spsc_sequential_fifo\<close>), also with wrapped counters; under every interleaving of the two
    ends it delivers what was pushed in its order, without two accesses to one slot at once (\<open>reach_fifo\<close>, \<open>reach_no_slot_race\<close>), and it cannot
    deadlock (\<open>ring_never_stuck\<close>).
  \<^item> An iteration of the service answers each waiting request exactly once, on its channel and with its id
    (\<open>serve_round_answers\<close>), and it returns (\<open>serve_round_completes\<close>). The daemon answers each accepted
    request once and loses none when it is stopped, and it can be stopped at any time, as long as its clients
    leave room for the answers (\<open>daemon_stops_cleanly\<close>; \<open>blocked_for_ever\<close> is the other case). Over a whole
    run with any number of clients it is a sequential server (\<open>service_runs_serially\<close>), provided that in no
    iteration a data request meets a close of its descriptor or an open that may assign it
    (\<open>close_overtakes_read\<close> shows what happens otherwise).
  \<^item> Merging loses nothing, covers exactly the bytes asked for and is as complete as it can be; each
    request behind a merged read finds in the region the bytes its own read would have returned
    (\<open>merged_read_as_if_alone\<close>). Draining respects priorities, and a round of the batching stage is exactly
    the engine's result in order of priority (\<open>batched_round_ordered\<close>).
  \<^item> Each operation of a batch reports its own call, with the error number negated when it failed
    (\<open>posix_batch_results\<close>, \<open>uring_batch_results\<close>).
  \<^item> Descriptors are not reused; unknown ones are refused without touching the executor.
  \<^item> Any sequence of calls of the client composed with the service is answered as the specification says
    (\<open>calls_refine_answers\<close>); the requests of a process are well typed, one per call on the ring of the
    calling client, and numbered by one counter for all its clients (\<open>session_requests_typed\<close>); what is written is read back (\<open>write_then_read\<close>), with a short count at
    the end of the file; the errors come through the C interface.
  \<^item> With many clients calling at the same time every interleaving is linearizable: each call takes effect at
    one moment between its beginning and its end, in one sequential execution of \<open>answer\<close>
    (\<open>concurrent_clients_linearize\<close>), as long as clients use the descriptors they hold; and from every state
    all calls under way can return (\<open>concurrent_calls_return\<close>). Clients with files of their own see what they
    would see alone (\<open>concurrent_clients_isolated\<close>).
  \<^item> The messages are exactly their bytes (\<open>wire_format_exact\<close>), and the unit tests of the code pass in the
    model (\<open>unit_tests_pass\<close>), and so do the tests of the whole system with one client, from startup to the
    closing of the files, unless the operating system refuses to set them up (\<open>end_to_end_tests_pass\<close>), and
    each thread of the one with four clients (\<open>multi_instance_concurrent\<close>).
  \<^item> Startup connects the two ends of the same rings (\<open>startup_connects\<close>), a service may join again
    (\<open>rejoin_keeps_traffic\<close>), and a daemon that was started first is never met
    (\<open>daemon_started_first\<close>).
  \<^item> Some properties state behaviour that the comments or the documentation do not lead one to expect:
    \<open>close_overtakes_read\<close>, \<open>short_writes_reported_full\<close>, \<open>merged_write_loses_data\<close>,
    \<open>oversized_alloc_accepted\<close>, \<open>descriptors_not_isolated\<close>, \<open>uring_late_completion\<close>,
    \<open>daemon_started_first\<close>, \<open>blocked_for_ever\<close>.

  \<^bold>\<open>Conventions, parameters, bounds\<close>

  \<^item> A loop that waits for a peer takes the peer's moves as a list, one per yield, and ends in \<open>Inl Spin\<close>
    when they run out: \<open>send_request\<close>, \<open>send_loop\<close>. A statement that the code returns is about a list that
    is long enough: one move of the service for a call on an idle channel, one free slot or one taken
    response for each answer (\<open>credit\<close>) for an iteration.
  \<^item> \<open>run_service\<close> makes one iteration for each element of a list, which holds what the clients do before
    that iteration; the flag that stops the loop is read between iterations.
  \<^item> The counted loops have the code's own bounds: 1,000,000 looks of \<open>attach\<close>, 200 attempts of
    \<open>connect\<close>. The allocator's compare-and-swap takes the values that other threads store before each
    attempt as a list.
  \<^item> The C library, the io_uring crate and the shared-memory calls are records of functions over a state
    of their own (\<open>LibC\<close>, \<open>Uring\<close>, \<open>ShmOs\<close>). What the theorems need of them are named hypotheses
    (\<open>regular_files\<close>, \<open>file_directory\<close>, \<open>shared_directory\<close>, \<open>uring_contract\<close>, \<open>shm_contract\<close>), each shown to hold of a concrete instance in
    the witnesses.
  \<^item> Addresses of the mappings of all processes are distinct in \<open>shm_view\<close>; mappings are never removed, as
    in the code.
  \<^item> Memory order is modelled at the level at which the ring relies on it: an acquire load of a counter
    sees some value the other end stored, no older than one seen before, with the slots written before
    it.

  \<^bold>\<open>Not modelled\<close>

  \<^item> Printing in \<open>main.rs\<close>; boxing, freeing and pointer casts in \<open>ffi.rs\<close>; the closing of file descriptors that are dropped; \<open>Display\<close> of \<open>RingFull\<close>: no
    logic of the program's own.
  \<^item> The C++ shim for RocksDB, another language that only calls the C interface.
  \<^item> The benchmarks; the deadlines and the teardown of the end-to-end tests.
\<close>

end
